(* ===== verification/Prelude.thy ===== *)
theory Prelude
  imports Main "HOL-Library.Word" "HOL-Library.Sublist"
begin

text \<open>
  Shared vocabulary of the development: the faults a C++ operation can end in, the result
  type that carries them, C characters and strings as lists of characters, the wrap-around
  arithmetic of \<open>size_t\<close>, substring search as \<open>std::string_view::find\<close> does it, and the
  generic list lemmas that several components use.
\<close>

section \<open>Collections\<close>

text \<open>What keeps a frame well-formed: updates of its fields, and the operations made of them.\<close>

named_theorems wf_frame

section \<open>Faults and results\<close>

text \<open>
  A fault is either undefined behaviour of the C++ abstract machine (a read or a write outside
  an object, a null dereference, a use of an object behind the end of its lifetime), an exception of the
  standard library, or a loop that never returns. Operations that can end in one return a \<open>result\<close>.
\<close>

datatype fault =
    OutOfBounds
  | NullPointer
  | InvalidArgument
  | OutOfRange
  | LogicError
  | LengthError
  | Overflow
  | Diverges
  | OutOfFuel
  | Dangling

type_synonym 'a result = "fault + 'a"

definition bindR :: "'a result \<Rightarrow> ('a \<Rightarrow> 'b result) \<Rightarrow> 'b result" where
  "bindR m f = (case m of Inl e \<Rightarrow> Inl e | Inr x \<Rightarrow> f x)"

lemma bindR_simps [simp]:
  "bindR (Inl e) f = Inl e"
  "bindR (Inr x) f = f x"
  by (simp_all add: bindR_def)

lemma bindR_Inr_iff: "bindR m f = Inr y \<longleftrightarrow> (\<exists>x. m = Inr x \<and> f x = Inr y)"
  by (cases m) auto

lemma bindR_split:
  "P (bindR m f) \<longleftrightarrow> (\<forall>e. m = Inl e \<longrightarrow> P (Inl e)) \<and> (\<forall>x. m = Inr x \<longrightarrow> P (f x))"
  by (cases m) auto

lemma bindR_assoc: "bindR (bindR m f) g = bindR m (\<lambda>x. bindR (f x) g)"
  by (cases m) auto

text \<open>The fault of a computation, for statements about which errors are possible.\<close>

definition returns :: "'a result \<Rightarrow> bool" where
  "returns m = (case m of Inl _ \<Rightarrow> False | Inr _ \<Rightarrow> True)"

lemma returns_simps [simp]: "\<not> returns (Inl e)" "returns (Inr x)"
  by (simp_all add: returns_def)

lemma returns_iff: "returns m \<longleftrightarrow> (\<exists>x. m = Inr x)"
  by (cases m) auto

section \<open>C characters and strings\<close>

text \<open>
  A \<open>std::array<char, N>\<close> is a list of \<open>N\<close> characters. A \<open>const char *\<close> argument is the list of the
  characters it points to; reading stops at the first NUL, or at the end of the list, where the
  terminator of a literal or of a \<open>std::string\<close> stands.
\<close>

type_synonym cstring = "char list"

abbreviation NUL :: char where
  "NUL \<equiv> CHR 0x00"

definition cstr :: "cstring \<Rightarrow> cstring" where
  "cstr s = takeWhile (\<lambda>c. c \<noteq> NUL) s"

definition terminated :: "cstring \<Rightarrow> bool" where
  "terminated s = (NUL \<in> set s)"

lemma cstr_no_NUL: "NUL \<notin> set (cstr s)"
  by (auto simp: cstr_def dest: set_takeWhileD)

lemma length_cstr_le [simp]: "length (cstr s) \<le> length s"
  by (simp add: cstr_def length_takeWhile_le)

lemma cstr_idem [simp]: "cstr (cstr s) = cstr s"
  by (simp add: cstr_def)

lemma cstr_eq_self: "NUL \<notin> set s \<Longrightarrow> cstr s = s"
  by (auto simp: cstr_def takeWhile_eq_all_conv)

lemma cstr_append_NUL: "NUL \<notin> set s \<Longrightarrow> cstr (s @ NUL # t) = s"
  by (induction s) (auto simp: cstr_def)

lemma cstr_append_replicate: "NUL \<notin> set s \<Longrightarrow> cstr (s @ replicate n NUL) = s"
  by (cases n) (auto simp: cstr_append_NUL cstr_eq_self)

lemma cstr_prefix_take: "cstr s = take (length (cstr s)) s"
  unfolding cstr_def by (rule takeWhile_eq_take)

lemma length_cstr_less: "terminated s \<Longrightarrow> length (cstr s) < length s"
  unfolding terminated_def cstr_def
  by (induction s) auto

lemma cstr_nth_NUL: "terminated s \<Longrightarrow> s ! length (cstr s) = NUL"
  using nth_length_takeWhile [of "\<lambda>c. c \<noteq> NUL" s] length_cstr_less [of s]
  by (simp add: cstr_def)

text \<open>\<open>while ( *p == ' ' ) p++;\<close>, which stops at the terminator.\<close>

definition skip_spaces :: "cstring \<Rightarrow> cstring" where
  "skip_spaces p = dropWhile (\<lambda>c. c = CHR '' '') p"

section \<open>The arithmetic of size\_t\<close>

text \<open>
  Indices are natural numbers; where the code can leave the range of \<open>size_t\<close> its
  wrap-around is written out.
\<close>

definition npos :: nat where
  "npos = 18446744073709551615"

definition uadd64 :: "nat \<Rightarrow> nat \<Rightarrow> nat" where
  "uadd64 a b = (a + b) mod 18446744073709551616"

definition usub64 :: "nat \<Rightarrow> nat \<Rightarrow> nat" where
  "usub64 a b = (if b \<le> a then a - b else a + 18446744073709551616 - b)"

lemma npos_power: "npos = 2 ^ 64 - 1"
  by (simp add: npos_def)

lemma uadd64_small: "a + b \<le> npos \<Longrightarrow> uadd64 a b = a + b"
  by (simp add: uadd64_def npos_def)

lemma usub64_small: "b \<le> a \<Longrightarrow> usub64 a b = a - b"
  by (simp add: usub64_def)

section \<open>Substring search\<close>

fun find_sub :: "'a list \<Rightarrow> 'a list \<Rightarrow> nat option" where
  "find_sub s [] = (if s = [] then Some 0 else None)"
| "find_sub s (c # cs) = (if prefix s (c # cs) then Some 0 else map_option Suc (find_sub s cs))"

definition find_from :: "'a list \<Rightarrow> 'a list \<Rightarrow> nat \<Rightarrow> nat option" where
  "find_from s x pos =
     (if pos \<le> length x then map_option ((+) pos) (find_sub s (drop pos x)) else None)"

fun find_char :: "'a \<Rightarrow> 'a list \<Rightarrow> nat option" where
  "find_char c [] = None"
| "find_char c (x # xs) = (if x = c then Some 0 else map_option Suc (find_char c xs))"

text \<open>The \<open>npos\<close> convention of \<open>std::string::find\<close>.\<close>

definition or_npos :: "nat option \<Rightarrow> nat" where
  "or_npos r = (case r of None \<Rightarrow> npos | Some i \<Rightarrow> i)"

lemma or_npos_simps [simp]: "or_npos None = npos" "or_npos (Some i) = i"
  by (simp_all add: or_npos_def)

definition contains :: "'a list \<Rightarrow> 'a list \<Rightarrow> bool" where
  "contains x s = (find_sub s x \<noteq> None)"

lemma find_sub_Nil [simp]: "find_sub [] x = Some 0"
  by (cases x) auto

lemma find_sub_None_iff: "find_sub s x = None \<longleftrightarrow> \<not> sublist s x"
  by (induction x) (auto simp: sublist_Cons_right)

lemma contains_iff_sublist: "contains x s \<longleftrightarrow> sublist s x"
  by (simp add: contains_def find_sub_None_iff)

lemma find_sub_SomeD:
  "find_sub s x = Some i \<Longrightarrow> prefix s (drop i x) \<and> (\<forall>j < i. \<not> prefix s (drop j x))"
proof (induction x arbitrary: i)
  case Nil
  then show ?case by (auto split: if_splits)
next
  case (Cons c cs)
  show ?case
  proof (cases "prefix s (c # cs)")
    case True
    with Cons.prems show ?thesis by simp
  next
    case False
    with Cons.prems obtain k where "find_sub s cs = Some k" "i = Suc k" by auto
    with Cons.IH [of k] False show ?thesis
      by (auto simp: less_Suc_eq_0_disj)
  qed
qed

lemma find_sub_bound: "find_sub s x = Some i \<Longrightarrow> i + length s \<le> length x"
  by (induction x arbitrary: i) (auto split: if_splits dest: prefix_length_le)

lemma find_sub_split:
  assumes "find_sub s x = Some i"
  shows "x = take i x @ s @ drop (i + length s) x"
proof -
  from find_sub_SomeD [OF assms] obtain t where t: "drop i x = s @ t"
    by (auto elim: prefixE)
  then have "drop (i + length s) x = t"
    by (metis add.commute append_eq_conv_conj drop_drop)
  with t show ?thesis by (metis append_take_drop_id)
qed

lemma find_sub_leastI:
  assumes "prefix s (drop i x)" "i \<le> length x" "\<And>j. j < i \<Longrightarrow> \<not> prefix s (drop j x)"
  shows "find_sub s x = Some i"
  using assms
proof (induction x arbitrary: i)
  case Nil
  then show ?case by simp
next
  case (Cons c cs)
  show ?case
  proof (cases i)
    case 0
    with Cons.prems show ?thesis by simp
  next
    case (Suc k)
    have "find_sub s cs = Some k"
      using Cons.prems Suc by (intro Cons.IH) force+
    moreover have "\<not> prefix s (c # cs)"
      using Cons.prems(3) [of 0] Suc by simp
    ultimately show ?thesis using Suc by simp
  qed
qed

lemma find_char_None_iff [simp]: "find_char c x = None \<longleftrightarrow> c \<notin> set x"
  by (induction x) auto

lemma find_char_notin: "c \<notin> set x \<Longrightarrow> find_char c (x @ c # y) = Some (length x)"
  by (induction x) auto

lemma find_char_SomeD: "find_char c x = Some i \<Longrightarrow> i < length x \<and> x ! i = c \<and> c \<notin> set (take i x)"
  by (induction x arbitrary: i) (auto split: if_splits)

section \<open>Lists updated in place\<close>

lemma take_list_update_ge: "n \<le> i \<Longrightarrow> take n (xs[i := v]) = take n xs"
  by simp

lemma nth_take_drop_cong: "take n xs = take n ys \<Longrightarrow> i < n \<Longrightarrow> xs ! i = ys ! i"
  by (metis nth_take)

lemma list_eq_take_drop: "take n xs = take n ys \<Longrightarrow> drop n xs = drop n ys \<Longrightarrow> xs = ys"
  by (metis append_take_drop_id)

lemma sum_list_le_pointwise:
  "(\<And>x. x \<in> set xs \<Longrightarrow> f x \<le> (g x :: nat)) \<Longrightarrow> sum_list (map f xs) \<le> sum_list (map g xs)"
  by (induction xs) (auto intro: add_mono)

lemma elem_le_sum_list_map: "x \<in> set xs \<Longrightarrow> f x \<le> sum_list (map (f :: _ \<Rightarrow> nat) xs)"
  by (simp add: member_le_sum_list)

end
