(* ===== verification/CStrings.thy ===== *)
theory CStrings
  imports Prelude
begin

text \<open>
  The fixed-size string routines at the top of \<open>StackTrace.cpp\<close>: in-place replacement
  (\<open>replace\<close>, \<open>strrep\<close>), hashing (\<open>hashString\<close>, \<open>objHash\<close>), the address difference
  (\<open>subtractAddress\<close>), path stripping (\<open>stripPath\<close>) and the bounded copies (\<open>strlen2\<close>,
  \<open>copy\<close>).
\<close>

section \<open>replace and strrep\<close>

text \<open>
  \<open>replace( str, N, pos, len, r )\<close> works on the buffer itself: \<open>tmp\<close> is the same pointer as
  \<open>str\<close>, so the second loop reads what the earlier iterations left. The third loop
  counts \<open>m\<close> up but always writes \<open>str[k]\<close>.
\<close>

fun replace_put :: "cstring \<Rightarrow> nat \<Rightarrow> nat \<Rightarrow> cstring \<Rightarrow> cstring \<times> nat" where
  "replace_put str N k [] = (str, k)"
| "replace_put str N k (c # cs) =
     (if k < N then replace_put (str[k := c]) N (Suc k) cs else (str, k))"

function replace_shift :: "cstring \<Rightarrow> nat \<Rightarrow> nat \<Rightarrow> nat \<Rightarrow> cstring \<times> nat" where
  "replace_shift str N k i =
     (if i < N \<and> k < N then replace_shift (str[k := str ! i]) N (Suc k) (Suc i) else (str, k))"
  by pat_completeness auto
termination
  by (relation "measure (\<lambda>(str, N, k, i). N - i)") auto

declare replace_shift.simps [simp del]

function replace_clear :: "cstring \<Rightarrow> nat \<Rightarrow> nat \<Rightarrow> nat \<Rightarrow> cstring" where
  "replace_clear str N k m =
     (if m < N then replace_clear (str[k := NUL]) N k (Suc m) else str)"
  by pat_completeness auto
termination
  by (relation "measure (\<lambda>(str, N, k, m). N - m)") auto

declare replace_clear.simps [simp del]

definition replace :: "cstring \<Rightarrow> nat \<Rightarrow> nat \<Rightarrow> nat \<Rightarrow> cstring \<Rightarrow> cstring \<times> nat" where
  "replace str N pos len r =
     (let (str1, k1) = replace_put str N pos r;
          (str2, k2) = replace_shift str1 N k1 (uadd64 pos len)
      in (replace_clear str2 N k2 k2, k2))"

text \<open>
  \<open>strrep\<close> replaces the first occurrence until there is none. \<open>None\<close> is a loop that never
  returns. Making the view \<open>string_view( str, N )\<close> needs \<open>N\<close> characters in the buffer.
\<close>

partial_function (option) strrep ::
  "cstring \<Rightarrow> nat \<Rightarrow> cstring \<Rightarrow> cstring \<Rightarrow> (cstring \<times> nat) result option" where
  "strrep str N s r =
     (if length str < N then Some (Inl OutOfBounds)
      else case find_sub s (take N str) of
             None \<Rightarrow> Some (Inr (str, N))
           | Some pos \<Rightarrow>
               strrep (fst (replace str N pos (length s) r))
                      (snd (replace str N pos (length s) r)) s r)"

declare strrep.simps [code]

text \<open>A call of \<open>strrep\<close> inside a larger computation: not returning becomes a fault.\<close>

definition call_strrep :: "cstring \<Rightarrow> cstring \<Rightarrow> cstring \<times> nat \<Rightarrow> (cstring \<times> nat) result" where
  "call_strrep s r = (\<lambda>(str, N). case strrep str N s r of None \<Rightarrow> Inl Diverges | Some x \<Rightarrow> x)"

subsection \<open>What replace computes\<close>

lemma replace_put_spec:
  assumes "k + length r \<le> N" "N \<le> length str"
  shows "replace_put str N k r
    = (take k str @ r @ drop (k + length r) str, k + length r)"
  using assms
proof (induction r arbitrary: str k)
  case Nil
  then show ?case by simp
next
  case (Cons c cs)
  then have "k < N" "k < length str" by auto
  with Cons.IH [of "Suc k" "str[k := c]"] Cons.prems show ?case
    by (simp add: take_Suc_conv_app_nth)
qed

lemma replace_shift_spec:
  assumes "k \<le> i" "i \<le> N" "N \<le> length str"
  shows "replace_shift str N k i
    = (take k str @ drop i (take N str) @ drop (k + (N - i)) str, k + (N - i))"
  using assms
proof (induction str N k i rule: replace_shift.induct)
  case (1 str N k i)
  show ?case
  proof (cases "i < N")
    case False
    with 1(2-4) have "i = N" by simp
    with 1(2-4) show ?thesis by (simp add: replace_shift.simps [of str N k N])
  next
    case True
    with 1(2-4) have k: "k < N" "k < length str" by auto
    let ?s = "str[k := str ! i]"
    have tl: "drop (Suc i) (take N ?s) = drop (Suc i) (take N str)"
      using 1(2) by (simp add: take_update_swap)
    have hd: "drop i (take N str) = str ! i # drop (Suc i) (take N str)"
      using True 1(4) by (subst Cons_nth_drop_Suc [symmetric]) auto
    have "replace_shift str N k i = replace_shift ?s N (Suc k) (Suc i)"
      using True k by (simp add: replace_shift.simps [of str N k i])
    also have "\<dots> = (take (Suc k) ?s @ drop (Suc i) (take N ?s) @ drop (Suc k + (N - Suc i)) ?s,
        Suc k + (N - Suc i))"
      using True k 1(2-4) by (intro 1(1)) auto
    also have "\<dots> = (take k str @ drop i (take N str) @ drop (k + (N - i)) str, k + (N - i))"
      using True k 1(2) unfolding tl hd
      by (simp add: take_Suc_conv_app_nth Suc_diff_Suc)
    finally show ?thesis .
  qed
qed

lemma replace_clear_spec:
  "replace_clear str N k m = (if m < N then str[k := NUL] else str)"
  by (induction str N k m rule: replace_clear.induct)
     (subst replace_clear.simps, auto)

text \<open>The string a shrinking replacement leaves in front of the new end.\<close>

definition spliced :: "cstring \<Rightarrow> nat \<Rightarrow> nat \<Rightarrow> cstring \<Rightarrow> cstring" where
  "spliced x pos len r = take pos x @ r @ drop (pos + len) x"

lemma length_spliced [simp]:
  "pos + len \<le> length x \<Longrightarrow> length (spliced x pos len r) = length x - len + length r"
  by (simp add: spliced_def)

lemma replace_eq:
  assumes "pos + len \<le> N" "N \<le> length str" "N \<le> npos" "length r \<le> len"
  shows "replace str N pos len r =
    (let k = N - len + length r; new = spliced (take N str) pos len r @ drop k str
     in (if k < N then new[k := NUL] else new, k))"
proof -
  let ?k1 = "pos + length r"
  have put: "replace_put str N pos r = (take pos str @ r @ drop ?k1 str, ?k1)"
    using assms by (intro replace_put_spec) auto
  have wrap: "uadd64 pos len = pos + len"
    using assms by (intro uadd64_small) simp
  let ?s1 = "take pos str @ r @ drop ?k1 str"
  have len1: "length ?s1 = length str" using assms by simp
  have shift: "replace_shift ?s1 N ?k1 (pos + len)
    = (take ?k1 ?s1 @ drop (pos + len) (take N ?s1) @ drop (?k1 + (N - (pos + len))) ?s1,
       ?k1 + (N - (pos + len)))"
    using assms len1 by (intro replace_shift_spec) auto
  have k: "?k1 + (N - (pos + len)) = N - len + length r"
    using assms by simp
  have "take ?k1 ?s1 = take pos str @ r"
    using assms by simp
  moreover have "drop (pos + len) (take N ?s1) = drop (pos + len) (take N str)"
  proof -
    have "drop (pos + len) ?s1 = drop (pos + len) str"
      using assms by (simp add: add.commute)
    then show ?thesis by (simp only: drop_take)
  qed
  moreover have "drop (?k1 + (N - (pos + len))) ?s1 = drop (N - len + length r) str"
    using assms k by simp
  ultimately have "replace_shift ?s1 N ?k1 (pos + len)
    = (spliced (take N str) pos len r @ drop (N - len + length r) str, N - len + length r)"
    using shift k assms by (simp add: spliced_def min_def)
  with put wrap show ?thesis
    by (simp add: replace_def replace_clear_spec Let_def)
qed

subsection \<open>strrep terminates and computes a rewriting\<close>

text \<open>The specification on strings: replace the leftmost occurrence until there is none.\<close>

function subst_all :: "cstring \<Rightarrow> cstring \<Rightarrow> cstring \<Rightarrow> cstring" where
  "subst_all s r x =
     (if length r < length s then
        (case find_sub s x of
           None \<Rightarrow> x
         | Some pos \<Rightarrow> subst_all s r (spliced x pos (length s) r))
      else x)"
  by pat_completeness auto
termination
  by (relation "measure (\<lambda>(s, r, x). length x)") (auto dest!: find_sub_bound)

declare subst_all.simps [simp del]

lemma subst_all_none: "find_sub s x = None \<Longrightarrow> subst_all s r x = x"
  by (simp add: subst_all.simps [of s r x])

lemma subst_all_some:
  "find_sub s x = Some pos \<Longrightarrow> length r < length s \<Longrightarrow>
   subst_all s r x = subst_all s r (spliced x pos (length s) r)"
  by (simp add: subst_all.simps [of s r x])

lemma length_subst_all: "length (subst_all s r x) \<le> length x"
proof (induction s r x rule: subst_all.induct)
  case (1 s r x)
  show ?case
  proof (cases "length r < length s \<and> find_sub s x \<noteq> None")
    case True
    then obtain pos where pos: "find_sub s x = Some pos" and r: "length r < length s" by auto
    with 1 [OF r pos] find_sub_bound [OF pos] show ?thesis
      by (simp add: subst_all_some)
  next
    case False
    then show ?thesis by (subst subst_all.simps) auto
  qed
qed

lemma subst_all_removes: "length r < length s \<Longrightarrow> \<not> sublist s (subst_all s r x)"
proof (induction s r x rule: subst_all.induct)
  case (1 s r x)
  show ?case
  proof (cases "find_sub s x")
    case None
    then show ?thesis by (simp add: subst_all_none find_sub_None_iff [symmetric])
  next
    case (Some pos)
    with 1 show ?thesis by (simp add: subst_all_some)
  qed
qed

text \<open>
  \<open>cview str N x\<close>: the first \<open>N\<close> characters of the buffer are the string \<open>x\<close>, and the buffer
  is terminated right behind them, so \<open>string_view( str, N )\<close> and the C string at \<open>str\<close>
  are both \<open>x\<close>.
\<close>

definition cview :: "cstring \<Rightarrow> nat \<Rightarrow> cstring \<Rightarrow> bool" where
  "cview str N x \<longleftrightarrow>
     N \<le> length str \<and> N \<le> npos \<and> take N str = x \<and> NUL \<notin> set x \<and>
     (N < length str \<longrightarrow> str ! N = NUL)"

lemma cviewD:
  assumes "cview str N x"
  shows "N \<le> length str" "N \<le> npos" "take N str = x" "NUL \<notin> set x" "length x = N"
  using assms by (auto simp: cview_def)

lemma cview_cstr: "cview str N x \<Longrightarrow> cstr str = x"
proof -
  assume v: "cview str N x"
  show "cstr str = x"
  proof (cases "N < length str")
    case True
    with v have "str = x @ NUL # drop (Suc N) str"
      using id_take_nth_drop [OF True] by (auto simp: cview_def)
    with v show ?thesis by (metis cstr_append_NUL cviewD(4))
  next
    case False
    with v have "str = x" by (auto simp: cview_def)
    with v show ?thesis by (simp add: cview_def cstr_eq_self)
  qed
qed

lemma cview_initial:
  "terminated str \<Longrightarrow> length (cstr str) \<le> npos \<Longrightarrow> cview str (length (cstr str)) (cstr str)"
  by (simp add: cview_def cstr_no_NUL cstr_nth_NUL cstr_prefix_take [symmetric])

lemma replace_cview:
  assumes v: "cview str N x" and fits: "pos + len \<le> N" and shrinks: "length r \<le> len"
    and nul: "NUL \<notin> set r"
  defines "res \<equiv> replace str N pos len r"
  shows "cview (fst res) (snd res) (spliced x pos len r)"
    and "snd res = N - len + length r"
    and "length (fst res) = length str"
proof -
  let ?k = "N - len + length r"
  let ?new = "spliced x pos len r @ drop ?k str"
  have res: "res = (if ?k < N then ?new[?k := NUL] else ?new, ?k)"
    using replace_eq [of pos len N str r] cviewD [OF v] fits shrinks
    by (simp add: res_def Let_def)
  have lx: "length (spliced x pos len r) = ?k"
    using cviewD [OF v] fits by simp
  have no: "NUL \<notin> set (spliced x pos len r)"
    using cviewD(4) [OF v] nul
    by (auto simp: spliced_def dest: in_set_takeD in_set_dropD)
  have kN: "?k \<le> N" using fits shrinks by simp
  show "snd res = ?k" by (simp add: res)
  have ln: "length ?new = length str" using lx kN cviewD(1) [OF v] by simp
  then show "length (fst res) = length str" by (simp add: res)
  have "?k = N \<Longrightarrow> N < length str \<Longrightarrow> ?new ! ?k = NUL"
    using v lx by (auto simp: cview_def nth_append)
  moreover have "take ?k ?new = spliced x pos len r"
    using lx by simp
  ultimately show "cview (fst res) (snd res) (spliced x pos len r)"
    using kN no cviewD [OF v] ln lx by (auto simp: cview_def res)
qed

lemma strrep_refines:
  assumes "cview str N x" "length r < length s" "NUL \<notin> set r"
  shows "\<exists>str' N'. strrep str N s r = Some (Inr (str', N')) \<and> cview str' N' (subst_all s r x)
    \<and> length str' = length str"
  using assms
proof (induction "length x" arbitrary: str N x rule: less_induct)
  case less
  note v = less.prems(1)
  have start: "strrep str N s r =
     (case find_sub s x of None \<Rightarrow> Some (Inr (str, N))
      | Some pos \<Rightarrow> strrep (fst (replace str N pos (length s) r))
                      (snd (replace str N pos (length s) r)) s r)"
    using cviewD [OF v] by (simp add: strrep.simps [of str N])
  show ?case
  proof (cases "find_sub s x")
    case None
    with start v show ?thesis by (auto simp: subst_all_none)
  next
    case (Some pos)
    let ?res = "replace str N pos (length s) r"
    have b: "pos + length s \<le> N"
      using find_sub_bound [OF Some] cviewD(5) [OF v] by simp
    have v': "cview (fst ?res) (snd ?res) (spliced x pos (length s) r)"
      and l': "length (fst ?res) = length str"
      using replace_cview [OF v b] less.prems by auto
    have "length (spliced x pos (length s) r) < length x"
      using b less.prems(2) cviewD(5) [OF v] by simp
    from less.hyps [OF this v' less.prems(2,3)] Some start l' less.prems(2) show ?thesis
      by (auto simp: subst_all_some)
  qed
qed

text \<open>
  Property C16: on a terminated buffer and a replacement that is shorter than the pattern,
  \<open>strrep\<close> returns, never touches memory outside the buffer, leaves a terminated string that
  is the exhaustive leftmost rewriting of the input, and that string no longer contains the
  pattern.
\<close>

theorem strrep_correct:
  assumes "cview str N x" "length r < length s" "NUL \<notin> set r"
  shows "\<exists>str' N'. strrep str N s r = Some (Inr (str', N')) \<and> length str' = length str
    \<and> N' \<le> N \<and> cstr str' = subst_all s r x \<and> take N' str' = subst_all s r x
    \<and> \<not> contains (cstr str') s"
proof -
  from strrep_refines [OF assms] obtain str' N'
    where ret: "strrep str N s r = Some (Inr (str', N'))"
      and v: "cview str' N' (subst_all s r x)" and len: "length str' = length str"
    by blast
  have "N' \<le> N"
    using length_subst_all [of s r x] cviewD(5) [OF v] cviewD(5) [OF assms(1)] by simp
  with ret v len subst_all_removes [OF assms(2), of x] show ?thesis
    by (auto simp: cview_cstr [OF v] cviewD(3) [OF v] contains_iff_sublist)
qed

theorem strrep_correct_witness:
  "\<exists>str' N'. strrep ''a >> >'' 6 '' >'' ''>'' = Some (Inr (str', N')) \<and> length str' = 6
    \<and> N' \<le> 6 \<and> cstr str' = ''a>>>'' \<and> take N' str' = ''a>>>'' \<and> \<not> contains (cstr str') '' >''"
proof -
  have v: "cview ''a >> >'' 6 ''a >> >''"
    by (simp add: cview_def npos_def)
  have e: "subst_all '' >'' ''>'' ''a >> >'' = ''a>>>''"
    by (simp add: subst_all.simps spliced_def)
  have l: "length ''a >> >'' = 6" by simp
  from strrep_correct [OF v, of "''>''" "'' >''"] show ?thesis
    unfolding e l by simp
qed

section \<open>Hashing\<close>

text \<open>\<open>char\<close> is signed on the supported platforms: it is sign-extended to 32 bits.\<close>

definition char_u32 :: "char \<Rightarrow> 32 word" where
  "char_u32 c = word_of_int (signed_take_bit 7 (of_char c))"

fun hash_loop :: "32 word \<Rightarrow> cstring \<Rightarrow> 32 word" where
  "hash_loop h [] = h"
| "hash_loop h (c # cs) =
     (if char_u32 c = 0 then h
      else hash_loop (xor (push_bit 5 h + h) (char_u32 c)) cs)"

definition hashString :: "cstring \<Rightarrow> 32 word" where
  "hashString s = hash_loop 5381 s"

definition objHash :: "cstring \<Rightarrow> cstring \<Rightarrow> 64 word" where
  "objHash obj objPath =
     (let v1 = hashString obj; v2 = hashString objPath
      in push_bit 32 (ucast v1) + ucast (xor v1 v2))"

lemma char_u32_zero_iff: "char_u32 c = 0 \<longleftrightarrow> c = NUL"
proof -
  have "\<forall>b0 b1 b2 b3 b4 b5 b6 b7. char_u32 (Char b0 b1 b2 b3 b4 b5 b6 b7) = 0 \<longrightarrow>
    Char b0 b1 b2 b3 b4 b5 b6 b7 = NUL"
    unfolding char_u32_def by code_simp
  moreover have "char_u32 NUL = 0" by (simp add: char_u32_def)
  ultimately show ?thesis by (metis char.exhaust)
qed

lemma hash_loop_cstr: "hash_loop h s = hash_loop h (cstr s)"
  by (induction h s rule: hash_loop.induct) (auto simp: cstr_def char_u32_zero_iff)

lemma hashString_cstr: "hashString s = hashString (cstr s)"
  by (simp add: hashString_def hash_loop_cstr [of _ s])

text \<open>The two halves of the key determine both hashes.\<close>

lemma unat_obj_key:
  fixes v w :: "32 word"
  shows "unat (push_bit 32 (ucast v) + ucast w :: 64 word) = unat v * 2 ^ 32 + unat w"
proof -
  have v: "unat v < 2 ^ 32" and w: "unat w < 2 ^ 32"
    using unsigned_less [of v] unsigned_less [of w] by simp_all
  have uv: "unat (ucast v :: 64 word) = unat v" and uw: "unat (ucast w :: 64 word) = unat w"
    using v w by (simp_all add: unsigned_ucast_eq take_bit_nat_eq_self)
  have "unat (push_bit 32 (ucast v) :: 64 word) = (unat v * 2 ^ 32) mod 2 ^ 64"
    unfolding unsigned_push_bit_eq uv by (simp add: push_bit_eq_mult take_bit_eq_mod)
  also have "\<dots> = unat v * 2 ^ 32" using v by simp
  finally show ?thesis using v w by (simp add: unat_word_ariths uw)
qed

text \<open>
  Two stack frames get the same 64-bit object key exactly when the hash of the
  object and the hash of the path both agree; the exclusive-or in the low half loses nothing.
\<close>

lemma objHash_eq_iff:
  "objHash o1 p1 = objHash o2 p2 \<longleftrightarrow>
     hashString o1 = hashString o2 \<and> hashString p1 = hashString p2"
proof
  assume "objHash o1 p1 = objHash o2 p2"
  then have eq: "unat (hashString o1) * 2 ^ 32 + unat (xor (hashString o1) (hashString p1))
    = unat (hashString o2) * 2 ^ 32 + unat (xor (hashString o2) (hashString p2))"
    unfolding objHash_def Let_def by (metis unat_obj_key)
  have lt: "unat (xor (hashString o1) (hashString p1)) < 2 ^ 32"
    "unat (xor (hashString o2) (hashString p2)) < 2 ^ 32"
    using unsigned_less [of "xor (hashString o1) (hashString p1)"]
      unsigned_less [of "xor (hashString o2) (hashString p2)"] by simp_all
  from arg_cong [OF eq, of "\<lambda>n. n div 2 ^ 32"] lt
  have "unat (hashString o1) = unat (hashString o2)" by simp
  then have h: "hashString o1 = hashString o2" by (simp add: word_unat_eq_iff)
  with eq have "xor (hashString o1) (hashString p1) = xor (hashString o1) (hashString p2)"
    unfolding word_unat_eq_iff [of "xor (hashString o1) (hashString p1)"] by simp
  then have "xor (hashString o1) (xor (hashString o1) (hashString p1))
    = xor (hashString o1) (xor (hashString o1) (hashString p2))" by simp
  then have "hashString p1 = hashString p2"
    by (simp add: xor.assoc [symmetric])
  with h show "hashString o1 = hashString o2 \<and> hashString p1 = hashString p2" by simp
qed (simp add: objHash_def)

section \<open>Address differences\<close>

text \<open>
  Both addresses are read as \<open>int64_t\<close>; their difference, and its absolute value, must be in
  the range of \<open>int64_t\<close>.
\<close>

definition subtractAddress :: "64 word \<Rightarrow> 64 word \<Rightarrow> 64 word result" where
  "subtractAddress a b =
     (let d = sint a - sint b
      in if \<bar>d\<bar> < 2 ^ 63 then Inr (word_of_int \<bar>d\<bar>) else Inl Overflow)"

lemma subtractAddress_sym: "subtractAddress a b = subtractAddress b a"
  by (simp add: subtractAddress_def Let_def abs_minus_commute)

lemma nat_abs_diff: "nat \<bar>int m - int n\<bar> = (if n \<le> m then m - n else n - m)"
  by (simp add: nat_abs_int_diff)

lemma sint_user_address:
  fixes a :: "64 word"
  assumes "unat a < 2 ^ 63"
  shows "sint a = int (unat a)"
proof -
  from assms have "int (unat a) < int (2 ^ 63)" by (simp only: of_nat_less_iff)
  then have "int (unat a) < 2 ^ 63" by simp
  moreover have "- (2 ^ 63) \<le> int (unat a)"
    by (rule order_trans [of _ 0]) simp_all
  ultimately have "signed_take_bit 63 (int (unat a)) = int (unat a)"
    by (rule signed_take_bit_int_eq_self [rotated])
  then show ?thesis unfolding sint_uint uint_nat by simp
qed

text \<open>
  The offset of an address in its object. For addresses of user space (below
  \<open>2 ^ 63\<close>) the subtraction never overflows and is the unsigned distance, whichever of the two is
  larger.
\<close>

lemma subtractAddress_distance:
  assumes "unat a < 2 ^ 63" "unat b < 2 ^ 63"
  shows "\<exists>d. subtractAddress a b = Inr d \<and> unat d = (if unat b \<le> unat a then unat a - unat b else unat b - unat a)"
proof -
  let ?d = "\<bar>int (unat a) - int (unat b)\<bar>"
  have nat_d: "nat ?d = (if unat b \<le> unat a then unat a - unat b else unat b - unat a)"
    by (rule nat_abs_diff)
  have lt: "nat ?d < 2 ^ 63"
    using assms unfolding nat_d by auto
  then have "?d < 2 ^ 63" by (simp add: nat_less_iff)
  then have "subtractAddress a b = Inr (word_of_int ?d)"
    unfolding subtractAddress_def Let_def sint_user_address [OF assms(1)]
      sint_user_address [OF assms(2)] by (simp only: if_True)
  moreover have "unat (word_of_int ?d :: 64 word) = nat ?d"
  proof -
    have "(word_of_int ?d :: 64 word) = word_of_nat (nat ?d)" by simp
    then show ?thesis using lt
      by (simp only: unat_of_nat) (simp add: take_bit_nat_eq_self)
  qed
  ultimately show ?thesis using nat_d by auto
qed

section \<open>Path stripping\<close>

text \<open>
  The pointer \<open>filename\<close> moves behind every separator that \<open>s\<close> passes, \<open>/\<close> (47) or \<open>\\\<close>
  (92).
\<close>

definition is_sep :: "char \<Rightarrow> bool" where
  "is_sep c = (c = CHR 47 \<or> c = CHR 92)"

fun stripPath_loop :: "cstring \<Rightarrow> cstring \<Rightarrow> cstring" where
  "stripPath_loop [] filename = filename"
| "stripPath_loop (c # s) filename =
     (if c = NUL then filename
      else if is_sep c then stripPath_loop s s
      else stripPath_loop s filename)"

definition stripPath :: "cstring option \<Rightarrow> cstring option" where
  "stripPath filename = map_option (\<lambda>f. stripPath_loop f f) filename"

definition basename :: "cstring \<Rightarrow> cstring" where
  "basename s = cstr (stripPath_loop s s)"

lemma stripPath_loop_nosep:
  "(\<And>c. c \<in> set (cstr s) \<Longrightarrow> \<not> is_sep c) \<Longrightarrow> stripPath_loop s f = f"
  by (induction s f rule: stripPath_loop.induct) (auto simp: cstr_def)

lemma stripPath_loop_append:
  assumes "NUL \<notin> set p" "is_sep c"
  shows "stripPath_loop (p @ c # s) f = stripPath_loop s s"
  using assms
proof (induction p arbitrary: f)
  case Nil
  then show ?case by (auto simp: is_sep_def)
next
  case (Cons a p)
  then show ?case by auto
qed

text \<open>Every string is a directory part up to its last separator, and a file name.\<close>

lemma last_sep_split:
  "(\<forall>c \<in> set x. \<not> is_sep c) \<or> (\<exists>p c f. x = p @ c # f \<and> is_sep c \<and> (\<forall>d \<in> set f. \<not> is_sep d))"
proof (cases "\<exists>c \<in> set x. is_sep c")
  case True
  then obtain p c f where "x = p @ c # f" "is_sep c" "\<forall>d \<in> set f. \<not> is_sep d"
    using split_list_last_prop [of x is_sep] by metis
  then show ?thesis by blast
qed blast

section \<open>Lengths and bounded copies\<close>

text \<open>\<open>strlen2\<close> of an array: the index of the first NUL, or the size of the array.\<close>

fun strlen2 :: "cstring \<Rightarrow> nat" where
  "strlen2 [] = 0"
| "strlen2 (c # s) = (if c = NUL then 0 else Suc (strlen2 s))"

text \<open>\<open>strlen2\<close> of a pointer, which may be null.\<close>

definition strlen2_ptr :: "cstring option \<Rightarrow> nat" where
  "strlen2_ptr p = (case p of None \<Rightarrow> 0 | Some s \<Rightarrow> strlen2 s)"

lemma strlen2_eq: "strlen2 s = length (cstr s)"
  by (induction s) (auto simp: cstr_def)

text \<open>The contents of an array \<open>dst\<close> after \<open>memcpy( \<dots>, src, n )\<close> at its start.\<close>

definition memcpy0 :: "cstring \<Rightarrow> cstring \<Rightarrow> nat \<Rightarrow> cstring" where
  "memcpy0 dst src n = take n src @ drop n dst"

text \<open>
  The common body of the three \<open>copy\<close> routines: fill with NUL, copy at most
  \<open>N2 - 1\<close> characters, and mark a truncation with three dots.
\<close>

definition copy_n :: "cstring \<Rightarrow> nat \<Rightarrow> nat \<Rightarrow> cstring" where
  "copy_n src n1 n2 =
     (let out = memcpy0 (replicate n2 NUL) src (min n1 (n2 - 1))
      in if n2 \<le> n1
         then out[n2 - 4 := CHR ''.'', n2 - 3 := CHR ''.'', n2 - 2 := CHR ''.'', n2 - 1 := NUL]
         else out)"

definition copy_array :: "cstring \<Rightarrow> nat \<Rightarrow> cstring" where
  "copy_array src n2 = copy_n src (strlen2 src) n2"

definition copy_ptr :: "cstring option \<Rightarrow> nat \<Rightarrow> cstring" where
  "copy_ptr p n2 = copy_n (case p of None \<Rightarrow> [] | Some s \<Rightarrow> s) (strlen2_ptr p) n2"

text \<open>
  \<open>copy( in, out, outPath )\<close>: the file name goes to \<open>out\<close>, the directory, without its last
  separator, to \<open>outPath\<close>. \<open>ptr - in\<close> is the difference of the remaining lengths.
\<close>

definition copy_path :: "cstring option \<Rightarrow> nat \<Rightarrow> nat \<Rightarrow> cstring \<times> cstring" where
  "copy_path inp n2 n3 =
     (let ptr = stripPath inp; out = copy_ptr ptr n2
      in case (inp, ptr) of
           (Some i, Some p) \<Rightarrow>
             if length p \<noteq> length i
             then (out, copy_n i (length i - length p - 1) n3)
             else (out, replicate n3 NUL)
         | _ \<Rightarrow> (out, replicate n3 NUL))"

definition clipped :: "cstring \<Rightarrow> nat \<Rightarrow> cstring" where
  "clipped x n = (if length x < n then x else take (n - 4) x @ ''...'')"

subsection \<open>What the copies guarantee\<close>

lemma take_length_cstr: "n \<le> length (cstr s) \<Longrightarrow> take n s = take n (cstr s)"
  by (metis cstr_prefix_take min.absorb1 take_take)

lemma take_cstr_no_NUL: "n \<le> length (cstr s) \<Longrightarrow> NUL \<notin> set (take n s)"
  using take_length_cstr [of n s] cstr_no_NUL [of s] by (auto dest: in_set_takeD)

lemma list_update_tail4:
  assumes "length p = m"
  shows "(p @ [a, b, c, d])[m := a', Suc m := b', Suc (Suc m) := c', m + 3 := d'] = p @ [a', b', c', d']"
  using assms by (simp add: list_update_append)

lemma copy_n_fits:
  assumes "n1 < n2" "n1 \<le> length src"
  shows "copy_n src n1 n2 = take n1 src @ replicate (n2 - n1) NUL"
proof -
  from assms have "min n1 (n2 - 1) = n1" by simp
  with assms show ?thesis
    by (simp add: copy_n_def memcpy0_def)
qed

lemma copy_n_truncates:
  assumes "n2 \<le> n1" "4 \<le> n2" "n1 \<le> length src"
  shows "copy_n src n1 n2 = take (n2 - 4) src @ ''...'' @ [NUL]"
proof -
  define m where "m = n2 - 4"
  have n2: "n2 = m + 4" using assms(2) by (simp add: m_def)
  let ?t = "take (m + 3) src"
  have t: "?t = take m src @ [src ! m, src ! (m + 1), src ! (m + 2)]"
  proof -
    have "?t = take m src @ take 3 (drop m src)" by (simp add: take_add)
    also have "take 3 (drop m src) = [src ! m, src ! (m + 1), src ! (m + 2)]"
      using assms n2 by (simp add: numeral_3_eq_3 take_Suc_conv_app_nth)
    finally show ?thesis .
  qed
  have mn: "min n1 (n2 - 1) = m + 3" using assms(1) n2 by simp
  have "memcpy0 (replicate n2 NUL) src (min n1 (n2 - 1)) = take m src @
      [src ! m, src ! (m + 1), src ! (m + 2), NUL]"
    unfolding mn memcpy0_def t using n2 by simp
  moreover have "n2 - 3 = m + 1" "n2 - 2 = m + 2" "n2 - 1 = m + 3" "n2 - 4 = m"
    using n2 by simp_all
  moreover have "length (take m src) = m" using assms n2 by simp
  ultimately show ?thesis
    using assms(1) by (simp add: copy_n_def list_update_tail4 Let_def)
qed

lemma copy_n_cstr:
  assumes "n1 \<le> length (cstr src)" "4 \<le> n2"
  shows "length (copy_n src n1 n2) = n2" "terminated (copy_n src n1 n2)"
    "cstr (copy_n src n1 n2) = clipped (take n1 src) n2"
proof -
  have n1: "n1 \<le> length src" using assms(1) length_cstr_le [of src] by linarith
  have l1: "length (take n1 src) = n1" using n1 by simp
  consider "n1 < n2" | "n2 \<le> n1" by linarith
  then have "length (copy_n src n1 n2) = n2 \<and> terminated (copy_n src n1 n2)
    \<and> cstr (copy_n src n1 n2) = clipped (take n1 src) n2"
  proof cases
    case 1
    have "cstr (copy_n src n1 n2) = take n1 src"
      using copy_n_fits [OF 1 n1] take_cstr_no_NUL [OF assms(1)]
      by (simp add: cstr_append_replicate)
    with 1 n1 l1 show ?thesis
      by (simp add: copy_n_fits terminated_def clipped_def)
  next
    case 2
    have "n2 - 4 \<le> length (cstr src)" using 2 assms by simp
    from take_cstr_no_NUL [OF this] have "NUL \<notin> set (take (n2 - 4) src @ ''...'')" by simp
    from cstr_append_NUL [OF this, of "[]"]
    have "cstr (copy_n src n1 n2) = take (n2 - 4) src @ ''...''"
      using copy_n_truncates [OF 2 assms(2) n1] by simp
    moreover have "take (n2 - 4) (take n1 src) = take (n2 - 4) src"
      using 2 by (simp add: min_def)
    ultimately show ?thesis
      using 2 n1 l1 assms(2) copy_n_truncates [OF 2 assms(2) n1]
      by (simp add: terminated_def clipped_def)
  qed
  then show "length (copy_n src n1 n2) = n2" "terminated (copy_n src n1 n2)"
    "cstr (copy_n src n1 n2) = clipped (take n1 src) n2" by simp_all
qed

lemma copy_array_spec:
  assumes "4 \<le> n2"
  shows "length (copy_array src n2) = n2" "terminated (copy_array src n2)"
    "cstr (copy_array src n2) = clipped (cstr src) n2"
  unfolding copy_array_def
  using copy_n_cstr [of "strlen2 src" src n2] assms
  by (simp_all add: strlen2_eq cstr_prefix_take [symmetric])

text \<open>
  The secure copy fills the whole destination, always terminates it, and leaves the
  source string in it, cut to the capacity with three dots when it does not fit.
\<close>

lemma copy_array_secure:
  assumes "4 \<le> n2"
  shows "length (copy_array src n2) = n2 \<and> terminated (copy_array src n2)
    \<and> cstr (copy_array src n2) = clipped (cstr src) n2"
  using copy_array_spec [OF assms, of src] by simp

lemma copy_ptr_secure:
  assumes "4 \<le> n2"
  shows "length (copy_ptr (Some s) n2) = n2" "terminated (copy_ptr (Some s) n2)"
    "cstr (copy_ptr (Some s) n2) = clipped (cstr s) n2"
  using copy_array_spec [OF assms, of s]
  by (simp_all add: copy_array_def copy_ptr_def strlen2_ptr_def)

lemma copy_ptr_null: "4 \<le> n2 \<Longrightarrow> copy_ptr None n2 = replicate n2 NUL"
  by (simp add: copy_ptr_def strlen2_ptr_def copy_n_fits)

lemma stripPath_nosep: "\<forall>d \<in> set f. \<not> is_sep d \<Longrightarrow> stripPath (Some f) = Some f"
  using set_takeWhileD by (fastforce simp: stripPath_def cstr_def intro!: stripPath_loop_nosep)

lemma stripPath_dir:
  assumes "NUL \<notin> set p" "is_sep c" "\<forall>d \<in> set f. \<not> is_sep d"
  shows "stripPath (Some (p @ c # f)) = Some f"
  using stripPath_nosep [OF assms(3)] stripPath_loop_append [OF assms(1,2)]
  by (simp add: stripPath_def)

text \<open>
  A path is stored as its directory and its file name: everything before the last
  separator goes to the path array, everything behind it to the name array, each
  terminated and cut to its capacity; a bare file name leaves the path empty.
\<close>

lemma copy_path_splits:
  assumes "4 \<le> n2" "4 \<le> n3" "NUL \<notin> set p" "NUL \<notin> set f" "is_sep c"
    "\<forall>d \<in> set f. \<not> is_sep d"
  shows "cstr (fst (copy_path (Some (p @ c # f)) n2 n3)) = clipped f n2
    \<and> cstr (snd (copy_path (Some (p @ c # f)) n2 n3)) = clipped p n3
    \<and> cstr (fst (copy_path (Some f) n2 n3)) = clipped f n2
    \<and> snd (copy_path (Some f) n2 n3) = replicate n3 NUL"
proof -
  have c: "c \<noteq> NUL" using assms(5) by (auto simp: is_sep_def)
  have full: "cstr (p @ c # f) = p @ c # f"
    using assms(3,4) c by (intro cstr_eq_self) auto
  have "cstr (copy_n (p @ c # f) (length p) n3) = clipped (take (length p) (p @ c # f)) n3"
    using full assms(2) by (intro copy_n_cstr) simp_all
  then show ?thesis
    using assms copy_ptr_secure(3) [OF assms(1), of f]
    by (simp add: copy_path_def stripPath_dir stripPath_nosep cstr_eq_self Let_def)
qed

end
