(* ===== verification/Number_Text.thy ===== *)
theory Number_Text
  imports Prelude
begin

text \<open>
  The parts of the C library that the printing and the parsing of stack traces use: the
  conversions \<open>%i\<close>, \<open>%u\<close>, \<open>%0*llx\<close>, \<open>%lx\<close> and \<open>%*s\<close> of \<open>sprintf\<close>, and \<open>strtol\<close>, \<open>atoi\<close>
  and \<open>std::stoi\<close>.
\<close>

section \<open>Digits\<close>

definition digit_char :: "nat \<Rightarrow> char" where
  "digit_char d = (if d < 10 then char_of (48 + d) else char_of (87 + d))"

definition digit_val :: "nat \<Rightarrow> char \<Rightarrow> nat option" where
  "digit_val base c =
     (let v = (of_char c :: nat);
          d = (if 48 \<le> v \<and> v \<le> 57 then v - 48
               else if 97 \<le> v \<and> v \<le> 122 then v - 87
               else if 65 \<le> v \<and> v \<le> 90 then v - 55
               else 36)
      in if d < base then Some d else None)"

fun num_str :: "nat \<Rightarrow> nat \<Rightarrow> cstring" where
  "num_str base n =
     (if n < base \<or> base < 2 then [digit_char n]
      else num_str base (n div base) @ [digit_char (n mod base)])"

declare num_str.simps [simp del]

abbreviation dec_str :: "nat \<Rightarrow> cstring" where
  "dec_str \<equiv> num_str 10"

abbreviation hex_str :: "nat \<Rightarrow> cstring" where
  "hex_str \<equiv> num_str 16"

lemma of_char_digit_char: "d < 36 \<Longrightarrow> (of_char (digit_char d) :: nat) = (if d < 10 then 48 + d else 87 + d)"
  by (simp add: digit_char_def)

lemma digit_val_digit_char: "d < base \<Longrightarrow> base \<le> 36 \<Longrightarrow> digit_val base (digit_char d) = Some d"
  by (simp add: digit_val_def of_char_digit_char Let_def)

lemma digit_char_0: "digit_char 0 = CHR ''0''"
  unfolding digit_char_def by code_simp

text \<open>Which characters the conversions write.\<close>

definition is_digit :: "nat \<Rightarrow> char \<Rightarrow> bool" where
  "is_digit base c = (digit_val base c \<noteq> None)"

lemma num_str_digits:
  assumes "2 \<le> base" "base \<le> 36"
  shows "\<forall>c \<in> set (num_str base n). is_digit base c"
  using assms
proof (induction base n rule: num_str.induct)
  case (1 base n)
  show ?case
  proof (cases "n < base")
    case True
    with 1(2,3) show ?thesis
      by (subst num_str.simps) (simp add: is_digit_def digit_val_digit_char)
  next
    case False
    with 1 show ?thesis
      by (subst num_str.simps) (simp add: is_digit_def digit_val_digit_char)
  qed
qed

lemma num_str_nonempty [simp]: "num_str base n \<noteq> []"
  by (subst num_str.simps) simp

lemma length_num_str: "2 \<le> base \<Longrightarrow> n < base ^ Suc k \<Longrightarrow> length (num_str base n) \<le> Suc k"
proof (induction k arbitrary: n)
  case 0
  then show ?case by (simp add: num_str.simps [of base n])
next
  case (Suc k)
  show ?case
  proof (cases "n < base")
    case True
    then show ?thesis by (simp add: num_str.simps [of base n])
  next
    case False
    have "n div base < base ^ Suc k"
      using Suc.prems by (intro less_mult_imp_div_less) (simp add: mult.commute)
    with Suc False show ?thesis by (simp add: num_str.simps [of base n])
  qed
qed

lemma digit_chars_plain:
  assumes "is_digit base c" "base \<le> 16"
  shows "c \<noteq> NUL" "c \<noteq> CHR '' ''" "c \<noteq> CHR '':''" "c \<noteq> CHR ''x''" "c \<noteq> CHR ''[''" "c \<noteq> CHR '']''"
    "c \<noteq> CHR ''X''" "c \<noteq> CHR ''-''" "c \<noteq> CHR ''+''" "c \<noteq> CHR 0x0A"
  using assms by (auto simp: is_digit_def digit_val_def Let_def split: if_splits)

section \<open>Reading digits\<close>

fun read_digits :: "nat \<Rightarrow> nat \<Rightarrow> cstring \<Rightarrow> nat \<times> cstring" where
  "read_digits base acc [] = (acc, [])"
| "read_digits base acc (c # s) =
     (case digit_val base c of
        None \<Rightarrow> (acc, c # s)
      | Some d \<Rightarrow> read_digits base (acc * base + d) s)"

definition stops :: "nat \<Rightarrow> cstring \<Rightarrow> bool" where
  "stops base s = (case s of [] \<Rightarrow> True | c # _ \<Rightarrow> \<not> is_digit base c)"

lemma read_digits_stops: "stops base s \<Longrightarrow> read_digits base acc s = (acc, s)"
  by (cases s) (auto simp: stops_def is_digit_def)

lemma read_digits_append:
  "\<forall>c \<in> set u. is_digit base c \<Longrightarrow>
   read_digits base acc (u @ s) = read_digits base (fst (read_digits base acc u)) s"
  by (induction base acc u rule: read_digits.induct) (auto simp: is_digit_def)

lemma read_digits_num_str_0:
  assumes "2 \<le> base" "base \<le> 36"
  shows "fst (read_digits base 0 (num_str base n)) = n"
  using assms
proof (induction base n rule: num_str.induct)
  case (1 base n)
  show ?case
  proof (cases "n < base")
    case True
    with 1(2,3) show ?thesis by (subst num_str.simps) (simp add: digit_val_digit_char)
  next
    case False
    have d: "\<forall>c \<in> set (num_str base (n div base)). is_digit base c"
      using num_str_digits [OF 1(2,3)] .
    have "fst (read_digits base 0 (num_str base (n div base))) = n div base"
      using 1 False by simp
    then show ?thesis using False 1(2,3)
      by (subst num_str.simps) (simp add: read_digits_append [OF d] digit_val_digit_char)
  qed
qed

lemma read_digits_zeros:
  "2 \<le> base \<Longrightarrow> read_digits base 0 (replicate k (CHR ''0'') @ s) = read_digits base 0 s"
  by (induction k) (auto simp: digit_val_def)

lemma read_digits_num_str:
  assumes "2 \<le> base" "base \<le> 36" "stops base s"
  shows "read_digits base 0 (num_str base n @ s) = (n, s)"
  using read_digits_append [OF num_str_digits [OF assms(1,2)]] read_digits_stops [OF assms(3)]
    read_digits_num_str_0 [OF assms(1,2)] by simp

section \<open>strtol, atoi and stoi\<close>

definition is_space :: "char \<Rightarrow> bool" where
  "is_space c = (let v = (of_char c :: nat) in v = 32 \<or> (9 \<le> v \<and> v \<le> 13))"

definition LONG_MAX :: int where
  "LONG_MAX = 9223372036854775807"

text \<open>The sign, the optional prefix of base 16, then the digits; the result saturates.\<close>

definition read_sign :: "cstring \<Rightarrow> bool \<times> cstring" where
  "read_sign s =
     (case s of
        [] \<Rightarrow> (False, [])
      | c # cs \<Rightarrow> if c = CHR ''-'' then (True, cs) else if c = CHR ''+'' then (False, cs) else (False, s))"

definition skip_0x :: "nat \<Rightarrow> cstring \<Rightarrow> cstring" where
  "skip_0x base s =
     (case s of
        a # b # c # cs \<Rightarrow>
          if base = 16 \<and> a = CHR ''0'' \<and> (b = CHR ''x'' \<or> b = CHR ''X'') \<and> is_digit 16 c
          then c # cs else s
      | _ \<Rightarrow> s)"

definition clamp_long :: "int \<Rightarrow> int" where
  "clamp_long v = max (- LONG_MAX - 1) (min LONG_MAX v)"

definition strtol_val :: "nat \<Rightarrow> cstring \<Rightarrow> int" where
  "strtol_val base s =
     (let (neg, s1) = read_sign (dropWhile is_space s);
          v = int (fst (read_digits base 0 (skip_0x base s1)))
      in if neg then - v else v)"

definition strtol :: "cstring \<Rightarrow> nat \<Rightarrow> int" where
  "strtol s base = clamp_long (strtol_val base s)"

text \<open>\<open>atoi\<close> is \<open>(int) strtol( s, nullptr, 10 )\<close>.\<close>

definition atoi :: "cstring \<Rightarrow> int" where
  "atoi s = signed_take_bit 31 (strtol s 10)"

text \<open>\<open>std::stoi\<close> throws when there is no digit or the value does not fit an \<open>int\<close>.\<close>

definition stoi :: "cstring \<Rightarrow> int result" where
  "stoi s =
     (let s1 = snd (read_sign (dropWhile is_space s)); v = strtol_val 10 s
      in if stops 10 s1 then Inl InvalidArgument
         else if v < - 2147483648 \<or> 2147483647 < v then Inl OutOfRange
         else Inr v)"

lemma not_space_digit: "is_digit base c \<Longrightarrow> base \<le> 16 \<Longrightarrow> \<not> is_space c"
  by (auto simp: is_digit_def digit_val_def is_space_def Let_def split: if_splits)

lemma read_sign_digit:
  assumes "is_digit base c" "base \<le> 16"
  shows "read_sign (dropWhile is_space (c # s)) = (False, c # s)"
  using digit_chars_plain [OF assms] not_space_digit [OF assms] by (simp add: read_sign_def)

lemma skip_0x_digits:
  assumes "\<forall>c \<in> set u. is_digit 16 c"
  shows "skip_0x base u = u"
proof (cases "\<exists>a b c cs. u = a # b # c # cs")
  case True
  then obtain a b c cs where u: "u = a # b # c # cs" by blast
  with assms have "is_digit 16 b" by simp
  with u show ?thesis by (simp add: skip_0x_def digit_chars_plain [OF _ order_refl])
next
  case False
  then show ?thesis by (auto simp: skip_0x_def split: list.split)
qed

lemma skip_0x_base10 [simp]: "skip_0x 10 u = u"
  by (auto simp: skip_0x_def split: list.split)

lemma strtol_val_num_str_10:
  assumes "stops 10 s"
  shows "strtol_val 10 (dec_str n @ s) = int n"
proof -
  obtain c u where u: "dec_str n = c # u" by (cases "dec_str n") auto
  with num_str_digits [of 10 n] have c: "is_digit 10 c" by simp
  have r: "read_digits 10 0 (dec_str n @ s) = (n, s)"
    using assms by (intro read_digits_num_str) simp_all
  show ?thesis
    using read_sign_digit [OF c, of "u @ s"] r u by (simp add: strtol_val_def)
qed

text \<open>
  Zero-padded hexadecimal digits read back as the number, up to the saturation of \<open>strtol\<close>.
\<close>

lemma strtol_hex:
  "strtol (replicate k (CHR ''0'') @ hex_str n) 16 = min LONG_MAX (int n)"
proof -
  let ?u = "replicate k (CHR ''0'') @ hex_str n"
  have zero: "is_digit 16 (CHR ''0'')" by (simp add: is_digit_def digit_val_def)
  have d: "\<forall>c \<in> set ?u. is_digit 16 c"
    using num_str_digits [of 16 n] zero by auto
  obtain c v where u: "?u = c # v" by (cases ?u) auto
  then have c: "is_digit 16 c" using d by simp
  have "fst (read_digits 16 0 ?u) = n"
    by (simp add: read_digits_zeros read_digits_num_str_0)
  then have "strtol_val 16 ?u = int n"
    unfolding strtol_val_def u read_sign_digit [OF c order_refl] Let_def prod.case if_False
    using skip_0x_digits [of ?u] d u by simp
  then show ?thesis by (simp add: strtol_def clamp_long_def LONG_MAX_def)
qed

lemma atoi_dec:
  assumes "stops 10 s" "n < 2147483648"
  shows "atoi (dec_str n @ s) = int n"
proof -
  have lo: "- (2 ^ 31) \<le> int n" and hi: "int n < 2 ^ 31" using assms(2) by simp_all
  have "strtol (dec_str n @ s) 10 = int n"
    using assms strtol_val_num_str_10 [OF assms(1), of n]
    by (simp add: strtol_def clamp_long_def LONG_MAX_def)
  then show ?thesis
    unfolding atoi_def using signed_take_bit_int_eq_self [OF lo hi] by simp
qed

lemma stoi_dec:
  assumes "stops 10 s" "n < 2147483648"
  shows "stoi (dec_str n @ s) = Inr (int n)"
proof -
  obtain c u where u: "dec_str n = c # u" by (cases "dec_str n") auto
  with num_str_digits [of 10 n] have c: "is_digit 10 c" by simp
  have "\<not> stops 10 (c # u @ s)" using c by (simp add: stops_def)
  then show ?thesis
    using read_sign_digit [OF c, of "u @ s"] strtol_val_num_str_10 [OF assms(1), of n] assms(2) u
    by (simp add: stoi_def)
qed

section \<open>sprintf\<close>

definition int_str :: "int \<Rightarrow> cstring" where
  "int_str i = (if i < 0 then CHR ''-'' # dec_str (nat (- i)) else dec_str (nat i))"

text \<open>
  \<open>%{w}s\<close> and \<open>%0{w}llx\<close> with the width printed into the format: a negative width reads as the
  flag \<open>-\<close>, which left-justifies and cancels the padding with zeros.
\<close>

definition pad_str :: "char \<Rightarrow> int \<Rightarrow> cstring \<Rightarrow> cstring" where
  "pad_str c w s =
     (if 0 \<le> w then replicate (nat w - length s) c @ s
      else s @ replicate (nat (- w) - length s) (CHR '' ''))"

definition fmt_s :: "int \<Rightarrow> cstring \<Rightarrow> cstring" where
  "fmt_s w s = pad_str (CHR '' '') w s"

definition fmt_0x :: "int \<Rightarrow> nat \<Rightarrow> cstring" where
  "fmt_0x w n = pad_str (CHR ''0'') w (hex_str n)"

lemma length_pad_str [simp]: "length (pad_str c w s) = max (nat \<bar>w\<bar>) (length s)"
  by (auto simp: pad_str_def)

end
