(* ===== verification/Byte_Codec.thy ===== *)
theory Byte_Codec
  imports Prelude
begin

text \<open>
  The serialisation interface behind the \<open>pack\<close> and \<open>unpack\<close> members: little-endian integers
  as \<open>memcpy\<close> stores them on the supported platforms, and the locale \<open>codec\<close>, the
  contract between an object that packs itself to a byte array and the one that reads it back.
\<close>

section \<open>Little-endian integers\<close>

fun le_bytes :: "nat \<Rightarrow> nat \<Rightarrow> char list" where
  "le_bytes 0 v = []"
| "le_bytes (Suc n) v = char_of v # le_bytes n (v div 256)"

fun le_val :: "char list \<Rightarrow> nat" where
  "le_val [] = 0"
| "le_val (c # cs) = of_char c + 256 * le_val cs"

lemma length_le_bytes [simp]: "length (le_bytes n v) = n"
  by (induction n v rule: le_bytes.induct) auto

lemma le_val_le_bytes: "le_val (le_bytes n v) = v mod 256 ^ n"
proof (induction n v rule: le_bytes.induct)
  case (2 n v)
  have "v mod (256 * 256 ^ n) = 256 * (v div 256 mod 256 ^ n) + v mod 256"
    by (rule mod_mult2_eq)
  with 2 show ?case by simp
qed simp

lemma le_val_small: "v < 256 ^ n \<Longrightarrow> le_val (le_bytes n v) = v"
  by (simp add: le_val_le_bytes)

lemma take_append_exact [simp]: "length xs = n \<Longrightarrow> take n (xs @ ys) = xs"
  by simp

lemma drop_append_exact [simp]: "length xs = n \<Longrightarrow> drop n (xs @ ys) = ys"
  by simp

text \<open>A 32-bit \<open>int\<close> in two's complement; reading needs four bytes.\<close>

definition pack_int :: "int \<Rightarrow> char list" where
  "pack_int i = le_bytes 4 (nat (i mod 4294967296))"

definition unpack_int :: "char list \<Rightarrow> (int \<times> char list) result" where
  "unpack_int bs =
     (if length bs < 4 then Inl OutOfBounds
      else let v = int (le_val (take 4 bs))
           in Inr (if v < 2147483648 then v else v - 4294967296, drop 4 bs))"

definition int_range :: "int \<Rightarrow> bool" where
  "int_range i \<longleftrightarrow> - 2147483648 \<le> i \<and> i \<le> 2147483647"

lemma length_pack_int [simp]: "length (pack_int i) = 4"
  by (simp add: pack_int_def)

lemma unpack_pack_int:
  assumes "int_range i"
  shows "unpack_int (pack_int i @ rest) = Inr (i, rest)"
proof -
  have lt: "nat (i mod 4294967296) < 256 ^ 4"
    by (simp add: nat_less_iff)
  have v: "int (le_val (take 4 (pack_int i @ rest))) = i mod 4294967296"
    using le_val_small [OF lt] by (simp add: pack_int_def)
  have "(if i mod 4294967296 < 2147483648 then i mod 4294967296
         else i mod 4294967296 - 4294967296) = i"
  proof (cases "0 \<le> i")
    case True
    with assms show ?thesis by (simp add: int_range_def)
  next
    case False
    then have "i mod 4294967296 = (i + 4294967296) mod 4294967296" by simp
    also have "\<dots> = i + 4294967296"
      using assms False by (intro mod_pos_pos_trivial) (simp_all add: int_range_def)
    finally show ?thesis using assms False by (simp add: int_range_def)
  qed
  then show ?thesis
    unfolding unpack_int_def Let_def v by simp
qed

section \<open>The codec contract\<close>

text \<open>Reading \<open>n\<close> consecutive objects; a negative count never reaches this function.\<close>

fun dec_seq :: "(char list \<Rightarrow> ('a \<times> char list) result) \<Rightarrow> nat \<Rightarrow> char list \<Rightarrow> ('a list \<times> char list) result" where
  "dec_seq dec 0 bs = Inr ([], bs)"
| "dec_seq dec (Suc n) bs =
     bindR (dec bs) (\<lambda>(x, bs1). bindR (dec_seq dec n bs1) (\<lambda>(xs, bs2). Inr (x # xs, bs2)))"

locale codec =
  fixes enc :: "'a \<Rightarrow> char list"
    and dec :: "char list \<Rightarrow> ('a \<times> char list) result"
    and valid :: "'a \<Rightarrow> bool"
    and bytes :: "'a \<Rightarrow> nat"
  assumes dec_enc: "valid x \<Longrightarrow> dec (enc x @ rest) = Inr (x, rest)"
    and length_enc: "valid x \<Longrightarrow> length (enc x) = bytes x"
begin

lemma dec_exact: "valid x \<Longrightarrow> dec (enc x) = Inr (x, [])"
  using dec_enc [of x "[]"] by simp

lemma enc_injective: "valid x \<Longrightarrow> valid y \<Longrightarrow> enc x = enc y \<Longrightarrow> x = y"
  by (metis dec_exact sum.inject(2) prod.inject)

lemma seq_roundtrip:
  assumes "\<forall>x \<in> set xs. valid x"
  shows "dec_seq dec (length xs) (concat (map enc xs) @ rest) = Inr (xs, rest)"
  using assms
proof (induction xs)
  case Nil
  show ?case by simp
next
  case (Cons x xs)
  then have "dec (enc x @ concat (map enc xs) @ rest) = Inr (x, concat (map enc xs) @ rest)"
    and "dec_seq dec (length xs) (concat (map enc xs) @ rest) = Inr (xs, rest)"
    using dec_enc by simp_all
  then show ?case by simp
qed

lemma seq_length:
  "\<forall>x \<in> set xs. valid x \<Longrightarrow> length (concat (map enc xs)) = sum_list (map bytes xs)"
  by (induction xs) (auto simp: length_enc)

end

interpretation int_codec: codec pack_int unpack_int int_range "\<lambda>_. 4"
  by unfold_locales (auto simp: unpack_pack_int)

text \<open>A decoder that only moves forward keeps the sequence decoder within the buffer.\<close>

lemma dec_seq_length:
  assumes "\<And>bs x bs'. dec bs = Inr (x, bs') \<Longrightarrow> length bs' \<le> length bs"
    and "dec_seq dec n bs = Inr (xs, bs')"
  shows "length bs' \<le> length bs \<and> length xs = n"
  using assms(2)
proof (induction n arbitrary: bs xs bs')
  case (Suc n)
  then obtain x bs1 xs1 where "dec bs = Inr (x, bs1)" "dec_seq dec n bs1 = Inr (xs1, bs')" "xs = x # xs1"
    by (auto simp: bindR_Inr_iff split: prod.splits)
  with Suc.IH [of bs1 xs1 bs'] assms(1) show ?case by fastforce
qed simp

end
