(* ===== verification/Stack_Info.thy ===== *)
theory Stack_Info
  imports CStrings Number_Text Byte_Codec
begin

text \<open>
  \<open>StackTrace::stack_info\<close>: one frame of a call stack, with its comparison, its printing and
  its serialisation.
\<close>

section \<open>The structure\<close>

record stack_info =
  si_line :: "32 word"
  si_address :: "64 word"
  si_address2 :: "64 word"
  si_object :: cstring
  si_objectPath :: cstring
  si_filename :: cstring
  si_filenamePath :: cstring
  si_function :: cstring

text \<open>The constructor calls \<open>clear\<close>.\<close>

definition stack_info_clear :: stack_info where
  "stack_info_clear =
     \<lparr>si_line = 0, si_address = 0, si_address2 = 0,
      si_object = replicate 56 NUL, si_objectPath = replicate 48 NUL,
      si_filename = replicate 64 NUL, si_filenamePath = replicate 64 NUL,
      si_function = replicate 256 NUL\<rparr>"

text \<open>The sizes of the arrays, and a terminator in each of them.\<close>

definition wf_sizes :: "stack_info \<Rightarrow> bool" where
  "wf_sizes s \<longleftrightarrow> length (si_object s) = 56 \<and> length (si_objectPath s) = 48 \<and>
     length (si_filename s) = 64 \<and> length (si_filenamePath s) = 64 \<and> length (si_function s) = 256"

definition wf_info :: "stack_info \<Rightarrow> bool" where
  "wf_info s \<longleftrightarrow> wf_sizes s \<and> terminated (si_object s) \<and> terminated (si_objectPath s) \<and>
     terminated (si_filename s) \<and> terminated (si_filenamePath s) \<and> terminated (si_function s)"

lemma wf_sizes_clear [simp]: "wf_sizes stack_info_clear"
  by (simp add: wf_sizes_def stack_info_clear_def)

lemma wf_info_clear [simp]: "wf_info stack_info_clear"
  by (simp add: wf_info_def terminated_def) (simp add: stack_info_clear_def)

section \<open>Comparison\<close>

definition stack_eq :: "stack_info \<Rightarrow> stack_info \<Rightarrow> bool" where
  "stack_eq a rhs =
     (if si_address a = si_address rhs then True
      else if si_address2 a = si_address2 rhs \<and> si_object a = si_object rhs then True
      else False)"

definition stack_neq :: "stack_info \<Rightarrow> stack_info \<Rightarrow> bool" where
  "stack_neq a rhs = (\<not> stack_eq a rhs)"

lemma stack_eq_refl [simp]: "stack_eq a a"
  by (simp add: stack_eq_def)

lemma stack_eq_sym: "stack_eq a b \<longleftrightarrow> stack_eq b a"
  by (auto simp: stack_eq_def)

lemma stack_eq_address: "si_address a = si_address b \<Longrightarrow> stack_eq a b"
  by (simp add: stack_eq_def)

text \<open>
  The interface of the code that groups frames: on the frames it is used with, the comparison
  is an equivalence.
\<close>

locale frame_comparison =
  fixes same :: "'f \<Rightarrow> 'f \<Rightarrow> bool"
    and frames :: "'f set"
  assumes same_refl: "a \<in> frames \<Longrightarrow> same a a"
    and same_sym: "a \<in> frames \<Longrightarrow> b \<in> frames \<Longrightarrow> same a b \<Longrightarrow> same b a"
    and same_trans: "a \<in> frames \<Longrightarrow> b \<in> frames \<Longrightarrow> c \<in> frames \<Longrightarrow> same a b \<Longrightarrow> same b c \<Longrightarrow> same a c"
begin

lemma same_right: "a \<in> frames \<Longrightarrow> b \<in> frames \<Longrightarrow> c \<in> frames \<Longrightarrow> same b c \<Longrightarrow> same a b \<longleftrightarrow> same a c"
  by (blast intro: same_trans same_sym)

lemma same_left: "a \<in> frames \<Longrightarrow> b \<in> frames \<Longrightarrow> c \<in> frames \<Longrightarrow> same a b \<Longrightarrow> same a c \<longleftrightarrow> same b c"
  by (blast intro: same_trans same_sym)

end

text \<open>
  Frames whose relative address and object determine the absolute address: those of
  \<open>parseLine\<close>, which stores the same number in both, are of this kind.
\<close>

definition addressed_frames :: "stack_info set" where
  "addressed_frames = {s. si_address2 s = si_address s}"

lemma stack_eq_addressed:
  "a \<in> addressed_frames \<Longrightarrow> b \<in> addressed_frames \<Longrightarrow> stack_eq a b \<longleftrightarrow> si_address a = si_address b"
  by (auto simp: addressed_frames_def stack_eq_def)

interpretation addressed: frame_comparison stack_eq addressed_frames
  by unfold_locales (auto simp: stack_eq_addressed)

section \<open>Printing\<close>

definition getAddressWidth :: "stack_info \<Rightarrow> int" where
  "getAddressWidth s =
     (let addr = unat (si_address s)
      in if addr \<le> 0xFFFF then 4
         else if addr \<le> 0xFFFFFFFF then 8
         else if addr \<le> 0xFFFFFFFFFFFF then 12
         else 16)"

text \<open>The text \<open>print2\<close> writes; it returns the number of its characters.\<close>

definition print2_tail :: "stack_info \<Rightarrow> cstring" where
  "print2_tail s =
     (if si_filename s ! 0 \<noteq> NUL \<and> si_line s \<noteq> 0
      then ''  '' @ basename (si_filename s) @ '':'' @ dec_str (unat (si_line s))
      else if si_filename s ! 0 \<noteq> NUL then ''  '' @ basename (si_filename s)
      else if si_line s \<noteq> 0 then '' : '' @ dec_str (unat (si_line s))
      else [])"

definition print2 :: "stack_info \<Rightarrow> int \<Rightarrow> int \<Rightarrow> int \<Rightarrow> cstring" where
  "print2 s w1 w2 w3 =
     ''0x'' @ fmt_0x w1 (unat (si_address s)) @ '':  '' @
     fmt_s w2 (basename (si_object s)) @ ''  '' @ fmt_s w3 (cstr (si_function s)) @
     print2_tail s"

text \<open>\<open>print\<close> formats into a buffer of \<open>32 + sizeof( stack_info )\<close> characters.\<close>

definition stack_info_print :: "stack_info \<Rightarrow> int \<Rightarrow> int \<Rightarrow> int \<Rightarrow> cstring result" where
  "stack_info_print s w1 w2 w3 =
     (let out = print2 s w1 w2 w3 in if length out < 544 then Inr out else Inl OutOfBounds)"

text \<open>Printing a whole stack to a stream: what is written, line by line.\<close>

fun stack_print_lines :: "stack_info list \<Rightarrow> cstring \<Rightarrow> cstring list result" where
  "stack_print_lines [] pre = Inr []"
| "stack_print_lines (s # ss) pre =
     bindR (stack_info_print s 16 20 32)
       (\<lambda>buf. bindR (stack_print_lines ss pre) (\<lambda>rest. Inr ((pre @ buf) # rest)))"

lemma length_stripPath_loop_le:
  "length f \<le> n \<Longrightarrow> length s \<le> n \<Longrightarrow> length (cstr (stripPath_loop s f)) \<le> n"
  by (induction s f rule: stripPath_loop.induct) (auto intro: order_trans [OF length_cstr_le])

lemma terminated_stripPath_loop:
  "terminated s \<Longrightarrow> terminated f \<Longrightarrow> terminated (stripPath_loop s f)"
  by (induction s f rule: stripPath_loop.induct) (auto simp: terminated_def is_sep_def)

lemma length_raw_stripPath_loop: "length f \<le> n \<Longrightarrow> length s \<le> n \<Longrightarrow> length (stripPath_loop s f) \<le> n"
  by (induction s f rule: stripPath_loop.induct) auto

lemma length_basename: "terminated s \<Longrightarrow> length (basename s) < length s"
  using length_cstr_less [OF terminated_stripPath_loop [of s s]]
    length_raw_stripPath_loop [of s "length s" s]
  by (fastforce simp: basename_def)

lemma length_dec_line: "length (dec_str (unat (l :: 32 word))) \<le> 10"
proof -
  have "unat l < 2 ^ 32" using unsigned_less [of l] by simp
  then have "unat l < 10 ^ Suc 9" by simp
  then show ?thesis using length_num_str [of 10 "unat l" 9] by simp
qed

lemma length_hex_address: "length (hex_str (unat (a :: 64 word))) \<le> 16"
proof -
  have "unat a < 2 ^ 64" using unsigned_less [of a] by simp
  then have "unat a < 16 ^ Suc 15" by simp
  then show ?thesis using length_num_str [of 16 "unat a" 15] by simp
qed

lemma length_print2_tail:
  assumes "wf_info s"
  shows "length (print2_tail s) \<le> 76"
proof -
  have "length (basename (si_filename s)) < 64"
    using length_basename [of "si_filename s"] assms by (simp add: wf_info_def wf_sizes_def)
  with length_dec_line [of "si_line s"] show ?thesis
    by (auto simp: print2_tail_def)
qed

lemma length_print2:
  assumes "wf_info s" "\<bar>w1\<bar> \<le> 16" "\<bar>w2\<bar> \<le> 55" "\<bar>w3\<bar> \<le> 255"
  shows "length (print2 s w1 w2 w3) \<le> 409"
proof -
  have "length (basename (si_object s)) < 56" "length (cstr (si_function s)) < 256"
    using assms(1) length_basename [of "si_object s"] length_cstr_less [of "si_function s"]
    by (simp_all add: wf_info_def wf_sizes_def)
  then have "max (nat \<bar>w1\<bar>) (length (hex_str (unat (si_address s)))) \<le> 16"
    "max (nat \<bar>w2\<bar>) (length (basename (si_object s))) \<le> 55"
    "max (nat \<bar>w3\<bar>) (length (cstr (si_function s))) \<le> 255"
    using length_hex_address [of "si_address s"] assms(2-4) by simp_all
  with length_print2_tail [OF assms(1)] show ?thesis
    by (simp add: print2_def fmt_0x_def fmt_s_def del: max.bounded_iff)
qed

text \<open>
  Printing a frame whose fields are terminated never overruns the local buffer of
  544 characters, for every width up to the size of its field: the default widths and those of
  the multi-stack printer.
\<close>

lemma print_fits_buffer:
  assumes "wf_info s" "\<bar>w1\<bar> \<le> 16" "\<bar>w2\<bar> \<le> 55" "\<bar>w3\<bar> \<le> 255"
  shows "stack_info_print s w1 w2 w3 = Inr (print2 s w1 w2 w3)
    \<and> length (print2 s w1 w2 w3) \<le> 409"
  using length_print2 [OF assms] by (simp add: stack_info_print_def Let_def)

text \<open>
  The comparison of frames is reflexive and symmetric but not transitive: a frame
  can equal a second one by absolute address and that one a third by object and offset. It is an
  equivalence, and compares absolute addresses, on frames whose two addresses agree.
\<close>

lemma stack_eq_not_equivalence:
  "reflp stack_eq \<and> symp stack_eq \<and> \<not> transp stack_eq
    \<and> {(a, b). a \<in> addressed_frames \<and> b \<in> addressed_frames \<and> stack_eq a b}
      = {(a, b). a \<in> addressed_frames \<and> b \<in> addressed_frames \<and> si_address a = si_address b}"
proof -
  let ?z = stack_info_clear
  let ?a = "?z\<lparr>si_address := 1, si_address2 := 5\<rparr>" and ?b = "?z\<lparr>si_address := 1, si_address2 := 6\<rparr>"
  let ?c = "?z\<lparr>si_address := 2, si_address2 := 6\<rparr>"
  have "stack_eq ?a ?b" "stack_eq ?b ?c" "\<not> stack_eq ?a ?c"
    by (simp_all add: stack_eq_def)
  then have "\<not> transp stack_eq" by (blast dest: transpD)
  moreover have "reflp stack_eq" "symp stack_eq"
    by (auto intro: reflpI sympI simp: stack_eq_sym)
  ultimately show ?thesis using stack_eq_addressed by auto
qed

section \<open>Serialisation\<close>

text \<open>
  \<open>pack\<close> copies the 512 bytes of the structure. The compiler leaves four bytes of padding behind
  \<open>line\<close>; their contents are unspecified and given by the parameter \<open>pad\<close>.
\<close>

definition stack_info_size :: nat where
  "stack_info_size = 512"

definition stack_info_pack :: "(stack_info \<Rightarrow> char list) \<Rightarrow> stack_info \<Rightarrow> char list" where
  "stack_info_pack pad s =
     le_bytes 4 (unat (si_line s)) @ pad s @ le_bytes 8 (unat (si_address s)) @
     le_bytes 8 (unat (si_address2 s)) @ si_object s @ si_objectPath s @ si_filename s @
     si_filenamePath s @ si_function s"

definition stack_info_unpack :: "char list \<Rightarrow> (stack_info \<times> char list) result" where
  "stack_info_unpack bs =
     (if length bs < stack_info_size then Inl OutOfBounds
      else Inr (\<lparr>si_line = word_of_nat (le_val (take 4 bs)),
                 si_address = word_of_nat (le_val (take 8 (drop 8 bs))),
                 si_address2 = word_of_nat (le_val (take 8 (drop 16 bs))),
                 si_object = take 56 (drop 24 bs), si_objectPath = take 48 (drop 80 bs),
                 si_filename = take 64 (drop 128 bs), si_filenamePath = take 64 (drop 192 bs),
                 si_function = take 256 (drop 256 bs)\<rparr>, drop stack_info_size bs))"

definition pad_ok :: "(stack_info \<Rightarrow> char list) \<Rightarrow> bool" where
  "pad_ok pad \<longleftrightarrow> (\<forall>s. length (pad s) = 4)"

lemma length_stack_info_pack:
  "pad_ok pad \<Longrightarrow> wf_sizes s \<Longrightarrow> length (stack_info_pack pad s) = stack_info_size"
  by (simp add: stack_info_pack_def stack_info_size_def wf_sizes_def pad_ok_def)

lemma slice_skip: "length xs \<le> n \<Longrightarrow> drop n (xs @ ys) = drop (n - length xs) ys"
  by simp

lemma word_le_val_bytes:
  fixes w :: "'w::len word"
  assumes "LENGTH('w) = 8 * n"
  shows "word_of_nat (le_val (le_bytes n (unat w))) = w"
proof -
  have "unat w < 2 ^ (8 * n)" using unsigned_less [of w] assms by simp
  also have "(2::nat) ^ (8 * n) = 256 ^ n" by (simp add: power_mult)
  finally show ?thesis by (simp add: le_val_small)
qed

lemma stack_info_unpack_pack:
  assumes "pad_ok pad" "wf_sizes s"
  shows "stack_info_unpack (stack_info_pack pad s @ rest) = Inr (s, rest)"
proof -
  note sizes = assms(2) [unfolded wf_sizes_def]
  have p: "length (pad s) = 4" using assms(1) by (simp add: pad_ok_def)
  let ?bs = "stack_info_pack pad s @ rest"
  have len: "\<not> length ?bs < stack_info_size"
    using length_stack_info_pack [OF assms] by simp
  have "take 4 ?bs = le_bytes 4 (unat (si_line s))"
    "take 8 (drop 8 ?bs) = le_bytes 8 (unat (si_address s))"
    "take 8 (drop 16 ?bs) = le_bytes 8 (unat (si_address2 s))"
    "take 56 (drop 24 ?bs) = si_object s" "take 48 (drop 80 ?bs) = si_objectPath s"
    "take 64 (drop 128 ?bs) = si_filename s" "take 64 (drop 192 ?bs) = si_filenamePath s"
    "take 256 (drop 256 ?bs) = si_function s"
    using sizes p by (simp_all add: stack_info_pack_def)
  moreover have "drop stack_info_size ?bs = rest"
    using length_stack_info_pack [OF assms] by simp
  ultimately show ?thesis
    using len by (simp only: stack_info_unpack_def if_False) (simp add: word_le_val_bytes)
qed

interpretation info_codec: codec "stack_info_pack (\<lambda>_. replicate 4 NUL)" stack_info_unpack wf_sizes
    "\<lambda>_. stack_info_size"
  by unfold_locales
    (auto simp: stack_info_unpack_pack length_stack_info_pack pad_ok_def)

end
