(* ===== verification/Multi_Stack.thy ===== *)
theory Multi_Stack
  imports Stack_Info
begin

text \<open>
  \<open>StackTrace::multi_stack_info\<close>: the tree that merges the call stacks of many threads and
  processes. Its operations are the insertion of a stack, the merge of two trees, the printer with
  its fixed buffers, and the serialisation that carries a tree between processes.
\<close>

section \<open>The tree\<close>

datatype multi_stack_info =
  MSI (ms_N: int) (ms_stack: stack_info) (ms_children: "multi_stack_info list")

definition ms_empty_tree :: multi_stack_info where
  "ms_empty_tree = MSI 0 stack_info_clear []"

text \<open>\<open>clear\<close> and \<open>empty\<close>.\<close>

definition ms_clear :: "multi_stack_info \<Rightarrow> multi_stack_info" where
  "ms_clear t = MSI 0 stack_info_clear []"

definition ms_is_empty :: "multi_stack_info \<Rightarrow> bool" where
  "ms_is_empty t = (ms_N t = 0)"

section \<open>Adding a call stack\<close>

text \<open>
  \<open>add( len, stack )\<close> starts at the outermost frame \<open>stack[len-1]\<close>, looks for the first child
  with an equal frame, counts it and descends with \<open>len - 1\<close>; a new child is appended when there
  is none. The model works on the frames in the order they are consumed.
\<close>

fun ms_add_frames :: "stack_info list \<Rightarrow> multi_stack_info list \<Rightarrow> multi_stack_info list" where
  "ms_add_frames [] cs = cs"
| "ms_add_frames (s # rest) [] = [MSI 1 s (ms_add_frames rest [])]"
| "ms_add_frames (s # rest) (i # is) =
     (if stack_eq (ms_stack i) s
      then MSI (ms_N i + 1) (ms_stack i) (ms_add_frames rest (ms_children i)) # is
      else i # ms_add_frames (s # rest) is)"

definition ms_add :: "nat \<Rightarrow> stack_info list \<Rightarrow> multi_stack_info \<Rightarrow> multi_stack_info" where
  "ms_add len stk t =
     MSI (ms_N t) (ms_stack t) (ms_add_frames (rev (take len stk)) (ms_children t))"

text \<open>\<open>operator=( const std::vector<stack_info> & )\<close>, also the constructor from a stack.\<close>

definition ms_assign :: "stack_info list \<Rightarrow> multi_stack_info" where
  "ms_assign rhs =
     (case rhs of
        [] \<Rightarrow> ms_empty_tree
      | r0 # rest \<Rightarrow>
          (if 1 < length rhs then ms_add (length rhs - 1) rest (MSI 1 r0 [])
           else MSI 1 r0 []))"

section \<open>Merging two trees\<close>

text \<open>
  \<open>add( rhs )\<close>: every child of \<open>rhs\<close> is merged into each child with an equal frame, and appended
  when there is none.
\<close>

fun ms_merge :: "multi_stack_info \<Rightarrow> multi_stack_info \<Rightarrow> multi_stack_info"
  and ms_merge_children :: "multi_stack_info list \<Rightarrow> multi_stack_info list \<Rightarrow> multi_stack_info list" where
  "ms_merge t (MSI n s rcs) = MSI (ms_N t + n) (ms_stack t) (ms_merge_children (ms_children t) rcs)"
| "ms_merge_children cs [] = cs"
| "ms_merge_children cs (x # xs) =
     ms_merge_children
       (if \<exists>tmp \<in> set cs. stack_eq (ms_stack tmp) (ms_stack x)
        then map (\<lambda>tmp. if stack_eq (ms_stack tmp) (ms_stack x) then ms_merge tmp x else tmp) cs
        else cs @ [x]) xs"

section \<open>Printing\<close>

fun ms_getAddressWidth :: "multi_stack_info \<Rightarrow> int" where
  "ms_getAddressWidth (MSI n s cs) = foldl max (getAddressWidth s) (map ms_getAddressWidth cs)"

text \<open>\<open>stack.object.size()\<close> is the size of the array, not the length of the name in it.\<close>

fun ms_getObjectWidth :: "multi_stack_info \<Rightarrow> int" where
  "ms_getObjectWidth (MSI n s cs) =
     foldl max (min (int (length (si_object s)) + 1) 20) (map ms_getObjectWidth cs)"

fun ms_getFunctionWidth :: "multi_stack_info \<Rightarrow> int" where
  "ms_getFunctionWidth (MSI n s cs) =
     foldl max (min (int (length (si_function s)) + 1) 40) (map ms_getFunctionWidth cs)"

text \<open>
  \<open>print2( Np, prefix, w, c, fun )\<close>: \<open>pre\<close> is the text in \<open>prefix[0..Np)\<close>. The prefix buffer has
  1024 characters, of which a printed node writes \<open>prefix[Np]\<close> and \<open>prefix[Np+1]\<close>; the line buffer
  has 4096.
\<close>

definition ms_line :: "cstring \<Rightarrow> int \<times> int \<times> int \<Rightarrow> multi_stack_info \<Rightarrow> cstring" where
  "ms_line pre w t =
     (case w of (w0, w1, w2) \<Rightarrow>
        pre @ ''['' @ int_str (ms_N t) @ ''] '' @ print2 (ms_stack t) w0 w1 w2)"

fun ms_print2 :: "cstring \<Rightarrow> int \<times> int \<times> int \<Rightarrow> bool \<Rightarrow> multi_stack_info \<Rightarrow> cstring list result"
  and ms_print2_children ::
    "cstring \<Rightarrow> int \<times> int \<times> int \<Rightarrow> bool \<Rightarrow> multi_stack_info list \<Rightarrow> cstring list result" where
  "ms_print2 pre w c (MSI n s cs) =
     (if si_address s \<noteq> 0
      then if 1024 \<le> length pre + 1 \<or> 4096 \<le> length (ms_line pre w (MSI n s cs)) then Inl OutOfBounds
           else bindR (ms_print2_children (pre @ (if c then ''| '' else ''  '')) w True cs)
                  (\<lambda>rest. Inr (ms_line pre w (MSI n s cs) # rest))
      else ms_print2_children pre w False cs)"
| "ms_print2_children pre w bars [] = Inr []"
| "ms_print2_children pre w bars (x # xs) =
     bindR (ms_print2 pre w (xs \<noteq> [] \<and> bars) x)
       (\<lambda>l. bindR (ms_print2_children pre w bars xs) (\<lambda>r. Inr (l @ r)))"

definition ms_print :: "multi_stack_info \<Rightarrow> cstring \<Rightarrow> cstring list result" where
  "ms_print t pre =
     (if 1024 < length pre then Inl OutOfBounds
      else ms_print2 pre (ms_getAddressWidth t, ms_getObjectWidth t, ms_getFunctionWidth t) False t)"

definition ms_printString :: "multi_stack_info \<Rightarrow> cstring \<Rightarrow> cstring result" where
  "ms_printString t pre =
     bindR (ms_print t pre) (\<lambda>ls. Inr (concat (map (\<lambda>l. l @ [CHR 0x0A]) ls)))"

section \<open>Serialisation\<close>

fun ms_size :: "multi_stack_info \<Rightarrow> nat" where
  "ms_size (MSI n s cs) = 2 * 4 + stack_info_size + sum_list (map ms_size cs)"

fun ms_pack :: "(stack_info \<Rightarrow> char list) \<Rightarrow> multi_stack_info \<Rightarrow> char list" where
  "ms_pack pad (MSI n s cs) =
     pack_int n @ stack_info_pack pad s @ pack_int (int (length cs)) @ concat (map (ms_pack pad) cs)"

text \<open>
  \<open>unpack\<close>, by recursion on the depth of the calls. \<open>children.resize( Nc )\<close> converts a negative
  count to a huge unsigned one and throws \<open>std::length_error\<close>.
\<close>

primrec ms_unpack_fuel :: "nat \<Rightarrow> char list \<Rightarrow> (multi_stack_info \<times> char list) result" where
  "ms_unpack_fuel 0 bs = Inl OutOfFuel"
| "ms_unpack_fuel (Suc f) bs =
     bindR (unpack_int bs) (\<lambda>(n, bs1).
     bindR (stack_info_unpack bs1) (\<lambda>(s, bs2).
     bindR (unpack_int bs2) (\<lambda>(nc, bs3).
       if nc < 0 then Inl LengthError
       else bindR (dec_seq (ms_unpack_fuel f) (nat nc) bs3) (\<lambda>(cs, bs4). Inr (MSI n s cs, bs4)))))"

text \<open>Each level of recursion reads 520 bytes, so the length of the buffer is enough fuel.\<close>

definition ms_unpack :: "char list \<Rightarrow> (multi_stack_info \<times> char list) result" where
  "ms_unpack bs = ms_unpack_fuel (Suc (length bs)) bs"

fun ms_depth :: "multi_stack_info \<Rightarrow> nat" where
  "ms_depth (MSI n s cs) = Suc (foldr max (map ms_depth cs) 0)"

fun ms_valid :: "multi_stack_info \<Rightarrow> bool" where
  "ms_valid (MSI n s cs) \<longleftrightarrow>
     int_range n \<and> wf_sizes s \<and> int_range (int (length cs)) \<and> (\<forall>c \<in> set cs. ms_valid c)"

subsection \<open>The round trip\<close>

lemma le_foldr_max: "x \<in> set xs \<Longrightarrow> x \<le> foldr max xs (0 :: nat)"
  by (induction xs) auto

lemma foldr_max_le: "(\<And>x. x \<in> set xs \<Longrightarrow> x \<le> b) \<Longrightarrow> foldr max xs (0 :: nat) \<le> b"
  by (induction xs) auto

lemma ms_depth_child: "c \<in> set cs \<Longrightarrow> ms_depth c < ms_depth (MSI n s cs)"
  using le_foldr_max [of "ms_depth c" "map ms_depth cs"] by (simp add: less_Suc_eq_le)

lemma ms_depth_nonzero [simp]: "ms_depth t \<noteq> 0"
  by (cases t) simp

lemma codec_ms_unpack_fuel:
  assumes "pad_ok pad"
  shows "codec (ms_pack pad) (ms_unpack_fuel f) (\<lambda>t. ms_valid t \<and> ms_depth t \<le> f) ms_size"
proof (induction f)
  case 0
  show ?case by unfold_locales auto
next
  case (Suc f)
  show ?case
  proof
    fix t rest
    assume t: "ms_valid t \<and> ms_depth t \<le> Suc f"
    obtain n s cs where tt: "t = MSI n s cs" by (cases t)
    have cs: "\<forall>c \<in> set cs. ms_valid c \<and> ms_depth c \<le> f"
      using t ms_depth_child [of _ cs n s] by (fastforce simp: tt)
    from codec.seq_roundtrip [OF Suc this] codec.seq_length [OF Suc this]
    have kids: "dec_seq (ms_unpack_fuel f) (length cs) (concat (map (ms_pack pad) cs) @ rest) = Inr (cs, rest)"
      and len: "length (concat (map (ms_pack pad) cs)) = sum_list (map ms_size cs)"
      by simp_all
    from t have ok: "int_range n" "wf_sizes s" "int_range (int (length cs))" by (simp_all add: tt)
    show "ms_unpack_fuel (Suc f) (ms_pack pad t @ rest) = Inr (t, rest)"
      using kids by (simp add: tt unpack_pack_int ok stack_info_unpack_pack [OF assms])
    show "length (ms_pack pad t) = ms_size t"
      using len length_stack_info_pack [OF assms ok(2)] by (simp add: tt)
  qed
qed

lemma sum_list_ge_foldr_max: "foldr max (xs :: nat list) 0 \<le> sum_list xs"
  by (induction xs) auto

lemma ms_depth_le_size: "ms_depth t \<le> ms_size t"
proof (induction t rule: ms_depth.induct)
  case (1 n s cs)
  have "foldr max (map ms_depth cs) 0 \<le> sum_list (map ms_depth cs)"
    by (rule sum_list_ge_foldr_max)
  also have "\<dots> \<le> sum_list (map ms_size cs)"
    using 1 by (rule sum_list_le_pointwise)
  finally show ?case by simp
qed

lemma length_ms_pack: "pad_ok pad \<Longrightarrow> ms_valid t \<Longrightarrow> length (ms_pack pad t) = ms_size t"
  using codec.length_enc [OF codec_ms_unpack_fuel [of pad "ms_depth t"]] by simp

lemma ms_unpack_packed:
  assumes "pad_ok pad" "ms_valid t"
  shows "ms_unpack (ms_pack pad t @ rest) = Inr (t, rest)"
proof -
  let ?f = "Suc (length (ms_pack pad t @ rest))"
  have "ms_depth t \<le> ?f"
    using ms_depth_le_size [of t] length_ms_pack [OF assms] by simp
  then show ?thesis
    using codec.dec_enc [OF codec_ms_unpack_fuel [OF assms(1), of ?f], of t rest] assms(2)
    by (simp add: ms_unpack_def)
qed

text \<open>
  Property C6: the buffer of \<open>size()\<close> bytes that the monitor thread allocates is exactly what
  \<open>pack\<close> writes, and unpacking it, whatever follows in memory, gives back the tree and stops
  behind the last packed byte.
\<close>

theorem ms_pack_roundtrip:
  assumes "pad_ok pad" "ms_valid t"
  shows "length (ms_pack pad t) = ms_size t \<and> ms_unpack (ms_pack pad t @ rest) = Inr (t, rest)"
  using length_ms_pack [OF assms] ms_unpack_packed [OF assms] by blast

theorem ms_pack_roundtrip_witness:
  "let t = MSI 2 stack_info_clear [MSI 1 stack_info_clear []] in
     length (ms_pack (\<lambda>_. ''pad!'') t) = ms_size t \<and> ms_unpack (ms_pack (\<lambda>_. ''pad!'') t @ ''x'') = Inr (t, ''x'')"
  using ms_pack_roundtrip [of "\<lambda>_. ''pad!''" "MSI 2 stack_info_clear [MSI 1 stack_info_clear []]" "''x''"]
  by (simp add: pad_ok_def int_range_def Let_def)

subsection \<open>Consistent numbers\<close>

text \<open>
  In a tree that was built by adding stacks every node counts at least one stack and at least the
  stacks of its children. Such a tree can be packed as soon as the number at its root is an \<open>int\<close>.
\<close>

fun ms_consistent :: "multi_stack_info \<Rightarrow> bool" where
  "ms_consistent (MSI n s cs) \<longleftrightarrow>
     wf_sizes s \<and> sum_list (map ms_N cs) \<le> n \<and> (\<forall>c \<in> set cs. 1 \<le> ms_N c \<and> ms_consistent c)"

lemma consistent_children: "ms_consistent t \<Longrightarrow> c \<in> set (ms_children t) \<Longrightarrow> 1 \<le> ms_N c \<and> ms_consistent c"
  by (cases t) simp

lemma consistent_count:
  "\<forall>s \<in> set fs. wf_sizes s \<Longrightarrow> \<forall>c \<in> set cs. 1 \<le> ms_N c \<and> ms_consistent c \<Longrightarrow>
   (\<forall>c \<in> set (ms_add_frames fs cs). 1 \<le> ms_N c \<and> ms_consistent c)
   \<and> sum_list (map ms_N (ms_add_frames fs cs)) = sum_list (map ms_N cs) + (if fs = [] then 0 else 1)"
proof (induction fs cs rule: ms_add_frames.induct)
  case (3 s rest i "is")
  obtain n f ks where i: "i = MSI n f ks" by (cases i)
  show ?case
  proof (cases "stack_eq (ms_stack i) s")
    case True
    have "\<forall>c \<in> set (ms_children i). 1 \<le> ms_N c \<and> ms_consistent c"
      using 3(4) consistent_children [of i] by simp
    with "3.IH"(1) [OF True] 3(3) True 3(4) show ?thesis by (auto simp: i split: if_splits)
  next
    case False
    with "3.IH"(2) 3(3,4) show ?thesis by simp
  qed
qed auto

lemma ms_add_consistent:
  assumes "\<forall>s \<in> set q. wf_sizes s" "ms_consistent (MSI (ms_N t - 1) (ms_stack t) (ms_children t))"
  shows "ms_consistent (ms_add (length q) q t)"
  using consistent_count [of "rev q" "ms_children t"] assms by (auto simp: ms_add_def)

lemma fold_add_consistent:
  assumes "\<forall>q \<in> set qs. \<forall>s \<in> set q. wf_sizes s" "ms_consistent (MSI m s cs)"
  shows "ms_consistent (fold (\<lambda>q. ms_add (length q) q) qs (MSI (m + int (length qs)) s cs))"
  using assms
proof (induction qs arbitrary: m cs)
  case (Cons q qs)
  obtain cs' where a: "ms_add (length q) q (MSI (m + 1 + int (length qs)) s cs) = MSI (m + 1 + int (length qs)) s cs'"
    "cs' = ms_add_frames (rev q) cs"
    by (simp add: ms_add_def)
  have "ms_consistent (MSI (m + 1) s cs')"
    using ms_add_consistent [of q "MSI (m + 1) s cs"] Cons.prems by (simp add: ms_add_def a(2))
  with Cons.IH [of "m + 1" cs'] Cons.prems(1) a(1) show ?case by (simp add: algebra_simps)
qed simp

lemma length_le_sum_list: "\<forall>x \<in> set xs. (1 :: int) \<le> x \<Longrightarrow> int (length xs) \<le> sum_list xs"
  by (induction xs) auto

lemma member_le_sum_list_pos: "\<forall>x \<in> set xs. (0 :: int) \<le> x \<Longrightarrow> y \<in> set xs \<Longrightarrow> y \<le> sum_list xs"
  by (induction xs) (auto simp: sum_list_nonneg add_increasing add_increasing2)

lemma ms_valid_consistent: "ms_consistent t \<Longrightarrow> 0 \<le> ms_N t \<Longrightarrow> ms_N t < 2147483648 \<Longrightarrow> ms_valid t"
proof (induction t)
  case (MSI n s cs)
  have "int (length cs) \<le> sum_list (map ms_N cs)"
    using length_le_sum_list [of "map ms_N cs"] MSI.prems(1) by simp
  moreover have "ms_valid c" if "c \<in> set cs" for c
  proof -
    have "ms_N c \<le> sum_list (map ms_N cs)"
      using that MSI.prems(1) by (intro member_le_sum_list_pos) fastforce+
    with MSI.IH [OF that] MSI.prems that show ?thesis by force
  qed
  ultimately show ?case using MSI.prems by (simp add: int_range_def)
qed

text \<open>Unpacking only moves forward, and the fuel of \<open>unpack\<close> never runs out.\<close>

lemma unpack_int_length: "unpack_int bs = Inr (i, bs') \<Longrightarrow> length bs' + 4 = length bs"
  by (auto simp: unpack_int_def Let_def split: if_splits)

lemma stack_info_unpack_length: "stack_info_unpack bs = Inr (s, bs') \<Longrightarrow> length bs' + 512 = length bs"
  by (auto simp: stack_info_unpack_def stack_info_size_def split: if_splits)

lemma ms_unpack_fuel_Suc_cases:
  assumes "ms_unpack_fuel (Suc f) bs = r"
  obtains (fault) e where "r = Inl e" "e \<noteq> OutOfFuel"
  | (kids) n s nc bs3 where "length bs3 + 520 = length bs"
      "r = bindR (dec_seq (ms_unpack_fuel f) nc bs3) (\<lambda>(cs, bs4). Inr (MSI n s cs, bs4))"
proof (cases "unpack_int bs")
  case (Inl e)
  then have "r = Inl e" "e \<noteq> OutOfFuel"
    using assms by (auto simp: unpack_int_def Let_def split: if_splits)
  then show thesis by (rule fault)
next
  case (Inr a)
  obtain n bs1 where 1: "unpack_int bs = Inr (n, bs1)" using Inr by (cases a) simp
  show thesis
  proof (cases "stack_info_unpack bs1")
    case (Inl e)
    then have "r = Inl e" "e \<noteq> OutOfFuel"
      using assms 1 by (auto simp: stack_info_unpack_def split: if_splits)
    then show thesis by (rule fault)
  next
    case (Inr b)
    obtain s bs2 where 2: "stack_info_unpack bs1 = Inr (s, bs2)" using Inr by (cases b) simp
    show thesis
    proof (cases "unpack_int bs2")
      case (Inl e)
      then have "r = Inl e" "e \<noteq> OutOfFuel"
        using assms 1 2 by (auto simp: unpack_int_def [of bs2] Let_def split: if_splits)
      then show thesis by (rule fault)
    next
      case (Inr c)
      obtain nc bs3 where 3: "unpack_int bs2 = Inr (nc, bs3)" using Inr by (cases c) simp
      show thesis
      proof (cases "nc < 0")
        case True
        then have "r = Inl LengthError" using assms 1 2 3 by simp
        then show thesis by (rule fault) simp
      next
        case False
        have "length bs3 + 520 = length bs"
          using unpack_int_length [OF 1] stack_info_unpack_length [OF 2] unpack_int_length [OF 3] by simp
        then show thesis using assms 1 2 3 False by (intro kids) auto
      qed
    qed
  qed
qed

lemma ms_unpack_fuel_length: "ms_unpack_fuel f bs = Inr (t, bs') \<Longrightarrow> length bs' \<le> length bs"
proof (induction f arbitrary: bs t bs')
  case (Suc f)
  show ?case
  proof (rule ms_unpack_fuel_Suc_cases [OF Suc.prems])
    fix n s nc bs3
    assume l: "length bs3 + 520 = length bs"
      and r: "Inr (t, bs') = bindR (dec_seq (ms_unpack_fuel f) nc bs3) (\<lambda>(cs, bs4). Inr (MSI n s cs, bs4))"
    then obtain cs where "dec_seq (ms_unpack_fuel f) nc bs3 = Inr (cs, bs')"
      by (auto simp: bindR_Inr_iff dest!: sym [of "Inr _"])
    have "length bs' \<le> length bs3 \<and> length cs = nc"
    proof (rule dec_seq_length)
      show "length b' \<le> length b" if "ms_unpack_fuel f b = Inr (x, b')" for b x b'
        using that by (rule Suc.IH)
    qed fact
    with l show ?thesis by simp
  qed simp
qed simp

lemma dec_seq_fuel:
  assumes "\<And>bs'. length bs' \<le> m \<Longrightarrow> dec bs' \<noteq> Inl OutOfFuel"
    and "\<And>bs x bs'. dec bs = Inr (x, bs') \<Longrightarrow> length bs' \<le> length bs"
    and "length bs \<le> m"
  shows "dec_seq dec n bs \<noteq> Inl OutOfFuel"
  using assms(3)
proof (induction n arbitrary: bs)
  case (Suc n)
  show ?case
  proof (cases "dec bs")
    case (Inl e)
    with assms(1) [OF Suc.prems] show ?thesis by auto
  next
    case (Inr a)
    then obtain x bs1 where 1: "dec bs = Inr (x, bs1)" by (cases a) simp
    have "dec_seq dec n bs1 \<noteq> Inl OutOfFuel"
      using assms(2) [OF 1] Suc.prems by (intro Suc.IH) simp
    with 1 show ?thesis by (cases "dec_seq dec n bs1") auto
  qed
qed simp

lemma ms_unpack_fuel_enough: "length bs < f \<Longrightarrow> ms_unpack_fuel f bs \<noteq> Inl OutOfFuel"
proof (induction f arbitrary: bs)
  case (Suc f)
  show ?case
  proof (rule ms_unpack_fuel_Suc_cases [of f bs, OF refl])
    fix n s nc bs3
    assume l: "length bs3 + 520 = length bs"
      and r: "ms_unpack_fuel (Suc f) bs
        = bindR (dec_seq (ms_unpack_fuel f) nc bs3) (\<lambda>(cs, bs4). Inr (MSI n s cs, bs4))"
    have "dec_seq (ms_unpack_fuel f) nc bs3 \<noteq> Inl OutOfFuel"
      using Suc.prems l Suc.IH ms_unpack_fuel_length
      by (intro dec_seq_fuel [of "length bs3"]) auto
    then show ?thesis unfolding r by (cases "dec_seq (ms_unpack_fuel f) nc bs3") auto
  qed auto
qed simp

text \<open>
  Unpacking returns for every byte string: the recursion stops, with a tree and the
  unread rest, or with a read past the end of the buffer, or with the exception for a
  negative number of children.
\<close>

lemma ms_unpack_returns: "ms_unpack bs \<noteq> Inl OutOfFuel"
  unfolding ms_unpack_def by (rule ms_unpack_fuel_enough) simp

section \<open>The tree as a count of call stacks\<close>

text \<open>
  The number recorded at a path of frames, outermost first: the specification sees the children
  of a node as a map from frames to counted subtrees.
\<close>

fun ms_count :: "stack_info list \<Rightarrow> multi_stack_info list \<Rightarrow> int" where
  "ms_count [] cs = 0"
| "ms_count (s # ps) [] = 0"
| "ms_count (s # ps) (i # is) =
     (if stack_eq (ms_stack i) s
      then (if ps = [] then ms_N i else ms_count ps (ms_children i))
      else ms_count (s # ps) is)"

text \<open>The path \<open>p\<close> is an initial segment of the stack \<open>q\<close>, up to the comparison of frames.\<close>

fun path_of :: "stack_info list \<Rightarrow> stack_info list \<Rightarrow> bool" where
  "path_of [] q = True"
| "path_of (s # ps) [] = False"
| "path_of (s # ps) (x # q) = (stack_eq x s \<and> path_of ps q)"

text \<open>All frames of a forest are in a set, and no two siblings are equal.\<close>

fun forest_ok :: "stack_info set \<Rightarrow> multi_stack_info list \<Rightarrow> bool" where
  "forest_ok F [] = True"
| "forest_ok F (MSI n s cs # ts) \<longleftrightarrow>
     s \<in> F \<and> forest_ok F cs \<and> (\<forall>t \<in> set ts. \<not> stack_eq s (ms_stack t)) \<and> forest_ok F ts"

definition ms_total :: "multi_stack_info list \<Rightarrow> int" where
  "ms_total cs = sum_list (map ms_N cs)"

lemma forest_ok_Cons:
  "forest_ok F (t # ts) \<longleftrightarrow> ms_stack t \<in> F \<and> forest_ok F (ms_children t)
     \<and> (\<forall>u \<in> set ts. \<not> stack_eq (ms_stack t) (ms_stack u)) \<and> forest_ok F ts"
  by (cases t) simp

lemma forest_ok_append:
  "forest_ok F (ts @ us) \<longleftrightarrow> forest_ok F ts \<and> forest_ok F us
     \<and> (\<forall>t \<in> set ts. \<forall>u \<in> set us. \<not> stack_eq (ms_stack t) (ms_stack u))"
  by (induction ts) (auto simp: forest_ok_Cons)

lemma forest_ok_in: "forest_ok F cs \<Longrightarrow> t \<in> set cs \<Longrightarrow> ms_stack t \<in> F \<and> forest_ok F (ms_children t)"
  by (induction cs) (auto simp: forest_ok_Cons)

text \<open>The frames at the top of a forest, in order, do not change except for an appended one.\<close>

lemma ms_add_frames_stacks:
  "map ms_stack (ms_add_frames q cs) = map ms_stack cs
     @ (case q of [] \<Rightarrow> [] | s # _ \<Rightarrow> if \<exists>i \<in> set cs. stack_eq (ms_stack i) s then [] else [s])"
  by (induction q cs rule: ms_add_frames.induct) auto

text \<open>Adding a stack of at least one frame counts it exactly once among the children.\<close>

lemma ms_add_frames_total: "ms_total (ms_add_frames q cs) = ms_total cs + (if q = [] then 0 else 1)"
  by (induction q cs rule: ms_add_frames.induct) (auto simp: ms_total_def)

lemma ms_add_frames_top:
  "t \<in> set (ms_add_frames q cs) \<Longrightarrow> ms_stack t \<in> ms_stack ` set cs \<union> set (take 1 q)"
proof -
  assume "t \<in> set (ms_add_frames q cs)"
  then have "ms_stack t \<in> set (map ms_stack (ms_add_frames q cs))" by simp
  then show ?thesis unfolding ms_add_frames_stacks by (auto split: list.splits if_splits)
qed

lemma forest_ok_add:
  assumes "forest_ok F cs" "set q \<subseteq> F"
  shows "forest_ok F (ms_add_frames q cs)"
  using assms
proof (induction q cs rule: ms_add_frames.induct)
  case (3 s rest i "is")
  show ?case
  proof (cases "stack_eq (ms_stack i) s")
    case True
    with 3 show ?thesis by (simp add: forest_ok_Cons)
  next
    case False
    have "\<forall>t \<in> set (ms_add_frames (s # rest) is). \<not> stack_eq (ms_stack i) (ms_stack t)"
      using 3(3) False by (auto simp: forest_ok_Cons dest: ms_add_frames_top)
    with 3 False show ?thesis by (simp add: forest_ok_Cons)
  qed
qed auto

text \<open>
  Grouping frames is meaningful where their comparison is an equivalence: the client of the
  interface \<open>frame_comparison\<close>.
\<close>

locale frame_grouping = frame_comparison stack_eq frames
  for frames :: "stack_info set"
begin

lemma count_add_frames:
  assumes "forest_ok frames cs" "set q \<subseteq> frames" "set p \<subseteq> frames" "p \<noteq> []"
  shows "ms_count p (ms_add_frames q cs) = ms_count p cs + (if path_of p q then 1 else 0)"
  using assms
proof (induction q cs arbitrary: p rule: ms_add_frames.induct)
  case (1 cs)
  then show ?case by (cases p) auto
next
  case (2 s rest)
  then obtain s1 ps where p: "p = s1 # ps" by (cases p) auto
  with 2 show ?case by (cases ps) auto
next
  case (3 s rest i "is")
  from 3(6) obtain s1 ps where p: "p = s1 # ps" by (cases p) auto
  have mem: "ms_stack i \<in> frames" "s \<in> frames" "s1 \<in> frames"
    using 3(3-5) p by (auto simp: forest_ok_Cons)
  show ?case
  proof (cases "stack_eq (ms_stack i) s")
    case True
    then have "stack_eq (ms_stack i) s1 \<longleftrightarrow> stack_eq s s1"
      using same_left mem by blast
    moreover have "ps \<noteq> [] \<Longrightarrow> ms_count ps (ms_add_frames rest (ms_children i))
        = ms_count ps (ms_children i) + (if path_of ps rest then 1 else 0)"
      using 3(1) [OF True, of ps] 3(3-5) p by (auto simp: forest_ok_Cons)
    ultimately show ?thesis using True p by (cases "ps = []") auto
  next
    case False
    have IH: "ms_count p (ms_add_frames (s # rest) is)
        = ms_count p is + (if path_of p (s # rest) then 1 else 0)"
      using 3(2) [OF False] 3(3-6) by (auto simp: forest_ok_Cons)
    have "stack_eq (ms_stack i) s1 \<Longrightarrow> \<not> stack_eq s s1"
      using False same_trans same_sym mem by blast
    with IH False p show ?thesis by auto
  qed
qed

lemma count_add_many:
  assumes "forest_ok frames cs" "\<forall>q \<in> set qs. set q \<subseteq> frames" "set p \<subseteq> frames" "p \<noteq> []"
  shows "ms_count p (fold ms_add_frames qs cs) = ms_count p cs + int (length (filter (path_of p) qs))
    \<and> forest_ok frames (fold ms_add_frames qs cs)"
  using assms
proof (induction qs arbitrary: cs)
  case (Cons q qs)
  have q: "set q \<subseteq> frames" and ok: "forest_ok frames (ms_add_frames q cs)"
    using Cons.prems by (simp_all add: forest_ok_add)
  have "ms_count p (ms_add_frames q cs) = ms_count p cs + (if path_of p q then 1 else 0)"
    by (rule count_add_frames [OF Cons.prems(1) q Cons.prems(3,4)])
  with Cons.IH [OF ok] Cons.prems show ?case by simp
qed simp

lemma count_nomatch: "\<forall>t \<in> set cs. \<not> stack_eq (ms_stack t) s \<Longrightarrow> ms_count (s # ps) cs = 0"
  by (induction cs) auto

lemma count_Cons_split:
  assumes "forest_ok frames (x # xs)" "s \<in> frames"
  shows "ms_count (s # ps) (x # xs) = ms_count (s # ps) [x] + ms_count (s # ps) xs"
proof (cases "stack_eq (ms_stack x) s")
  case True
  have "\<not> stack_eq (ms_stack t) s" if t: "t \<in> set xs" for t
  proof
    assume "stack_eq (ms_stack t) s"
    moreover have "ms_stack x \<in> frames" "ms_stack t \<in> frames"
      using assms(1) forest_ok_in [of frames xs t] t by (auto simp: forest_ok_Cons)
    ultimately have "stack_eq (ms_stack x) (ms_stack t)"
      using True same_right [of "ms_stack x" "ms_stack t" s] assms(2) by blast
    with assms(1) t show False by (simp add: forest_ok_Cons)
  qed
  then show ?thesis using True by (simp add: count_nomatch)
qed simp

lemma count_append_new:
  assumes "\<forall>t \<in> set cs. \<not> stack_eq (ms_stack t) (ms_stack x)"
    and "forest_ok frames cs" "ms_stack x \<in> frames" "s \<in> frames"
  shows "ms_count (s # ps) (cs @ [x]) = ms_count (s # ps) cs + ms_count (s # ps) [x]"
  using assms
proof (induction cs)
  case (Cons i cs)
  have "stack_eq (ms_stack i) s \<Longrightarrow> \<not> stack_eq (ms_stack x) s"
    using Cons.prems same_right [of "ms_stack i" "ms_stack x" s] by (auto simp: forest_ok_Cons)
  with Cons show ?case by (auto simp: forest_ok_Cons)
qed simp

lemma map_merge_unmatched:
  "\<forall>t \<in> set cs. \<not> stack_eq (ms_stack t) (ms_stack x) \<Longrightarrow>
   map (\<lambda>t. if stack_eq (ms_stack t) (ms_stack x) then f t else t) cs = cs"
  by (induction cs) auto

lemma count_merge_into:
  assumes "forest_ok frames cs" "ms_stack x \<in> frames" "s \<in> frames"
    and "\<exists>t \<in> set cs. stack_eq (ms_stack t) (ms_stack x)"
    and "\<And>t. ms_stack (f t) = ms_stack t" "\<And>t. ms_N (f t) = ms_N t + ms_N x"
    and "\<And>t. t \<in> set cs \<Longrightarrow> stack_eq (ms_stack t) (ms_stack x) \<Longrightarrow> ps \<noteq> [] \<Longrightarrow>
      ms_count ps (ms_children (f t)) = ms_count ps (ms_children t) + ms_count ps (ms_children x)"
  shows "ms_count (s # ps) (map (\<lambda>t. if stack_eq (ms_stack t) (ms_stack x) then f t else t) cs)
    = ms_count (s # ps) cs + ms_count (s # ps) [x]"
  using assms(1,4,7)
proof (induction cs)
  case (Cons i cs)
  have i: "ms_stack i \<in> frames" using Cons.prems(1) by (simp add: forest_ok_Cons)
  show ?case
  proof (cases "stack_eq (ms_stack i) (ms_stack x)")
    case True
    have "\<not> stack_eq (ms_stack t) (ms_stack x)" if t: "t \<in> set cs" for t
      using Cons.prems(1) forest_ok_in [of frames cs t] t True i assms(2)
        same_right [of "ms_stack i" "ms_stack t" "ms_stack x"]
      by (auto simp: forest_ok_Cons)
    then have "map (\<lambda>t. if stack_eq (ms_stack t) (ms_stack x) then f t else t) cs = cs"
      by (intro map_merge_unmatched) blast
    moreover have "stack_eq (ms_stack i) s \<longleftrightarrow> stack_eq (ms_stack x) s"
      using same_left [OF i assms(2,3) True] .
    moreover have "ps \<noteq> [] \<Longrightarrow> ms_count ps (ms_children (f i))
        = ms_count ps (ms_children i) + ms_count ps (ms_children x)"
      using Cons.prems(3) True by simp
    ultimately show ?thesis
      using True assms(5,6) by (cases "ps = []") auto
  next
    case False
    have "stack_eq (ms_stack i) s \<Longrightarrow> \<not> stack_eq (ms_stack x) s"
      using False i assms(2,3) same_right [of "ms_stack i" "ms_stack x" s] by blast
    with Cons False show ?thesis by (auto simp: forest_ok_Cons)
  qed
qed simp

end

lemma ms_merge_simps [simp]:
  "ms_stack (ms_merge t x) = ms_stack t" "ms_N (ms_merge t x) = ms_N t + ms_N x"
  by (cases x; simp)+

lemma forest_ok_map:
  assumes "forest_ok F cs" "\<And>t. ms_stack (g t) = ms_stack t"
    "\<And>t. t \<in> set cs \<Longrightarrow> forest_ok F (ms_children (g t))"
  shows "forest_ok F (map g cs)"
  using assms by (induction cs) (auto simp: forest_ok_Cons)

lemma forest_ok_merge:
  "forest_ok F (ms_children t) \<Longrightarrow> forest_ok F (ms_children x) \<Longrightarrow>
    forest_ok F (ms_children (ms_merge t x))"
  "forest_ok F cs \<Longrightarrow> forest_ok F rcs \<Longrightarrow> forest_ok F (ms_merge_children cs rcs)"
proof (induction t x and cs rcs rule: ms_merge_ms_merge_children.induct)
  case (3 cs x xs)
  let ?cs' = "if \<exists>tmp \<in> set cs. stack_eq (ms_stack tmp) (ms_stack x)
        then map (\<lambda>tmp. if stack_eq (ms_stack tmp) (ms_stack x) then ms_merge tmp x else tmp) cs
        else cs @ [x]"
  have x: "ms_stack x \<in> F" "forest_ok F (ms_children x)" "forest_ok F xs"
    using 3(4) by (simp_all add: forest_ok_Cons)
  have "forest_ok F ?cs'"
  proof (cases "\<exists>tmp \<in> set cs. stack_eq (ms_stack tmp) (ms_stack x)")
    case True
    have "forest_ok F (ms_children (if stack_eq (ms_stack t) (ms_stack x) then ms_merge t x else t))"
      if "t \<in> set cs" for t
      using 3(1) [OF True that] forest_ok_in [OF 3(3) that] x(2) by auto
    with True 3(3) show ?thesis by (simp add: forest_ok_map)
  next
    case False
    with 3(3) x show ?thesis by (auto simp: forest_ok_append forest_ok_Cons)
  qed
  with 3(2) x(3) show ?case by simp
qed auto

context frame_grouping
begin

lemma count_merge:
  "forest_ok frames (ms_children t) \<Longrightarrow> forest_ok frames (ms_children r) \<Longrightarrow>
    set p \<subseteq> frames \<Longrightarrow> p \<noteq> [] \<Longrightarrow>
    ms_count p (ms_children (ms_merge t r)) = ms_count p (ms_children t) + ms_count p (ms_children r)"
  "forest_ok frames cs \<Longrightarrow> forest_ok frames rcs \<Longrightarrow> set p \<subseteq> frames \<Longrightarrow> p \<noteq> [] \<Longrightarrow>
    ms_count p (ms_merge_children cs rcs) = ms_count p cs + ms_count p rcs"
proof (induction t r and cs rcs arbitrary: p and p rule: ms_merge_ms_merge_children.induct)
  case (1 t n s rcs)
  then show ?case by simp
next
  case (2 cs)
  then show ?case by (cases p) auto
next
  case (3 cs x xs)
  let ?cs' = "if \<exists>tmp \<in> set cs. stack_eq (ms_stack tmp) (ms_stack x)
        then map (\<lambda>tmp. if stack_eq (ms_stack tmp) (ms_stack x) then ms_merge tmp x else tmp) cs
        else cs @ [x]"
  from 3(6) obtain s1 ps where p: "p = s1 # ps" by (cases p) auto
  then have s1: "s1 \<in> frames" "set ps \<subseteq> frames" using 3(5) by auto
  have x: "ms_stack x \<in> frames" "forest_ok frames (ms_children x)" "forest_ok frames xs"
    using 3(4) by (simp_all add: forest_ok_Cons)
  have step: "ms_count p ?cs' = ms_count p cs + ms_count p [x]"
  proof (cases "\<exists>tmp \<in> set cs. stack_eq (ms_stack tmp) (ms_stack x)")
    case True
    show ?thesis
      unfolding p if_P [OF True]
    proof (rule count_merge_into [OF 3(3) x(1) s1(1) True])
      show "ms_count ps (ms_children (ms_merge t x))
          = ms_count ps (ms_children t) + ms_count ps (ms_children x)"
        if t: "t \<in> set cs" and eq: "stack_eq (ms_stack t) (ms_stack x)" and "ps \<noteq> []" for t
        using 3(1) [OF True t eq, of ps] forest_ok_in [OF 3(3) t] x(2) s1(2) that(3) by simp
    qed simp_all
  next
    case False
    then show ?thesis
      unfolding p using 3(3) x(1) s1(1) by (simp add: count_append_new del: ms_count.simps)
  qed
  have ok': "forest_ok frames ?cs'"
    using forest_ok_merge(2) [of frames cs "[x]"] 3(3,4) by (simp add: forest_ok_Cons)
  have "ms_count p (ms_merge_children cs (x # xs)) = ms_count p ?cs' + ms_count p xs"
    using 3(2) [OF ok' x(3) 3(5,6)] by simp
  then show ?case
    using step count_Cons_split [OF 3(4) s1(1), of ps] by (simp add: p del: ms_count.simps)
qed

end

interpretation addressed_grouping: frame_grouping addressed_frames
  by unfold_locales

lemma frame_groupingI: "transp_on F stack_eq \<Longrightarrow> frame_grouping F"
proof unfold_locales
  assume t: "transp_on F stack_eq"
  show "stack_eq a c" if "a \<in> F" "b \<in> F" "c \<in> F" "stack_eq a b" "stack_eq b c" for a b c
    using t that by (blast dest: transp_onD)
qed (auto simp: stack_eq_sym)

lemma transp_on_addressed: "transp_on addressed_frames stack_eq"
  by (rule transp_onI) (auto simp: stack_eq_addressed)

lemma fold_ms_add_children:
  "ms_children (fold (\<lambda>q. ms_add (length q) q) qs t) = fold ms_add_frames (map rev qs) (ms_children t)"
  by (induction qs arbitrary: t) (auto simp: ms_add_def)

lemma fold_ms_add_total:
  "ms_total (fold ms_add_frames qs cs) = ms_total cs + int (length (filter (\<lambda>q. q \<noteq> []) qs))"
  by (induction qs arbitrary: cs) (auto simp: ms_add_frames_total)

text \<open>
  Property C1: the tree built by adding call stacks counts them: on frames where the comparison
  is transitive, the number stored at every path is the number of added stacks whose outermost
  frames are that path (on top of what was there), and no two siblings are equal.
\<close>

theorem ms_add_counts_stacks:
  assumes "transp_on F stack_eq" "forest_ok F (ms_children t)" "\<forall>q \<in> set qs. set q \<subseteq> F"
    and "set p \<subseteq> F" "p \<noteq> []"
  defines "t' \<equiv> fold (\<lambda>q. ms_add (length q) q) qs t"
  shows "ms_count p (ms_children t') = ms_count p (ms_children t)
      + int (length (filter (\<lambda>q. path_of p (rev q)) qs))
    \<and> forest_ok F (ms_children t')"
proof -
  have "\<forall>q \<in> set (map rev qs). set q \<subseteq> F" using assms(3) by simp
  from frame_grouping.count_add_many [OF frame_groupingI [OF assms(1)] assms(2) this assms(4,5)]
  show ?thesis
    unfolding t'_def fold_ms_add_children by (simp add: filter_map comp_def)
qed

text \<open>A frame with both addresses equal, for concrete examples.\<close>

definition frame_at :: "64 word \<Rightarrow> stack_info" where
  "frame_at a = stack_info_clear\<lparr>si_address := a, si_address2 := a\<rparr>"

lemma frame_at_simps [simp]:
  "frame_at a \<in> addressed_frames" "si_address (frame_at a) = a" "wf_info (frame_at a)"
  "stack_eq (frame_at a) (frame_at b) \<longleftrightarrow> a = b"
  by (auto simp: frame_at_def addressed_frames_def stack_eq_def wf_info_def wf_sizes_def terminated_def)
     (simp_all add: stack_info_clear_def)

theorem ms_add_counts_stacks_witness:
  "ms_count [frame_at 1] (ms_children (fold (\<lambda>q. ms_add (length q) q)
      [[frame_at 1], [frame_at 2, frame_at 1], [frame_at 3]] ms_empty_tree)) = 2"
  using ms_add_counts_stacks [OF transp_on_addressed, of ms_empty_tree
      "[[frame_at 1], [frame_at 2, frame_at 1], [frame_at 3]]" "[frame_at 1]"]
  by (simp add: ms_empty_tree_def)

text \<open>
  Property C5: merging the tree of another process adds the numbers at every path, adds the
  numbers of the roots, keeps the frame of the root, and keeps siblings distinct.
\<close>

theorem ms_merge_adds_counts:
  assumes "transp_on F stack_eq" "forest_ok F (ms_children t)" "forest_ok F (ms_children r)"
    and "set p \<subseteq> F" "p \<noteq> []"
  shows "ms_count p (ms_children (ms_merge t r)) = ms_count p (ms_children t) + ms_count p (ms_children r)
    \<and> ms_N (ms_merge t r) = ms_N t + ms_N r \<and> ms_stack (ms_merge t r) = ms_stack t
    \<and> forest_ok F (ms_children (ms_merge t r))"
  using frame_grouping.count_merge(1) [OF frame_groupingI [OF assms(1)] assms(2-5)]
    forest_ok_merge(1) [OF assms(2,3)] by simp

theorem ms_merge_adds_counts_witness:
  "let t = MSI 3 stack_info_clear [MSI 2 (frame_at 1) []];
       r = MSI 4 stack_info_clear [MSI 3 (frame_at 1) [MSI 3 (frame_at 2) []]]
   in ms_count [frame_at 1] (ms_children (ms_merge t r)) = 5
     \<and> ms_N (ms_merge t r) = 7 \<and> ms_stack (ms_merge t r) = stack_info_clear
     \<and> forest_ok addressed_frames (ms_children (ms_merge t r))"
  using ms_merge_adds_counts [OF transp_on_addressed,
      of "MSI 3 stack_info_clear [MSI 2 (frame_at 1) []]"
         "MSI 4 stack_info_clear [MSI 3 (frame_at 1) [MSI 3 (frame_at 2) []]]" "[frame_at 1]"]
  by (simp add: Let_def)

section \<open>The bounds of the printer\<close>

text \<open>Nesting of printed nodes: those with an address.\<close>

fun ms_levels :: "multi_stack_info \<Rightarrow> nat" where
  "ms_levels (MSI n s cs) =
     (if si_address s \<noteq> 0 then 1 else 0) + foldr max (map ms_levels cs) 0"

fun ms_all :: "(int \<Rightarrow> stack_info \<Rightarrow> bool) \<Rightarrow> multi_stack_info \<Rightarrow> bool" where
  "ms_all P (MSI n s cs) \<longleftrightarrow> P n s \<and> (\<forall>c \<in> set cs. ms_all P c)"

definition ms_printable :: "multi_stack_info \<Rightarrow> bool" where
  "ms_printable t = ms_all (\<lambda>n s. int_range n \<and> wf_info s) t"

lemma foldl_max_const: "\<forall>x \<in> set xs. x = b \<Longrightarrow> foldl max b xs = (b :: int)"
  by (induction xs) auto

lemma foldl_max_range:
  "lo \<le> a \<Longrightarrow> a \<le> hi \<Longrightarrow> \<forall>x \<in> set xs. lo \<le> x \<and> x \<le> hi \<Longrightarrow>
   lo \<le> foldl max a xs \<and> foldl max a xs \<le> (hi :: int)"
proof (induction xs arbitrary: a)
  case (Cons x xs)
  then have "lo \<le> max a x" "max a x \<le> hi" by auto
  with Cons show ?case by simp
qed simp

lemma ms_widths_constant:
  assumes "ms_all (\<lambda>n s. wf_sizes s) t"
  shows "ms_getObjectWidth t = 20" "ms_getFunctionWidth t = 40"
  using assms
  by (induction t) (auto simp: wf_sizes_def intro!: foldl_max_const)

lemma getAddressWidth_range: "4 \<le> getAddressWidth s \<and> getAddressWidth s \<le> 16"
  by (simp add: getAddressWidth_def Let_def)

lemma ms_addressWidth_range: "4 \<le> ms_getAddressWidth t \<and> ms_getAddressWidth t \<le> 16"
proof (induction t)
  case (MSI n s cs)
  have "4 \<le> getAddressWidth s" "getAddressWidth s \<le> 16" using getAddressWidth_range by blast+
  then show ?case using MSI by (simp del: foldl_map add: foldl_max_range)
qed

lemma ms_all_mono: "ms_all P t \<Longrightarrow> (\<And>n s. P n s \<Longrightarrow> Q n s) \<Longrightarrow> ms_all Q t"
  by (induction t) auto

lemma length_int_str:
  assumes "int_range i"
  shows "length (int_str i) \<le> 11"
proof -
  have "nat (- i) < 10 ^ Suc 9" "nat i < 10 ^ Suc 9" using assms by (auto simp: int_range_def)
  from this [THEN length_num_str [rotated]]
  have "length (dec_str (nat (- i))) \<le> 10" "length (dec_str (nat i)) \<le> 10" by simp_all
  then show ?thesis by (simp add: int_str_def)
qed

definition widths_ok :: "int \<times> int \<times> int \<Rightarrow> bool" where
  "widths_ok w = (case w of (w0, w1, w2) \<Rightarrow> \<bar>w0\<bar> \<le> 16 \<and> \<bar>w1\<bar> \<le> 55 \<and> \<bar>w2\<bar> \<le> 255)"

lemma length_ms_line:
  assumes "int_range n" "wf_info s" "widths_ok w"
  shows "length (ms_line pre w (MSI n s cs)) \<le> length pre + 423"
  using length_int_str [OF assms(1)] length_print2 [OF assms(2)] assms(3)
  by (fastforce simp: ms_line_def widths_ok_def split: prod.splits)

lemma foldr_max_le_iff: "foldr max xs 0 \<le> b \<longleftrightarrow> (\<forall>x \<in> set xs. x \<le> (b :: nat))"
  by (induction xs) auto

lemma returns_bindR: "returns (bindR m f) \<longleftrightarrow> returns m \<and> (\<forall>x. m = Inr x \<longrightarrow> returns (f x))"
  by (cases m) auto

definition levels_fit :: "nat \<Rightarrow> nat \<Rightarrow> bool" where
  "levels_fit n l \<longleftrightarrow> l = 0 \<or> n + 2 * l \<le> 1024"

lemma levels_fit_foldr:
  "levels_fit n (foldr max (map f xs) 0) \<longleftrightarrow> (\<forall>x \<in> set xs. levels_fit n (f x))"
  by (induction xs) (auto simp: levels_fit_def max_def)

lemma levels_fit_Suc: "levels_fit n (Suc l) \<longleftrightarrow> n + 1 < 1024 \<and> levels_fit (n + 2) l"
  by (auto simp: levels_fit_def)

lemma ms_print2_returns_iff:
  "widths_ok w \<Longrightarrow> ms_printable t \<Longrightarrow>
    returns (ms_print2 pre w c t) \<longleftrightarrow> levels_fit (length pre) (ms_levels t)"
  "widths_ok w \<Longrightarrow> \<forall>t \<in> set cs. ms_printable t \<Longrightarrow>
    returns (ms_print2_children pre w b cs) \<longleftrightarrow> (\<forall>t \<in> set cs. levels_fit (length pre) (ms_levels t))"
proof (induction pre w c t and pre w b cs rule: ms_print2_ms_print2_children.induct)
  case (1 pre w c n s cs)
  have kids: "\<forall>t \<in> set cs. ms_printable t" and ok: "int_range n" "wf_info s"
    using 1(4) by (auto simp: ms_printable_def)
  note lvl = levels_fit_foldr [of _ ms_levels cs]
  show ?case
  proof (cases "si_address s = 0")
    case True
    with 1(2) [OF _ 1(3) kids] lvl show ?thesis by simp
  next
    case False
    show ?thesis
    proof (cases "length pre + 1 < 1024")
      case True
      then have fits: "\<not> (1024 \<le> length pre + 1 \<or> 4096 \<le> length (ms_line pre w (MSI n s cs)))"
        using length_ms_line [OF ok 1(3), of pre cs] by simp
      show ?thesis
        using 1(1) [OF False fits 1(3) kids] False fits True lvl
        by (simp add: returns_bindR levels_fit_Suc)
    next
      case no: False
      with False show ?thesis by (simp add: levels_fit_Suc)
    qed
  qed
next
  case (3 pre w b x xs)
  then show ?case
    by (cases "ms_print2 pre w (xs \<noteq> [] \<and> b) x") (auto simp: returns_bindR)
qed simp

lemma ms_print_returns:
  assumes "ms_printable t"
  shows "returns (ms_print t pre) \<longleftrightarrow>
    length pre \<le> 1024 \<and> (ms_levels t = 0 \<or> length pre + 2 * ms_levels t \<le> 1024)"
proof -
  have "ms_all (\<lambda>n s. wf_sizes s) t"
    using assms unfolding ms_printable_def
    by (rule ms_all_mono) (simp add: wf_info_def)
  then have w: "widths_ok (ms_getAddressWidth t, ms_getObjectWidth t, ms_getFunctionWidth t)"
    using ms_addressWidth_range [of t] by (simp add: widths_ok_def ms_widths_constant)
  show ?thesis
    using ms_print2_returns_iff(1) [OF w assms, of pre False]
    by (auto simp: ms_print_def levels_fit_def)
qed

text \<open>
  Property C36: with terminated fields the printer is exactly as safe as its prefix buffer is
  large: it returns if and only if the prefix and two columns for every nested frame fit in the 1024
  characters, so the line buffer of 4096 never overflows, and a stack of more than 512 nested
  frames always runs over the end of the prefix buffer.
\<close>

theorem ms_print_returns_iff:
  assumes "ms_printable t"
  shows "returns (ms_print t pre) \<longleftrightarrow>
    length pre \<le> 1024 \<and> (ms_levels t = 0 \<or> length pre + 2 * ms_levels t \<le> 1024)"
  by (rule ms_print_returns [OF assms])

text \<open>A chain of frames, as deep recursion leaves it.\<close>

fun frame_chain :: "nat \<Rightarrow> multi_stack_info" where
  "frame_chain 0 = MSI 1 (frame_at 1) []"
| "frame_chain (Suc n) = MSI 1 (frame_at 1) [frame_chain n]"

lemma frame_chain_simps: "ms_printable (frame_chain n)" "ms_levels (frame_chain n) = Suc n"
  by (induction n) (auto simp: ms_printable_def int_range_def)

theorem ms_print_returns_iff_witness:
  "returns (ms_print (frame_chain 511) []) \<and> \<not> returns (ms_print (frame_chain 512) [])"
  using ms_print_returns_iff [OF frame_chain_simps(1), of 511 "[]"]
    ms_print_returns_iff [OF frame_chain_simps(1), of 512 "[]"]
  by (simp add: frame_chain_simps(2))

end
