(* ===== verification/Static_Vector.thy ===== *)
theory Static_Vector
  imports Prelude
begin

text \<open>
  \<open>StaticVector.h\<close>: the vector of fixed capacity that the thread registry, the command output
  and the grouping of stack frames use. The locale \<open>bounded_store\<close> is the contract its
  clients rely on, \<open>swap_removal\<close> extends it by removal through the last element;
  both are interpreted on the class's own operations.
\<close>

section \<open>The class\<close>

text \<open>\<open>CAPACITY\<close> is the length of \<open>d_data\<close>.\<close>

record 'a static_vector =
  d_size :: nat
  d_data :: "'a list"

definition sv_new :: "nat \<Rightarrow> 'a \<Rightarrow> 'a static_vector" where
  "sv_new CAPACITY x = \<lparr>d_size = 0, d_data = replicate CAPACITY x\<rparr>"

definition sv_size :: "'a static_vector \<Rightarrow> nat" where
  "sv_size v = d_size v"

definition sv_capacity :: "'a static_vector \<Rightarrow> nat" where
  "sv_capacity v = length (d_data v)"

definition sv_empty :: "'a static_vector \<Rightarrow> bool" where
  "sv_empty v = (d_size v = 0)"

definition sv_push_back :: "'a \<Rightarrow> 'a static_vector \<Rightarrow> 'a static_vector" where
  "sv_push_back x v =
     (if d_size v < length (d_data v)
      then v\<lparr>d_data := (d_data v)[d_size v := x], d_size := Suc (d_size v)\<rparr>
      else v)"

definition sv_back :: "'a static_vector \<Rightarrow> 'a result" where
  "sv_back v = (if d_size v = 0 then Inl OutOfBounds else Inr (d_data v ! (d_size v - 1)))"

definition sv_pop_back :: "'a static_vector \<Rightarrow> 'a static_vector" where
  "sv_pop_back v = v\<lparr>d_size := max (d_size v) 1 - 1\<rparr>"

definition sv_clear :: "'a static_vector \<Rightarrow> 'a static_vector" where
  "sv_clear v = v\<lparr>d_size := 0\<rparr>"

fun sv_fill :: "'a \<Rightarrow> nat \<Rightarrow> nat \<Rightarrow> 'a list \<Rightarrow> 'a list" where
  "sv_fill x i 0 d = d"
| "sv_fill x i (Suc n) d = sv_fill x (Suc i) n (d[i := x])"

definition sv_resize :: "nat \<Rightarrow> 'a \<Rightarrow> 'a static_vector \<Rightarrow> 'a static_vector result" where
  "sv_resize N x v =
     (if sv_capacity v < N then Inl LogicError
      else Inr (v\<lparr>d_data := sv_fill x (d_size v) (N - d_size v) (d_data v), d_size := N\<rparr>))"

text \<open>The compaction loop of \<open>erase\<close>: \<open>n\<close> iterations are left, \<open>N\<close> elements are kept.\<close>

fun sv_erase_loop :: "'a \<Rightarrow> nat \<Rightarrow> nat \<Rightarrow> nat \<Rightarrow> 'a list \<Rightarrow> 'a list \<times> nat" where
  "sv_erase_loop x 0 i N d = (d, N)"
| "sv_erase_loop x (Suc n) i N d =
     (if d ! i \<noteq> x then sv_erase_loop x n (Suc i) (Suc N) (d[N := d ! i])
      else sv_erase_loop x n (Suc i) N d)"

definition sv_erase :: "'a \<Rightarrow> 'a static_vector \<Rightarrow> 'a static_vector" where
  "sv_erase x v =
     (let (d, N) = sv_erase_loop x (d_size v) 0 0 (d_data v) in v\<lparr>d_data := d, d_size := N\<rparr>)"

text \<open>\<open>std::distance( begin(), std::find( begin(), end(), x ) )\<close>.\<close>

fun index_of :: "'a \<Rightarrow> 'a list \<Rightarrow> nat" where
  "index_of x [] = 0"
| "index_of x (y # ys) = (if y = x then 0 else Suc (index_of x ys))"

definition sv_elems :: "'a static_vector \<Rightarrow> 'a list" where
  "sv_elems v = take (d_size v) (d_data v)"

definition sv_find :: "'a \<Rightarrow> 'a static_vector \<Rightarrow> nat" where
  "sv_find x v = index_of x (take (d_size v) (d_data v))"

definition sv_sort :: "'a::linorder static_vector \<Rightarrow> 'a static_vector" where
  "sv_sort v = v\<lparr>d_data := sort (take (d_size v) (d_data v)) @ drop (d_size v) (d_data v)\<rparr>"

definition sv_insert :: "'a::linorder \<Rightarrow> 'a static_vector \<Rightarrow> 'a static_vector" where
  "sv_insert x v = (if sv_find x v = d_size v then sv_sort (sv_push_back x v) else v)"

text \<open>
  \<open>std::swap( v[i], v.back() ); v.resize( v.size() - 1 )\<close>, the removal idiom of the clients.
\<close>

definition sv_swap_remove :: "nat \<Rightarrow> 'a static_vector \<Rightarrow> 'a static_vector" where
  "sv_swap_remove i v =
     (let b = d_size v - 1; d = d_data v
      in v\<lparr>d_data := d[i := d ! b, b := d ! i], d_size := b\<rparr>)"

section \<open>Invariant and abstraction\<close>

definition sv_inv :: "'a static_vector \<Rightarrow> bool" where
  "sv_inv v \<longleftrightarrow> d_size v \<le> length (d_data v)"

lemma index_of_le: "index_of x xs \<le> length xs"
  by (induction xs) auto

lemma index_of_eq_length_iff: "index_of x xs = length xs \<longleftrightarrow> x \<notin> set xs"
  by (induction xs) auto

lemma index_of_nth: "x \<in> set xs \<Longrightarrow> index_of x xs < length xs \<and> xs ! index_of x xs = x"
  by (induction xs) auto

lemma length_sv_elems [simp]: "sv_inv v \<Longrightarrow> length (sv_elems v) = d_size v"
  by (simp add: sv_elems_def sv_inv_def)

lemma length_sv_fill [simp]: "length (sv_fill x i n d) = length d"
  by (induction x i n d rule: sv_fill.induct) auto

lemma take_sv_fill: "i + n \<le> length d \<Longrightarrow> take (i + n) (sv_fill x i n d) = take i d @ replicate n x"
proof (induction x i n d rule: sv_fill.induct)
  case (2 x i n d)
  then have "take (Suc i + n) (sv_fill x (Suc i) n (d[i := x]))
    = take (Suc i) (d[i := x]) @ replicate n x" by simp
  with 2 show ?case by (simp add: take_Suc_conv_app_nth replicate_app_Cons_same)
qed simp

lemma length_sv_erase_loop: "length (fst (sv_erase_loop x n i N d)) = length d"
  by (induction x n i N d rule: sv_erase_loop.induct) auto

lemma sv_erase_loop_spec:
  assumes "N \<le> i" "i + n \<le> length d"
  shows "let (d', N') = sv_erase_loop x n i N d
    in N' \<le> i + n \<and> take N' d' = take N d @ filter (\<lambda>y. y \<noteq> x) (take n (drop i d))"
  using assms
proof (induction x n i N d rule: sv_erase_loop.induct)
  case (1 x i N d)
  then show ?case by simp
next
  case (2 x n i N d)
  have hd: "take (Suc n) (drop i d) = d ! i # take n (drop (Suc i) d)"
    using 2(4) by (simp add: Cons_nth_drop_Suc [symmetric])
  show ?case
  proof (cases "d ! i = x")
    case True
    with 2(2) 2(3,4) hd show ?thesis by simp
  next
    case False
    have "drop (Suc i) (d[N := d ! i]) = drop (Suc i) d" using 2(3) by simp
    moreover have "take (Suc N) (d[N := d ! i]) = take N d @ [d ! i]"
      using 2(3,4) by (simp add: take_Suc_conv_app_nth)
    ultimately show ?thesis using 2(1) [OF False] 2(3,4) False hd by simp
  qed
qed

text \<open>The refinement: each operation on the array is an operation on the list of elements.\<close>

lemma sv_elems_push_back:
  "sv_inv v \<Longrightarrow> sv_elems (sv_push_back x v)
    = (if length (sv_elems v) < sv_capacity v then sv_elems v @ [x] else sv_elems v)"
  by (auto simp: sv_elems_def sv_inv_def sv_push_back_def sv_capacity_def take_Suc_conv_app_nth)

lemma sv_elems_erase:
  assumes "sv_inv v"
  shows "sv_elems (sv_erase x v) = filter (\<lambda>y. y \<noteq> x) (sv_elems v)" "sv_inv (sv_erase x v)"
    "sv_capacity (sv_erase x v) = sv_capacity v"
proof -
  obtain d N where dN: "sv_erase_loop x (d_size v) 0 0 (d_data v) = (d, N)" by fastforce
  have "N \<le> d_size v \<and> take N d = filter (\<lambda>y. y \<noteq> x) (take (d_size v) (d_data v))"
    using sv_erase_loop_spec [of 0 0 "d_size v" "d_data v" x] assms dN by (simp add: sv_inv_def)
  moreover have "length d = length (d_data v)"
    using length_sv_erase_loop [of x "d_size v" 0 0 "d_data v"] dN by simp
  ultimately show "sv_elems (sv_erase x v) = filter (\<lambda>y. y \<noteq> x) (sv_elems v)"
    "sv_inv (sv_erase x v)" "sv_capacity (sv_erase x v) = sv_capacity v"
    using assms dN by (simp_all add: sv_erase_def sv_elems_def sv_inv_def sv_capacity_def)
qed

lemma sv_resize_spec:
  assumes "sv_inv v"
  shows "sv_resize N x v = Inl LogicError \<and> sv_capacity v < N
    \<or> (\<exists>v'. sv_resize N x v = Inr v' \<and> N \<le> sv_capacity v \<and> sv_inv v' \<and> sv_capacity v' = sv_capacity v
         \<and> sv_elems v' = take N (sv_elems v) @ replicate (N - length (sv_elems v)) x)"
proof (cases "sv_capacity v < N")
  case True
  then show ?thesis by (simp add: sv_resize_def)
next
  case False
  have "d_size v \<le> N \<Longrightarrow> take N (sv_fill x (d_size v) (N - d_size v) (d_data v))
      = take (d_size v) (d_data v) @ replicate (N - d_size v) x"
    using take_sv_fill [of "d_size v" "N - d_size v" "d_data v" x] False by (simp add: sv_capacity_def)
  then show ?thesis
    using False assms
    by (cases "d_size v \<le> N") (auto simp: sv_resize_def sv_elems_def sv_inv_def sv_capacity_def min_def)
qed

lemma sv_sort_simps:
  assumes "sv_inv v"
  shows "sv_elems (sv_sort v) = sort (sv_elems v)" "sv_inv (sv_sort v)"
    "sv_capacity (sv_sort v) = sv_capacity v" "d_size (sv_sort v) = d_size v"
  using assms by (simp_all add: sv_sort_def sv_elems_def sv_inv_def sv_capacity_def)

lemma sv_inv_push_back: "sv_inv v \<Longrightarrow> sv_inv (sv_push_back x v)"
  by (auto simp: sv_inv_def sv_push_back_def)

lemma sv_capacity_push_back [simp]: "sv_capacity (sv_push_back x v) = sv_capacity v"
  by (simp add: sv_capacity_def sv_push_back_def)

lemma sv_find_spec: "sv_inv v \<Longrightarrow> sv_find x v = index_of x (sv_elems v)"
  by (simp add: sv_find_def sv_elems_def)

lemma sv_swap_remove_spec:
  assumes "sv_inv v" "i < d_size v"
  shows "sv_inv (sv_swap_remove i v)" "sv_capacity (sv_swap_remove i v) = sv_capacity v"
    "sv_elems (sv_swap_remove i v)
      = (let b = length (sv_elems v) - 1 in take b ((sv_elems v)[i := sv_elems v ! b]))"
proof -
  show "sv_inv (sv_swap_remove i v)" "sv_capacity (sv_swap_remove i v) = sv_capacity v"
    using assms by (auto simp: sv_swap_remove_def sv_inv_def sv_capacity_def Let_def)
  let ?b = "d_size v - 1"
  have b: "?b < d_size v" "length (sv_elems v) = d_size v" using assms by auto
  have "take ?b ((d_data v)[i := d_data v ! ?b, ?b := d_data v ! i])
      = take ?b ((d_data v)[i := d_data v ! ?b])" by simp
  also have "\<dots> = take ?b ((sv_elems v)[i := sv_elems v ! ?b])"
    using assms b by (simp add: sv_elems_def take_update_swap)
  finally show "sv_elems (sv_swap_remove i v)
      = (let b = length (sv_elems v) - 1 in take b ((sv_elems v)[i := sv_elems v ! b]))"
    using b by (simp add: sv_swap_remove_def sv_elems_def Let_def)
qed

section \<open>The contract of the clients\<close>

text \<open>
  A store of bounded capacity, seen through the list of its elements: \<open>push\<close> appends and
  silently ignores what does not fit, \<open>idx\<close> is the position of the first occurrence or the
  number of elements.
\<close>

locale bounded_store =
  fixes elems :: "'s \<Rightarrow> 'a list"
    and cap :: "'s \<Rightarrow> nat"
    and push :: "'a \<Rightarrow> 's \<Rightarrow> 's"
    and idx :: "'a \<Rightarrow> 's \<Rightarrow> nat"
    and inv :: "'s \<Rightarrow> bool"
  assumes elems_bounded: "inv s \<Longrightarrow> length (elems s) \<le> cap s"
    and elems_push: "inv s \<Longrightarrow>
      elems (push x s) = (if length (elems s) < cap s then elems s @ [x] else elems s)"
    and cap_push: "cap (push x s) = cap s"
    and inv_push: "inv s \<Longrightarrow> inv (push x s)"
    and idx_spec: "inv s \<Longrightarrow> idx x s = index_of x (elems s)"
begin

text \<open>Adding an element unless it is there: a set of at most \<open>cap\<close> members.\<close>

lemma add_new_set:
  assumes "inv s"
  shows "set (elems (if idx x s = length (elems s) then push x s else s))
    = (if length (elems s) < cap s then insert x (set (elems s)) else set (elems s))"
  using assms by (auto simp: elems_push idx_spec index_of_eq_length_iff)

lemma add_new_distinct:
  assumes "inv s" "distinct (elems s)"
  shows "distinct (elems (if idx x s = length (elems s) then push x s else s))"
  using assms by (auto simp: elems_push idx_spec index_of_eq_length_iff)

lemma add_new_inv: "inv s \<Longrightarrow> inv (if idx x s = length (elems s) then push x s else s)"
  by (simp add: inv_push)

lemma fold_push:
  assumes "inv s" "length (elems s) + length xs \<le> cap s"
  shows "elems (fold push xs s) = elems s @ xs \<and> inv (fold push xs s) \<and> cap (fold push xs s) = cap s"
  using assms
  by (induction xs arbitrary: s) (auto simp: elems_push inv_push cap_push)

end

text \<open>Removal of the element at an index through a swap with the last one.\<close>

locale swap_removal = bounded_store elems cap push idx inv
  for elems :: "'s \<Rightarrow> 'a list" and cap :: "'s \<Rightarrow> nat" and push :: "'a \<Rightarrow> 's \<Rightarrow> 's"
    and idx :: "'a \<Rightarrow> 's \<Rightarrow> nat" and inv :: "'s \<Rightarrow> bool" +
  fixes drop_at :: "nat \<Rightarrow> 's \<Rightarrow> 's"
  assumes elems_drop_at: "inv s \<Longrightarrow> i < length (elems s) \<Longrightarrow>
      elems (drop_at i s) = (let b = length (elems s) - 1 in take b ((elems s)[i := elems s ! b]))"
    and inv_drop_at: "inv s \<Longrightarrow> i < length (elems s) \<Longrightarrow> inv (drop_at i s)"
    and cap_drop_at: "inv s \<Longrightarrow> i < length (elems s) \<Longrightarrow> cap (drop_at i s) = cap s"
begin

lemma set_take_swap:
  assumes "distinct xs" "i < length xs"
  shows "set (take (length xs - 1) (xs[i := xs ! (length xs - 1)])) = set xs - {xs ! i}"
    and "distinct (take (length xs - 1) (xs[i := xs ! (length xs - 1)]))"
proof -
  obtain ys y where xs: "xs = ys @ [y]" using assms(2) by (cases xs rule: rev_cases) auto
  have t: "take (length xs - 1) (xs[i := xs ! (length xs - 1)]) = (if i < length ys then ys[i := y] else ys)"
    using assms(2) xs by (auto simp: list_update_append)
  have n: "xs ! i = (if i < length ys then ys ! i else y)"
    using assms(2) xs by (auto simp: nth_append)
  show "set (take (length xs - 1) (xs[i := xs ! (length xs - 1)])) = set xs - {xs ! i}"
    unfolding t n using assms(1) xs by (auto simp: set_update_distinct)
  show "distinct (take (length xs - 1) (xs[i := xs ! (length xs - 1)]))"
    unfolding t using assms(1) xs by (auto intro!: distinct_list_update)
qed

lemma remove_spec:
  fixes x :: 'a
  assumes "inv s" "distinct (elems s)"
  defines "s' \<equiv> (if idx x s \<noteq> length (elems s) then drop_at (idx x s) s else s)"
  shows "set (elems s') = set (elems s) - {x}" "distinct (elems s')" "inv s'" "cap s' = cap s"
proof -
  have "set (elems s') = set (elems s) - {x} \<and> distinct (elems s') \<and> inv s' \<and> cap s' = cap s"
  proof (cases "x \<in> set (elems s)")
    case True
    from index_of_nth [OF this] have i: "idx x s < length (elems s)" "elems s ! idx x s = x"
      using assms(1) by (simp_all add: idx_spec)
    then have s': "s' = drop_at (idx x s) s" by (simp add: s'_def)
    show ?thesis
      unfolding s' elems_drop_at [OF assms(1) i(1)] Let_def
      using set_take_swap [OF assms(2) i(1)] i assms(1) by (simp add: inv_drop_at cap_drop_at)
  next
    case False
    then have "s' = s" using assms(1) by (simp add: s'_def idx_spec index_of_eq_length_iff)
    with False assms(1,2) show ?thesis by simp
  qed
  then show "set (elems s') = set (elems s) - {x}" "distinct (elems s')" "inv s'" "cap s' = cap s"
    by auto
qed

end

interpretation sv: bounded_store sv_elems sv_capacity sv_push_back sv_find sv_inv
proof unfold_locales
  show "sv_inv s \<Longrightarrow> length (sv_elems s) \<le> sv_capacity s" for s :: "'a static_vector"
    by (simp add: sv_inv_def sv_elems_def sv_capacity_def)
qed (auto simp: sv_elems_push_back sv_inv_push_back sv_find_spec)

interpretation svr: swap_removal sv_elems sv_capacity sv_push_back sv_find sv_inv sv_swap_remove
  by unfold_locales (auto simp: sv_swap_remove_spec)

section \<open>Properties\<close>

lemma sv_inv_new [simp]: "sv_inv (sv_new n x)" "sv_elems (sv_new n x) = []"
    "sv_capacity (sv_new n x) = n"
  by (simp_all add: sv_inv_def sv_new_def sv_elems_def sv_capacity_def)

text \<open>
  Property C38: on vectors whose size is within the capacity, every operation keeps that
  invariant and the capacity, and acts on the list of elements as its name says: \<open>push_back\<close>
  appends while there is room, \<open>erase\<close> drops every occurrence in order, \<open>pop_back\<close> drops the
  last element, \<open>clear\<close> empties.
\<close>

theorem static_vector_operations:
  assumes "sv_inv v"
  shows "sv_inv (sv_push_back x v) \<and> sv_inv (sv_erase x v) \<and> sv_inv (sv_pop_back v) \<and> sv_inv (sv_clear v)
    \<and> sv_elems (sv_push_back x v)
        = (if length (sv_elems v) < sv_capacity v then sv_elems v @ [x] else sv_elems v)
    \<and> sv_elems (sv_erase x v) = filter (\<lambda>y. y \<noteq> x) (sv_elems v)
    \<and> sv_elems (sv_pop_back v) = butlast (sv_elems v) \<and> sv_elems (sv_clear v) = []"
proof -
  have "sv_elems (sv_pop_back v) = butlast (sv_elems v) \<and> sv_inv (sv_pop_back v)"
    using assms
    by (cases "d_size v") (auto simp: sv_elems_def sv_inv_def sv_pop_back_def butlast_take)
  moreover have "sv_elems (sv_clear v) = [] \<and> sv_inv (sv_clear v)"
    by (simp add: sv_elems_def sv_inv_def sv_clear_def)
  ultimately show ?thesis
    using assms by (simp add: sv.elems_push sv.inv_push sv_elems_erase)
qed

theorem static_vector_operations_witness:
  "let v = \<lparr>d_size = 3, d_data = [1, 2, 1, 9 :: nat]\<rparr> in
    sv_inv (sv_push_back 1 v) \<and> sv_inv (sv_erase 1 v) \<and> sv_inv (sv_pop_back v) \<and> sv_inv (sv_clear v)
    \<and> sv_elems (sv_push_back 1 v) = [1, 2, 1, 1] \<and> sv_elems (sv_erase 1 v) = [2]
    \<and> sv_elems (sv_pop_back v) = [1, 2] \<and> sv_elems (sv_clear v) = []"
  using static_vector_operations [of "\<lparr>d_size = 3, d_data = [1, 2, 1, 9 :: nat]\<rparr>" 1]
  by (simp add: sv_inv_def sv_elems_def sv_capacity_def eval_nat_numeral)

text \<open>
  Property C37: \<open>insert\<close> keeps a sorted vector sorted and free of duplicates, and adds the
  element exactly when it is missing and there is room; a full vector keeps its members.
\<close>

theorem sv_insert_sorted_set:
  assumes "sv_inv v" "sorted (sv_elems v)" "distinct (sv_elems v)"
  shows "sv_inv (sv_insert x v) \<and> sorted (sv_elems (sv_insert x v))
    \<and> distinct (sv_elems (sv_insert x v)) \<and> sv_capacity (sv_insert x v) = sv_capacity v
    \<and> set (sv_elems (sv_insert x v))
       = (if length (sv_elems v) < sv_capacity v then insert x (set (sv_elems v)) else set (sv_elems v))"
  using assms sv.add_new_set [OF assms(1), of x] sv.add_new_distinct [OF assms(1,3), of x]
  by (auto simp: sv_insert_def sv_sort_simps sv.inv_push split: if_splits)

theorem sv_insert_sorted_set_witness:
  "let v = \<lparr>d_size = 2, d_data = [3, 5, 0 :: nat]\<rparr> in
    sv_inv (sv_insert 4 v) \<and> sorted (sv_elems (sv_insert 4 v))
    \<and> distinct (sv_elems (sv_insert 4 v)) \<and> sv_capacity (sv_insert 4 v) = 3
    \<and> set (sv_elems (sv_insert 4 v)) = {3, 4, 5}"
  using sv_insert_sorted_set [of "\<lparr>d_size = 2, d_data = [3, 5, 0 :: nat]\<rparr>" 4]
  by (auto simp: sv_inv_def sv_elems_def sv_capacity_def eval_nat_numeral)

end
