(* ===== verification/Parser.thy ===== *)
theory Parser
  imports Multi_Stack
begin

text \<open>
  Reading a printed call stack back: \<open>parseLine\<close> and the two \<open>generateFromString\<close>. A pointer
  into the line is the suffix it points to, so the difference of two pointers is the difference of
  the lengths and the end of the string is the empty suffix.
\<close>

section \<open>String search of the C library\<close>

definition strchr :: "char \<Rightarrow> cstring \<Rightarrow> cstring option" where
  "strchr c s = (let r = dropWhile (\<lambda>x. x \<noteq> c) s in if r = [] then None else Some r)"

fun strstr :: "cstring \<Rightarrow> cstring \<Rightarrow> cstring option" where
  "strstr pat [] = (if pat = [] then Some [] else None)"
| "strstr pat (c # s) = (if prefix pat (c # s) then Some (c # s) else strstr pat s)"

section \<open>parseLine\<close>

text \<open>
  The lambda \<open>copyField\<close>: a bounded \<open>memcpy\<close>, then blanks and zeros at the end, but never the
  first character, become zeros.
\<close>

fun trim_field :: "nat \<Rightarrow> cstring \<Rightarrow> cstring" where
  "trim_field 0 f = f"
| "trim_field (Suc i) f =
     (if f ! Suc i = CHR '' '' \<or> f ! Suc i = NUL then trim_field i (f[Suc i := NUL]) else f)"

definition copyField :: "cstring \<Rightarrow> cstring \<Rightarrow> nat \<Rightarrow> cstring" where
  "copyField p1 p2 n =
     trim_field (n - 1) (memcpy0 (replicate n NUL) p1 (min (length p1 - length p2) n))"

text \<open>
  Where the function (\<open>p4\<close>) and the file (\<open>p5\<close>) start; a null pointer becomes the end of the
  string, \<open>p0\<close>.
\<close>

definition or_end :: "cstring option \<Rightarrow> cstring" where
  "or_end p = (case p of None \<Rightarrow> [] | Some q \<Rightarrow> q)"

definition field_starts :: "cstring \<Rightarrow> cstring \<Rightarrow> cstring option \<times> cstring option" where
  "field_starts p2 p3 =
     (let p4 = map_option skip_spaces (strstr ''  '' p3);
          p5 = (case p4 of None \<Rightarrow> None | Some q \<Rightarrow> map_option skip_spaces (strstr ''  '' q))
      in if p5 = None \<and> 20 < length p2 - length p3 then (Some p3, p4) else (p4, p5))"

definition parse_fields :: "stack_info \<Rightarrow> cstring \<Rightarrow> cstring \<Rightarrow> stack_info" where
  "parse_fields stack p2 p3 =
     (let p4 = or_end (fst (field_starts p2 p3));
          p5 = or_end (snd (field_starts p2 p3));
          p6 = or_end (strchr (CHR '':'') p5)
      in stack\<lparr>si_object := copyField p3 p4 56, si_function := copyField p4 p5 256,
               si_filename := copyField p5 p6 64,
               si_line := (if p6 \<noteq> [] then word_of_int (atoi (tl p6)) else 0)\<rparr>)"

text \<open>
  \<open>tmp\<close> has 1000 characters and must keep a terminator for \<open>strtol\<close>; a colon in front of the
  \<open>x\<close> makes the length negative.
\<close>

definition parseLine :: "cstring \<Rightarrow> stack_info result" where
  "parseLine s =
     (let str = cstr s
      in case (strchr (CHR ''x'') str, strchr (CHR '':'') str) of
           (Some p1, Some p2) \<Rightarrow>
             if length p1 < length p2 + 1 \<or> 1000 \<le> length p1 - length p2 - 1 then Inl OutOfBounds
             else
               let address = word_of_int (strtol (take (length p1 - length p2 - 1) (tl p1)) 16);
                   stack = stack_info_clear\<lparr>si_address := address, si_address2 := address\<rparr>;
                   p3 = skip_spaces (tl p2)
               in if p3 = [] then Inr stack else Inr (parse_fields stack p2 p3)
         | _ \<Rightarrow> Inl NullPointer)"

section \<open>generateFromString\<close>

function split_lines :: "cstring \<Rightarrow> cstring list" where
  "split_lines str =
     (case find_char (CHR 0x0A) str of
        None \<Rightarrow> [str]
      | Some p \<Rightarrow> take p str # split_lines (drop (p + 1) str))"
  by pat_completeness auto
termination
  by (relation "measure length") (auto dest: find_char_SomeD)

declare split_lines.simps [simp del]

text \<open>
  One line: \<open>None\<close> when it has no \<open>x\<close>, otherwise its indentation and its node. The access
  \<open>str[p3 - 1]\<close> is out of range when the line starts with the \<open>x\<close>.
\<close>

definition parse_entry :: "cstring \<Rightarrow> (nat \<times> multi_stack_info) option result" where
  "parse_entry str =
     (let p1 = or_npos (find_char (CHR ''['') str);
          p2 = or_npos (find_char (CHR '']'') str)
      in case find_char (CHR ''x'') str of
           None \<Rightarrow> Inr None
         | Some p3 \<Rightarrow>
             bindR (if p1 < p2 \<and> p1 < p3 then stoi (take (p2 - p1 - 1) (drop (p1 + 1) str)) else Inr 1)
               (\<lambda>n. if p3 = 0 then Inl OutOfBounds
                    else bindR (parseLine (drop (p3 - 1) str))
                           (\<lambda>s. Inr (Some (min p1 (p3 - 1), MSI n s [])))))"

fun parse_entries :: "cstring list \<Rightarrow> (nat \<times> multi_stack_info) list result" where
  "parse_entries [] = Inr []"
| "parse_entries (str # text) =
     bindR (parse_entry str)
       (\<lambda>e. bindR (parse_entries text)
              (\<lambda>es. Inr (case e of None \<Rightarrow> es | Some x \<Rightarrow> x # es)))"

text \<open>
  The hierarchy. \<open>map\<close> is a stack of indentations with pointers to vectors of children; a vector is
  only pushed on while the ones above it have been popped, so every pointer on the stack is
  the vector reached by going to the last child a number of times: its depth.
\<close>

fun push_at :: "nat \<Rightarrow> multi_stack_info \<Rightarrow> multi_stack_info list \<Rightarrow> multi_stack_info list result" where
  "push_at 0 x cs = Inr (cs @ [x])"
| "push_at (Suc d) x cs =
     (if cs = [] then Inl OutOfBounds
      else bindR (push_at d x (ms_children (last cs)))
             (\<lambda>k. Inr (butlast cs @ [MSI (ms_N (last cs)) (ms_stack (last cs)) k])))"

type_synonym levels = "(nat \<times> nat) list"

definition place ::
    "nat \<times> multi_stack_info \<Rightarrow> multi_stack_info list \<times> levels \<Rightarrow> (multi_stack_info list \<times> levels) result" where
  "place e st =
     (case (e, st) of
        ((indent, x), (cs, mp)) \<Rightarrow>
          (case dropWhile (\<lambda>(i, d). indent < i) mp of
             [] \<Rightarrow> Inl OutOfBounds
           | (i, d) # mp' \<Rightarrow>
               if indent = i then bindR (push_at d x cs) (\<lambda>cs'. Inr (cs', (i, d) # mp'))
               else bindR (push_at (Suc d) x cs) (\<lambda>cs'. Inr (cs', (indent, Suc d) # (i, d) # mp'))))"

fun place_all ::
    "(nat \<times> multi_stack_info) list \<Rightarrow> multi_stack_info list \<times> levels \<Rightarrow> (multi_stack_info list \<times> levels) result" where
  "place_all [] st = Inr st"
| "place_all (e # es) st = bindR (place e st) (place_all es)"

definition generateFromLines :: "cstring list \<Rightarrow> multi_stack_info result" where
  "generateFromLines text =
     bindR (parse_entries text)
       (\<lambda>es. bindR (place_all es ([], [(0, 0)]))
               (\<lambda>st. Inr (MSI 0 stack_info_clear (fst st))))"

definition generateFromString :: "cstring \<Rightarrow> multi_stack_info result" where
  "generateFromString str = generateFromLines (split_lines str)"

section \<open>Searching in padded text\<close>

lemma strchr_append: "c \<notin> set u \<Longrightarrow> strchr c (u @ c # v) = Some (c # v)"
  by (induction u) (auto simp: strchr_def)

lemma strchr_none: "c \<notin> set u \<Longrightarrow> strchr c u = None"
  by (auto simp: strchr_def dropWhile_eq_Nil_conv Let_def)

lemma strstr_none: "\<not> sublist pat s \<Longrightarrow> strstr pat s = None"
  by (induction s) (auto simp: sublist_Cons_right)

text \<open>A text without a blank at its ends and without two blanks in a row.\<close>

definition single_spaced :: "cstring \<Rightarrow> bool" where
  "single_spaced s \<longleftrightarrow> s \<noteq> [] \<and> hd s \<noteq> CHR '' '' \<and> last s \<noteq> CHR '' '' \<and> \<not> sublist ''  '' s"

lemma strstr_two_blanks:
  assumes "\<not> sublist ''  '' u" "u = [] \<or> last u \<noteq> CHR '' ''"
  shows "strstr ''  '' (u @ CHR '' '' # CHR '' '' # v) = Some (CHR '' '' # CHR '' '' # v)"
  using assms
proof (induction u)
  case (Cons c u)
  have "\<not> prefix ''  '' ((c # u) @ CHR '' '' # CHR '' '' # v)"
    using Cons.prems by (cases u) (auto simp: sublist_Cons_right)
  with Cons show ?case by (cases "u = []") (auto simp: sublist_Cons_right)
qed simp

lemma skip_spaces_replicate [simp]: "skip_spaces (replicate k (CHR '' '') @ u) = skip_spaces u"
  by (induction k) (auto simp: skip_spaces_def)

lemma skip_spaces_Cons [simp]: "skip_spaces (CHR '' '' # u) = skip_spaces u"
  by (simp add: skip_spaces_def)

lemma skip_spaces_text: "u \<noteq> [] \<Longrightarrow> hd u \<noteq> CHR '' '' \<Longrightarrow> skip_spaces (u @ v) = u @ v"
  by (cases u) (auto simp: skip_spaces_def)

lemma strstr_field:
  assumes "single_spaced u"
  shows "strstr ''  '' (u @ replicate (2 + k) (CHR '' '') @ v) = Some (replicate (2 + k) (CHR '' '') @ v)"
  using strstr_two_blanks [of u "replicate k (CHR '' '') @ v"] assms
  by (simp add: single_spaced_def)

section \<open>copyField\<close>

definition pad_field :: "nat \<Rightarrow> cstring \<Rightarrow> cstring" where
  "pad_field n u = u @ replicate (n - length u) NUL"

lemma trim_field_spec:
  assumes "\<forall>c \<in> set v. c = CHR '' '' \<or> c = NUL" "u \<noteq> []" "last u \<noteq> CHR '' ''" "last u \<noteq> NUL"
  shows "trim_field (length u + length v - 1) (u @ v @ w) = u @ replicate (length v) NUL @ w"
  using assms(1)
proof (induction v arbitrary: w rule: rev_induct)
  case Nil
  show ?case
  proof (cases "length u - 1")
    case (Suc i)
    then have "u ! Suc i = last u" "Suc i < length u" using assms(2) by (simp_all add: last_conv_nth)
    with Suc assms(3,4) show ?thesis
      by (simp add: nth_append)
  qed simp
next
  case (snoc c v)
  obtain l where l: "length u + length v = Suc l" using assms(2) by (cases u) auto
  have upd: "(u @ v @ c # w)[Suc l := NUL] = u @ v @ NUL # w"
    by (simp add: l [symmetric] list_update_append)
  have at: "(u @ v @ c # w) ! Suc l = c"
    by (simp add: l [symmetric] nth_append)
  have "trim_field (length u + length (v @ [c]) - 1) (u @ (v @ [c]) @ w)
      = trim_field (Suc l) (u @ v @ c # w)" using l by simp
  also have "\<dots> = trim_field l (u @ v @ NUL # w)"
    using snoc.prems at upd by simp
  also have "\<dots> = u @ replicate (length v) NUL @ NUL # w"
    using snoc.IH [of "NUL # w"] snoc.prems l by simp
  finally show ?case by (simp add: replicate_append_same [symmetric])
qed

lemma copyField_text:
  assumes "u \<noteq> []" "last u \<noteq> CHR '' ''" "NUL \<notin> set u" "length u < n"
  shows "copyField (u @ replicate k (CHR '' '') @ v) v n = pad_field n u"
proof -
  let ?p = "u @ replicate k (CHR '' '') @ v" and ?m = "min (length u + k) n"
  have m: "min (length ?p - length v) n = ?m" by simp
  have "memcpy0 (replicate n NUL) ?p ?m
      = u @ (replicate (?m - length u) (CHR '' '') @ replicate (n - ?m) NUL) @ []"
    using assms(4) by (auto simp: memcpy0_def min_def)
  moreover have "last u \<noteq> NUL" using assms(1,3) last_in_set by force
  moreover have "n - 1 = length u + length (replicate (?m - length u) (CHR '' '') @ replicate (n - ?m) NUL) - 1"
    using assms(4) by simp
  ultimately have "copyField ?p v n
      = u @ replicate (length (replicate (?m - length u) (CHR '' '') @ replicate (n - ?m) NUL)) NUL @ []"
    unfolding copyField_def m using assms(1,2)
    by (simp only:) (intro trim_field_spec; auto)
  also have "\<dots> = pad_field n u"
    using assms(4) by (simp add: pad_field_def min_def)
  finally show ?thesis .
qed

lemma trim_field_zeros: "i < n \<Longrightarrow> trim_field i (replicate n NUL) = replicate n NUL"
proof (induction i)
  case (Suc i)
  have "(replicate n NUL)[Suc i := NUL] = replicate n NUL"
    using Suc.prems by (metis list_update_id nth_replicate)
  with Suc show ?case by simp
qed simp

lemma copyField_empty: "0 < n \<Longrightarrow> copyField [] [] n = replicate n NUL"
  by (simp add: copyField_def memcpy0_def trim_field_zeros)

section \<open>A printed line reads back\<close>

text \<open>
  What the printed line keeps of a frame: the addresses, the base names, the function and the line.
\<close>

definition norm_info :: "stack_info \<Rightarrow> stack_info" where
  "norm_info s =
     stack_info_clear\<lparr>si_address := si_address s, si_address2 := si_address s,
       si_object := pad_field 56 (basename (si_object s)),
       si_function := pad_field 256 (cstr (si_function s)),
       si_filename := pad_field 64 (basename (si_filename s)), si_line := si_line s\<rparr>"

text \<open>
  The frames whose line is unambiguous: an address below \<open>2 ^ 63\<close>, an object and a function without
  double blanks, and a line number only behind a file name without blanks at its ends and without
  a colon; without a file the object needs three characters, because the parser guesses
  by the width of the gap.
\<close>

definition readable :: "stack_info \<Rightarrow> bool" where
  "readable s \<longleftrightarrow> wf_info s \<and> 0 < unat (si_address s) \<and> unat (si_address s) < 2 ^ 63 \<and>
     single_spaced (basename (si_object s)) \<and> single_spaced (cstr (si_function s)) \<and>
     unat (si_line s) < 2147483648 \<and>
     (if si_filename s ! 0 = NUL then si_line s = 0 \<and> 3 \<le> length (basename (si_object s))
      else single_spaced (basename (si_filename s)) \<and> CHR '':'' \<notin> set (basename (si_filename s)))"

lemma basename_no_NUL: "NUL \<notin> set (basename x)"
  by (simp add: basename_def cstr_no_NUL)

lemma single_spacedD:
  "single_spaced u \<Longrightarrow> u \<noteq> []" "single_spaced u \<Longrightarrow> hd u \<noteq> CHR '' ''"
  "single_spaced u \<Longrightarrow> last u \<noteq> CHR '' ''" "single_spaced u \<Longrightarrow> \<not> sublist ''  '' u"
  by (simp_all add: single_spaced_def)

lemma fmt_s_padded: "\<exists>k. fmt_s (int w) u = replicate k (CHR '' '') @ u \<and> k = w - length u"
  by (simp add: fmt_s_def pad_str_def)

lemma strstr_padded:
  assumes "single_spaced u"
  shows "strstr ''  '' (u @ CHR '' '' # CHR '' '' # replicate k (CHR '' '') @ v)
    = Some (replicate (2 + k) (CHR '' '') @ v)"
  using strstr_field [OF assms, of k v] by simp

lemma terminated_basename_empty: "0 < length x \<Longrightarrow> x ! 0 = NUL \<Longrightarrow> basename x = []"
  by (cases x) (auto simp: basename_def cstr_def)

lemma pad_field_empty: "pad_field n [] = replicate n NUL"
  by (simp add: pad_field_def)

text \<open>The three fields of the text behind the colon.\<close>

lemma parse_fields_print:
  fixes k :: nat
  assumes s: "readable s"
  defines "o' \<equiv> basename (si_object s)" and "f \<equiv> cstr (si_function s)"
  defines "p3 \<equiv> o' @ replicate (2 + k) (CHR '' '') @ f @ print2_tail s"
  defines "p2 \<equiv> CHR '':'' # replicate (2 + (20 - length o')) (CHR '' '') @ p3"
  shows "parse_fields (stack_info_clear\<lparr>si_address := a, si_address2 := a\<rparr>) p2 p3
    = (norm_info s)\<lparr>si_address := a, si_address2 := a\<rparr>"
proof -
  let ?n = "basename (si_filename s)"
  note defs = o'_def f_def
  have wf: "wf_info s" and so: "single_spaced o'" and sf: "single_spaced f"
    using s by (simp_all add: readable_def defs)
  have lens: "length o' < 56" "length f < 256" "length ?n < 64"
    using wf length_basename [of "si_object s"] length_basename [of "si_filename s"]
      length_cstr_less [of "si_function s"]
    by (simp_all add: wf_info_def wf_sizes_def defs)
  have nul: "NUL \<notin> set o'" "NUL \<notin> set f" "NUL \<notin> set ?n"
    by (simp_all add: defs basename_no_NUL cstr_no_NUL)
  have p4: "map_option skip_spaces (strstr ''  '' p3) = Some (f @ print2_tail s)"
    using strstr_field [OF so, of k "f @ print2_tail s"]
      skip_spaces_text [OF single_spacedD(1,2) [OF sf], of "print2_tail s"]
    by (simp add: p3_def)
  have obj: "copyField p3 (f @ print2_tail s) 56 = pad_field 56 o'"
    unfolding p3_def using copyField_text [OF single_spacedD(1,3) [OF so] nul(1) lens(1)] .
  show ?thesis
  proof (cases "si_filename s ! 0 = NUL")
    case True
    then have t: "print2_tail s = []" "3 \<le> length o'" "si_line s = 0"
      using s by (simp_all add: readable_def print2_tail_def defs)
    have n: "?n = []"
      using True wf by (intro terminated_basename_empty) (auto simp: wf_info_def wf_sizes_def)
    have p5: "strstr ''  '' f = None" using sf by (intro strstr_none) (simp add: single_spacedD)
    have gap: "\<not> 20 < length p2 - length p3" using t(2) by (simp add: p2_def)
    have "copyField f [] 256 = pad_field 256 f"
      using copyField_text [OF single_spacedD(1,3) [OF sf] nul(2) lens(2), of 0 "[]"] by simp
    moreover have "field_starts p2 p3 = (Some f, None)"
      using gap unfolding field_starts_def p4 t(1) by (simp add: p5)
    ultimately show ?thesis
      using obj by (simp add: parse_fields_def t n or_end_def strchr_def norm_info_def
          copyField_empty pad_field_empty defs)
  next
    case False
    then have sn: "single_spaced ?n" and colon: "CHR '':'' \<notin> set ?n"
      using s by (simp_all add: readable_def)
    define r where "r = (if si_line s \<noteq> 0 then CHR '':'' # dec_str (unat (si_line s)) else [])"
    have t: "print2_tail s = CHR '' '' # CHR '' '' # ?n @ r"
      using False by (simp add: print2_tail_def r_def)
    have p5: "map_option skip_spaces (strstr ''  '' (f @ print2_tail s)) = Some (?n @ r)"
      using strstr_padded [OF sf, of 0 "?n @ r"] skip_spaces_text [OF single_spacedD(1,2) [OF sn], of r]
        skip_spaces_replicate [of 2 "?n @ r"]
      by (simp add: t)
    have p6: "or_end (strchr (CHR '':'') (?n @ r)) = r"
      using colon by (auto simp: r_def strchr_append strchr_none or_end_def)
    have starts: "field_starts p2 p3 = (Some (f @ print2_tail s), Some (?n @ r))"
      unfolding field_starts_def p4 by (simp add: p5)
    have line: "(if r \<noteq> [] then word_of_int (atoi (tl r)) else 0) = si_line s"
      using s atoi_dec [of "[]" "unat (si_line s)"]
      by (auto simp: r_def stops_def readable_def)
    have "copyField (f @ print2_tail s) (?n @ r) 256 = pad_field 256 f"
      using copyField_text [OF single_spacedD(1,3) [OF sf] nul(2) lens(2), of 2 "?n @ r"]
      by (simp add: t numeral_2_eq_2)
    moreover have "copyField (?n @ r) r 64 = pad_field 64 ?n"
      using copyField_text [OF single_spacedD(1,3) [OF sn] nul(3) lens(3), of 0 r] by simp
    ultimately show ?thesis
      using obj line p6 by (simp add: parse_fields_def starts or_end_def [of "Some _"] norm_info_def defs)
  qed
qed

lemma hex_address_digits:
  "\<exists>k. fmt_0x w (unat a) = replicate k (CHR ''0'') @ hex_str (unat a)" if "0 \<le> w"
  using that by (auto simp: fmt_0x_def pad_str_def)

lemma set_fmt_0x: "0 \<le> w \<Longrightarrow> \<forall>c \<in> set (fmt_0x w n). is_digit 16 c"
  using num_str_digits [of 16 n]
  by (auto simp: fmt_0x_def pad_str_def is_digit_def digit_val_def)

lemma length_fmt_0x: "0 \<le> w \<Longrightarrow> w \<le> 16 \<Longrightarrow> length (fmt_0x w (unat (a :: 64 word))) \<le> 16"
  using length_hex_address [of a] by (simp add: fmt_0x_def)

lemma not_digits:
  "\<not> is_digit 16 (CHR '':'')" "\<not> is_digit 16 (CHR ''x'')" "\<not> is_digit 16 NUL" "\<not> is_digit 16 (CHR 0x0A)"
  "\<not> is_digit 16 (CHR ''['')" "\<not> is_digit 16 (CHR '']'')"
  by (simp_all add: is_digit_def digit_val_def)

lemma digits_no_char:
  assumes "\<forall>c \<in> set u. is_digit 16 c"
  shows "CHR '':'' \<notin> set u" "CHR ''x'' \<notin> set u" "NUL \<notin> set u" "CHR 0x0A \<notin> set u"
    "CHR ''['' \<notin> set u" "CHR '']'' \<notin> set u"
  using bspec [OF assms] not_digits by blast+

lemma print2_tail_no_NUL: "NUL \<notin> set (print2_tail s)"
proof -
  have "\<forall>c \<in> set (dec_str (unat (si_line s))). is_digit 10 c" by (intro num_str_digits) simp_all
  then have "NUL \<notin> set (dec_str (unat (si_line s)))" using digit_chars_plain by fastforce
  then show ?thesis by (simp add: print2_tail_def basename_no_NUL)
qed

lemma print2_no_NUL: "0 \<le> w1 \<Longrightarrow> NUL \<notin> set (print2 s w1 w2 w3)"
  using print2_tail_no_NUL [of s] digits_no_char(3) [OF set_fmt_0x, of w1 "unat (si_address s)"]
  by (auto simp: print2_def fmt_s_def pad_str_def basename_no_NUL cstr_no_NUL split: if_splits)

lemma parseLine_printed:
  assumes "readable s" "0 \<le> w1" "w1 \<le> 16"
  shows "parseLine (print2 s w1 20 (int w3)) = Inr (norm_info s)"
proof -
  define o' where "o' = basename (si_object s)"
  define f where "f = cstr (si_function s)"
  define h where "h = fmt_0x w1 (unat (si_address s))"
  define k where "k = w3 - length f"
  define p3 where "p3 = o' @ replicate (2 + k) (CHR '' '') @ f @ print2_tail s"
  define p2 where "p2 = CHR '':'' # replicate (2 + (20 - length o')) (CHR '' '') @ p3"
  have line: "print2 s w1 20 (int w3) = CHR ''0'' # CHR ''x'' # h @ p2"
    by (simp add: print2_def p2_def p3_def h_def o'_def f_def k_def fmt_s_def pad_str_def
        eval_nat_numeral)
  have plain: "cstr (print2 s w1 20 (int w3)) = print2 s w1 20 (int w3)"
    using assms(2) by (intro cstr_eq_self print2_no_NUL)
  have hd: "\<forall>c \<in> set h. is_digit 16 c" unfolding h_def by (rule set_fmt_0x [OF assms(2)])
  have x: "strchr (CHR ''x'') (CHR ''0'' # CHR ''x'' # h @ p2) = Some (CHR ''x'' # h @ p2)"
    using strchr_append [of "CHR ''x''" "''0''" "h @ p2"] by simp
  have c: "strchr (CHR '':'') (CHR ''0'' # CHR ''x'' # h @ p2) = Some p2"
    using strchr_append [of "CHR '':''" "CHR ''0'' # CHR ''x'' # h" "tl p2"]
      digits_no_char(1) [OF hd] by (simp add: p2_def)
  have short: "length h \<le> 16" unfolding h_def by (rule length_fmt_0x [OF assms(2,3)])
  have so: "single_spaced o'" using assms(1) by (simp add: readable_def o'_def)
  have skip: "skip_spaces (tl p2) = p3"
    using skip_spaces_text [OF single_spacedD(1,2) [OF so]]
    by (simp add: p2_def p3_def)
  have ne: "p3 \<noteq> []" using single_spacedD(1) [OF so] by (simp add: p3_def)
  have addr: "word_of_int (strtol h 16) = si_address s"
  proof -
    obtain z where "h = replicate z (CHR ''0'') @ hex_str (unat (si_address s))"
      using hex_address_digits [OF assms(2)] unfolding h_def by blast
    moreover have "int (unat (si_address s)) \<le> LONG_MAX"
    proof -
      have "unat (si_address s) < 9223372036854775808" using assms(1) by (simp add: readable_def)
      then show ?thesis unfolding LONG_MAX_def by linarith
    qed
    ultimately have "strtol h 16 = int (unat (si_address s))" by (simp only: strtol_hex min.absorb2)
    then show ?thesis by simp
  qed
  have "parse_fields (stack_info_clear\<lparr>si_address := si_address s, si_address2 := si_address s\<rparr>) p2 p3
      = norm_info s"
    using parse_fields_print [OF assms(1), where k = k and a = "si_address s"]
    unfolding p2_def p3_def o'_def f_def by (simp add: norm_info_def)
  then show ?thesis
    unfolding parseLine_def plain unfolding line
    using x c skip ne addr short by (simp add: Let_def)
qed

text \<open>
  The line printed for a readable frame, with an address width of at most 16 and
  the object column of 20, parses back to the frame: address, base names, function and line,
  with the relative address set to the absolute one and the directories dropped.
\<close>

lemma parseLine_print:
  assumes "readable s" "0 \<le> w1" "w1 \<le> 16"
  shows "parseLine (print2 s w1 20 (int w3)) = Inr (norm_info s)"
  by (rule parseLine_printed [OF assms])

text \<open>A frame with all its fields, for concrete examples.\<close>

definition example_frame :: stack_info where
  "example_frame = stack_info_clear\<lparr>si_address := 0x5616ca6e028a, si_address2 := 0x28a,
     si_object := pad_field 56 ''/usr/bin/gen'', si_function := pad_field 256 ''run(int, char)'',
     si_filename := pad_field 64 ''main.cpp'', si_line := 42\<rparr>"

lemma example_frame_names:
  "basename (si_object example_frame) = ''gen''" "cstr (si_function example_frame) = ''run(int, char)''"
  "basename (si_filename example_frame) = ''main.cpp''" "si_filename example_frame ! 0 = CHR ''m''"
  by (simp_all add: example_frame_def pad_field_def basename_def cstr_def is_sep_def
      eval_nat_numeral)

lemma readable_example: "readable example_frame"
  unfolding readable_def example_frame_names
  by (simp add: wf_info_def wf_sizes_def terminated_def single_spaced_def sublist_code)
     (simp add: example_frame_def stack_info_clear_def pad_field_def)

section \<open>One printed node\<close>

lemma find_char_skip: "c \<notin> set u \<Longrightarrow> find_char c (u @ v) = map_option ((+) (length u)) (find_char c v)"
proof (induction u)
  case Nil
  show ?case by (cases "find_char c v") (simp_all del: find_char_None_iff)
next
  case (Cons a u)
  then show ?case by (cases "find_char c v") (auto simp del: find_char_None_iff)
qed

lemma dec_str_no_char:
  "CHR ''['' \<notin> set (dec_str n)" "CHR '']'' \<notin> set (dec_str n)" "CHR ''x'' \<notin> set (dec_str n)"
  "CHR 0x0A \<notin> set (dec_str n)"
proof -
  have "is_digit 16 c" if "is_digit 10 c" for c
    using that by (auto simp: is_digit_def digit_val_def Let_def split: if_splits)
  then have "\<forall>c \<in> set (dec_str n). is_digit 16 c" using num_str_digits [of 10 n] by auto
  from digits_no_char [OF this]
  show "CHR ''['' \<notin> set (dec_str n)" "CHR '']'' \<notin> set (dec_str n)" "CHR ''x'' \<notin> set (dec_str n)"
    "CHR 0x0A \<notin> set (dec_str n)" by simp_all
qed

text \<open>The prefixes of the printer consist of blanks and bars.\<close>

definition is_prefix_text :: "cstring \<Rightarrow> bool" where
  "is_prefix_text pre \<longleftrightarrow> set pre \<subseteq> {CHR '' '', CHR ''|''}"

lemma is_prefix_textD:
  assumes "is_prefix_text pre"
  shows "CHR ''['' \<notin> set pre" "CHR '']'' \<notin> set pre" "CHR ''x'' \<notin> set pre" "CHR 0x0A \<notin> set pre"
  using assms by (auto simp: is_prefix_text_def)

lemma parse_entry_print:
  assumes pre: "is_prefix_text pre" and n: "0 \<le> n" "n \<le> 2147483647"
    and s: "readable s" and w: "0 \<le> w0" "w0 \<le> 16"
  shows "parse_entry (ms_line pre (w0, 20, int w2) (MSI n s cs)) = Inr (Some (length pre, MSI n (norm_info s) []))"
proof -
  define num where "num = dec_str (nat n)"
  define body where "body = print2 s w0 20 (int w2)"
  define rest where "rest = num @ '']'' @ '' '' @ body"
  have line: "ms_line pre (w0, 20, int w2) (MSI n s cs) = pre @ ''['' @ rest"
    using n by (simp add: ms_line_def int_str_def num_def body_def rest_def)
  obtain b where body: "body = CHR ''0'' # CHR ''x'' # b" by (simp add: body_def print2_def)
  note nums = dec_str_no_char [of "nat n", folded num_def]
  have p1: "find_char (CHR ''['') (pre @ ''['' @ rest) = Some (length pre)"
    using find_char_notin [OF is_prefix_textD(1) [OF pre]] by simp
  have p2: "find_char (CHR '']'') (pre @ ''['' @ rest) = Some (length pre + 1 + length num)"
    using is_prefix_textD(2) [OF pre] nums
    by (simp add: rest_def find_char_skip)
  have p3: "find_char (CHR ''x'') (pre @ ''['' @ rest) = Some (length pre + length num + 4)"
    using is_prefix_textD(3) [OF pre] nums body
    by (simp add: rest_def find_char_skip)
  have sub: "take (length num) (drop (length pre + 1) (pre @ ''['' @ rest)) = num"
    by (simp add: rest_def)
  have at: "drop (length pre + length num + 3) (pre @ ''['' @ rest) = body"
    by (simp add: rest_def eval_nat_numeral)
  have idx: "length pre + length num + 4 - 1 = length pre + length num + 3"
    "length pre + 1 + length num - length pre - 1 = length num" by simp_all
  have "stoi num = Inr n"
    using stoi_dec [of "[]" "nat n"] n by (simp add: num_def stops_def)
  moreover have "parseLine body = Inr (norm_info s)"
    unfolding body_def by (rule parseLine_printed [OF s w])
  ultimately show ?thesis
    unfolding line parse_entry_def p1 p2 p3 Let_def or_npos_simps option.case idx at sub by simp
qed

section \<open>The hierarchy from its preorder\<close>

text \<open>The entries of a tree as the printer lists them, each level indented by two.\<close>

fun tree_entries :: "nat \<Rightarrow> multi_stack_info \<Rightarrow> (nat \<times> multi_stack_info) list" where
  "tree_entries d (MSI n s cs) = (d, MSI n s []) # concat (map (tree_entries (d + 2)) cs)"

text \<open>Appending trees to the vector at a depth of the right spine, and when there is one.\<close>

fun append_at :: "nat \<Rightarrow> multi_stack_info list \<Rightarrow> multi_stack_info list \<Rightarrow> multi_stack_info list" where
  "append_at 0 ts cs = cs @ ts"
| "append_at (Suc d) ts cs =
     butlast cs @ [MSI (ms_N (last cs)) (ms_stack (last cs)) (append_at d ts (ms_children (last cs)))]"

fun spine_ok :: "nat \<Rightarrow> multi_stack_info list \<Rightarrow> bool" where
  "spine_ok 0 cs = True"
| "spine_ok (Suc d) cs \<longleftrightarrow> cs \<noteq> [] \<and> spine_ok d (ms_children (last cs))"

lemma push_at_append: "spine_ok d cs \<Longrightarrow> push_at d x cs = Inr (append_at d [x] cs)"
  by (induction d x cs rule: push_at.induct) auto

lemma append_at_append: "append_at d us (append_at d ts cs) = append_at d (ts @ us) cs"
  by (induction d ts cs rule: append_at.induct) auto

lemma append_at_Nil: "spine_ok d cs \<Longrightarrow> append_at d [] cs = cs"
proof (induction d arbitrary: cs)
  case (Suc d)
  then show ?case by (cases "last cs") (auto simp: snoc_eq_iff_butlast)
qed simp

lemma spine_ok_append: "spine_ok d cs \<Longrightarrow> spine_ok d (append_at d ts cs)"
  by (induction d ts cs rule: append_at.induct) auto

lemma spine_ok_Suc_append: "spine_ok d cs \<Longrightarrow> spine_ok (Suc d) (append_at d [x] cs)"
  by (induction d "[x]" cs rule: append_at.induct) auto

lemma append_at_Suc:
  "spine_ok d cs \<Longrightarrow> append_at (Suc d) ts (append_at d [MSI n s us] cs) = append_at d [MSI n s (us @ ts)] cs"
  by (induction d ts cs rule: append_at.induct) auto

text \<open>States that differ only in levels that the next, shallower line pops.\<close>

definition deeper :: "nat \<Rightarrow> levels \<Rightarrow> bool" where
  "deeper d E \<longleftrightarrow> (\<forall>p \<in> set E. d < fst p)"

lemma place_pops:
  assumes "deeper d E" "spine_ok k cs"
  shows "place (d, x) (cs, E @ (d, k) # M) = Inr (append_at k [x] cs, (d, k) # M)"
proof -
  have "dropWhile (\<lambda>(i, j). d < i) (E @ (d, k) # M) = (d, k) # M"
    using assms(1) by (subst dropWhile_append2) (auto simp: deeper_def)
  then show ?thesis using assms(2) by (simp add: place_def push_at_append)
qed

lemma place_opens:
  assumes "d < d2"
  shows "place (d2, x) (cs, (d, k) # M) = place (d2, x) (cs, (d2, Suc k) # (d, k) # M)"
  using assms by (simp add: place_def)

lemma place_all_append: "place_all (es @ fs) st = bindR (place_all es st) (place_all fs)"
proof (induction es arbitrary: st)
  case (Cons e es)
  then have "place_all (es @ fs) = (\<lambda>st. bindR (place_all es st) (place_all fs))"
    by (rule ext)
  then show ?case by (simp add: bindR_assoc)
qed simp

text \<open>
  The main lemma, for a forest at one level: it is appended to the vector of that level, and only
  deeper levels are left above it.
\<close>

lemma place_all_forest:
  assumes trees: "\<And>t cs E. t \<in> set F \<Longrightarrow> spine_ok k cs \<Longrightarrow> deeper d E \<Longrightarrow>
      \<exists>E'. deeper d E' \<and> place_all (tree_entries d t) (cs, E @ (d, k) # M)
        = Inr (append_at k [t] cs, E' @ (d, k) # M)"
    and "spine_ok k cs" "deeper d E"
  shows "\<exists>E'. deeper d E' \<and> place_all (concat (map (tree_entries d) F)) (cs, E @ (d, k) # M)
        = Inr (append_at k F cs, E' @ (d, k) # M)"
  using assms
proof (induction F arbitrary: cs E)
  case Nil
  then show ?case by (auto simp: append_at_Nil)
next
  case (Cons t F)
  from Cons.prems(1) [OF _ Cons.prems(2,3), of t] obtain E1 where E1: "deeper d E1"
    and t: "place_all (tree_entries d t) (cs, E @ (d, k) # M) = Inr (append_at k [t] cs, E1 @ (d, k) # M)"
    by auto
  from Cons.IH [of "append_at k [t] cs" E1] Cons.prems(1,2) E1 obtain E2 where
    "deeper d E2" "place_all (concat (map (tree_entries d) F)) (append_at k [t] cs, E1 @ (d, k) # M)
        = Inr (append_at k F (append_at k [t] cs), E2 @ (d, k) # M)"
    by (auto simp: spine_ok_append)
  with t show ?case by (auto simp: place_all_append append_at_append)
qed

lemma place_all_opens:
  assumes "es \<noteq> []" "fst (hd es) = d2" "d < d2"
  shows "place_all es (cs, (d, k) # M) = place_all es (cs, (d2, Suc k) # (d, k) # M)"
  using assms place_opens [of d d2 "snd (hd es)" cs k M] by (cases es) auto

lemma tree_entries_head: "tree_entries d t \<noteq> []" "fst (hd (tree_entries d t)) = d"
  by (cases t; simp)+

lemma place_all_tree:
  assumes "spine_ok k cs" "deeper d E"
  shows "\<exists>E'. deeper d E' \<and> place_all (tree_entries d t) (cs, E @ (d, k) # M)
        = Inr (append_at k [t] cs, E' @ (d, k) # M)"
  using assms
proof (induction t arbitrary: d k cs E M)
  case (MSI n s ts)
  let ?cs1 = "append_at k [MSI n s []] cs"
  have first: "place (d, MSI n s []) (cs, E @ (d, k) # M) = Inr (?cs1, (d, k) # M)"
    by (rule place_pops [OF MSI.prems(2,1)])
  show ?case
  proof (cases ts)
    case Nil
    then show ?thesis using first by (intro exI [of _ "[]"]) (simp add: deeper_def)
  next
    case (Cons u us)
    let ?es = "concat (map (tree_entries (d + 2)) ts)"
    have "spine_ok (Suc k) ?cs1" using MSI.prems(1) by (rule spine_ok_Suc_append)
    then obtain E' where E': "deeper (d + 2) E'"
      and kids: "place_all ?es (?cs1, [] @ (d + 2, Suc k) # (d, k) # M)
        = Inr (append_at (Suc k) ts ?cs1, E' @ (d + 2, Suc k) # (d, k) # M)"
      using place_all_forest [of ts "Suc k" "d + 2" "(d, k) # M" ?cs1 "[]", OF MSI.IH]
      by (auto simp: deeper_def)
    have "place_all ?es (?cs1, (d, k) # M) = place_all ?es (?cs1, (d + 2, Suc k) # (d, k) # M)"
      using tree_entries_head [of "d + 2" u] Cons by (intro place_all_opens) auto
    then have "place_all (tree_entries d (MSI n s ts)) (cs, E @ (d, k) # M)
        = Inr (append_at k [MSI n s ts] cs, (E' @ [(d + 2, Suc k)]) @ (d, k) # M)"
      using first kids append_at_Suc [OF MSI.prems(1), of ts n s "[]"] by simp
    moreover have "deeper d (E' @ [(d + 2, Suc k)])"
      using E' by (auto simp: deeper_def)
    ultimately show ?thesis by blast
  qed
qed

lemma place_all_listing:
  "\<exists>mp. place_all (concat (map (tree_entries 0) F)) ([], [(0, 0)]) = Inr (F, mp)"
proof -
  have "\<exists>E'. deeper 0 E' \<and> place_all (concat (map (tree_entries 0) F)) ([], [] @ (0, 0) # [])
        = Inr (append_at 0 F [], E' @ (0, 0) # [])"
    by (rule place_all_forest [OF place_all_tree]) (simp_all add: deeper_def)
  then show ?thesis by auto
qed

text \<open>
  The indentations of a preorder listing determine the hierarchy: placing the listed
  nodes of a forest one by one rebuilds exactly that forest, and never dereferences a missing level
  or a missing child.
\<close>

lemma place_all_rebuilds:
  "\<exists>mp. place_all (concat (map (tree_entries 0) F)) ([], [(0, 0)]) = Inr (F, mp)"
  by (rule place_all_listing)

section \<open>The round trip of a whole tree\<close>

fun norm_tree :: "multi_stack_info \<Rightarrow> multi_stack_info" where
  "norm_tree (MSI n s cs) = MSI n (norm_info s) (map norm_tree cs)"

definition one_line :: "stack_info \<Rightarrow> bool" where
  "one_line s \<longleftrightarrow> CHR 0x0A \<notin> set (basename (si_object s)) \<and> CHR 0x0A \<notin> set (cstr (si_function s))
     \<and> CHR 0x0A \<notin> set (basename (si_filename s))"

definition readable_node :: "int \<Rightarrow> stack_info \<Rightarrow> bool" where
  "readable_node n s \<longleftrightarrow> 0 \<le> n \<and> n \<le> 2147483647 \<and> readable s \<and> one_line s"

lemma print2_one_line:
  assumes "one_line s" "0 \<le> w1" "0 \<le> w2" "0 \<le> w3"
  shows "CHR 0x0A \<notin> set (print2 s w1 w2 w3)"
  using assms digits_no_char(4) [OF set_fmt_0x [OF assms(2)]] dec_str_no_char(4)
  by (auto simp: print2_def fmt_s_def pad_str_def print2_tail_def one_line_def)

lemma ms_line_one_line:
  assumes "is_prefix_text pre" "readable_node n s" "0 \<le> w0"
  shows "CHR 0x0A \<notin> set (ms_line pre (w0, 20, int w2) (MSI n s cs))"
  using assms print2_one_line [of s w0 20 "int w2"] is_prefix_textD(4) [OF assms(1)] dec_str_no_char(4)
  by (auto simp: ms_line_def readable_node_def int_str_def)

lemma parse_entries_append:
  "parse_entries (a @ b) = bindR (parse_entries a) (\<lambda>x. bindR (parse_entries b) (\<lambda>y. Inr (x @ y)))"
proof (induction a)
  case Nil
  show ?case by (cases "parse_entries b") auto
next
  case (Cons l a)
  then show ?case
    by (cases "parse_entry l"; cases "parse_entries a"; cases "parse_entries b")
       (auto split: option.splits)
qed

lemma is_prefix_text_more: "is_prefix_text pre \<Longrightarrow> is_prefix_text (pre @ (if c then ''| '' else ''  ''))"
  by (auto simp: is_prefix_text_def)

lemma print_parse_entries:
  "w = (w0, 20, int w2) \<Longrightarrow> 0 \<le> w0 \<Longrightarrow> w0 \<le> 16 \<Longrightarrow> is_prefix_text pre \<Longrightarrow> ms_all readable_node t \<Longrightarrow>
    ms_print2 pre w c t = Inr ls \<Longrightarrow>
    parse_entries ls = Inr (tree_entries (length pre) (norm_tree t)) \<and> (\<forall>l \<in> set ls. CHR 0x0A \<notin> set l)"
  "w = (w0, 20, int w2) \<Longrightarrow> 0 \<le> w0 \<Longrightarrow> w0 \<le> 16 \<Longrightarrow> is_prefix_text pre \<Longrightarrow> \<forall>t \<in> set cs. ms_all readable_node t \<Longrightarrow>
    ms_print2_children pre w b cs = Inr ls \<Longrightarrow>
    parse_entries ls = Inr (concat (map (\<lambda>t. tree_entries (length pre) (norm_tree t)) cs))
      \<and> (\<forall>l \<in> set ls. CHR 0x0A \<notin> set l)"
proof (induction pre w c t and pre w b cs arbitrary: ls and ls rule: ms_print2_ms_print2_children.induct)
  case (1 pre w c n s cs)
  have node: "readable_node n s" and kids: "\<forall>t \<in> set cs. ms_all readable_node t"
    using 1(7) by simp_all
  then have rs: "readable s" "0 \<le> n" "n \<le> 2147483647" by (simp_all add: readable_node_def)
  then have adr: "si_address s \<noteq> 0" by (auto simp: readable_def)
  let ?pre = "pre @ (if c then ''| '' else ''  '')" and ?line = "ms_line pre w (MSI n s cs)"
  have fits: "\<not> (1024 \<le> length pre + 1 \<or> 4096 \<le> length ?line)"
    using 1(8) adr by (auto split: if_splits)
  then obtain rest where rest: "ms_print2_children ?pre w True cs = Inr rest" and ls: "ls = ?line # rest"
    using 1(8) adr by (auto simp: bindR_Inr_iff split: if_splits)
  have IH: "parse_entries rest = Inr (concat (map (\<lambda>t. tree_entries (length ?pre) (norm_tree t)) cs))"
    "\<forall>l \<in> set rest. CHR 0x0A \<notin> set l"
    using 1(1) [OF adr fits 1(3-5) is_prefix_text_more [OF 1(6)] kids rest] by simp_all
  have "parse_entry ?line = Inr (Some (length pre, MSI n (norm_info s) []))"
    unfolding 1(3) by (rule parse_entry_print [OF 1(6) rs(2,3,1) 1(4,5)])
  moreover have "CHR 0x0A \<notin> set ?line"
    unfolding 1(3) by (rule ms_line_one_line [OF 1(6) node 1(4)])
  ultimately show ?case
    using IH by (simp add: ls comp_def)
next
  case (2 pre w b)
  then show ?case by simp
next
  case (3 pre w b x xs)
  then obtain l1 l2 where l: "ms_print2 pre w (xs \<noteq> [] \<and> b) x = Inr l1"
    "ms_print2_children pre w b xs = Inr l2" "ls = l1 @ l2"
    by (auto simp: bindR_Inr_iff)
  from 3(1) [OF 3(3-6) _ l(1)] 3(2) [OF 3(3-6) _ l(2)] 3(7) l(3) show ?case
    by (simp add: parse_entries_append) blast
qed

lemma split_lines_line: "CHR 0x0A \<notin> set l \<Longrightarrow> split_lines (l @ CHR 0x0A # rest) = l # split_lines rest"
  by (subst split_lines.simps) (simp add: find_char_notin)

lemma split_lines_concat:
  "\<forall>l \<in> set ls. CHR 0x0A \<notin> set l \<Longrightarrow> split_lines (concat (map (\<lambda>l. l @ [CHR 0x0A]) ls)) = ls @ [[]]"
proof (induction ls)
  case Nil
  show ?case by (simp add: split_lines.simps [of "[]"])
next
  case (Cons l ls)
  then show ?case by (simp add: split_lines_line)
qed

lemma parse_entries_trailing: "parse_entries (ls @ [[]]) = parse_entries ls"
  by (cases "parse_entries ls") (simp_all add: parse_entries_append parse_entry_def)

text \<open>
  Property C13: the text that the library prints for a multi-threaded call stack can be loaded back.
  For a tree of readable frames that fits the printer, printing succeeds and
  \<open>generateFromString\<close> rebuilds the tree: every node with its count, its children in order, and
  the printed part of its frame.
\<close>

theorem print_parse_roundtrip:
  assumes "\<forall>t \<in> set cs. ms_all readable_node t" "\<forall>t \<in> set cs. ms_levels t \<le> 512"
  shows "\<exists>str. ms_printString (MSI 0 stack_info_clear cs) [] = Inr str
    \<and> generateFromString str = Inr (MSI 0 stack_info_clear (map norm_tree cs))"
proof -
  let ?t = "MSI 0 stack_info_clear cs"
  have all: "ms_all (\<lambda>n s. int_range n \<and> wf_info s) t" if "t \<in> set cs" for t
    using bspec [OF assms(1) that]
    by (rule ms_all_mono) (simp add: readable_node_def readable_def int_range_def)
  then have pr: "ms_printable ?t" by (simp add: ms_printable_def int_range_def)
  have "ms_all (\<lambda>n s. wf_sizes s) ?t"
    using pr unfolding ms_printable_def by (rule ms_all_mono) (simp add: wf_info_def)
  note w = ms_widths_constant [OF this]
  have "ms_levels ?t \<le> 512"
    using assms(2) by (simp add: stack_info_clear_def foldr_max_le_iff)
  then obtain ls where ls: "ms_print ?t [] = Inr ls"
    using ms_print_returns [OF pr, of "[]"] by (auto simp: returns_iff)
  let ?a = "ms_getAddressWidth ?t"
  have kids: "ms_print2_children [] (?a, 20, int 40) False cs = Inr ls"
    using ls w by (simp add: ms_print_def stack_info_clear_def)
  have a: "0 \<le> ?a" "?a \<le> 16" using ms_addressWidth_range [of ?t] by auto
  from print_parse_entries(2) [OF refl a _ assms(1) kids]
  have entries: "parse_entries ls = Inr (concat (map (tree_entries 0) (map norm_tree cs)))"
    and nl: "\<forall>l \<in> set ls. CHR 0x0A \<notin> set l"
    by (simp_all add: is_prefix_text_def comp_def)
  obtain mp where "place_all (concat (map (tree_entries 0) (map norm_tree cs))) ([], [(0, 0)])
      = Inr (map norm_tree cs, mp)"
    using place_all_listing by blast
  then have "generateFromLines (ls @ [[]]) = Inr (MSI 0 stack_info_clear (map norm_tree cs))"
    by (simp add: generateFromLines_def parse_entries_trailing entries)
  then show ?thesis
    using ls by (simp add: ms_printString_def generateFromString_def split_lines_concat [OF nl])
qed

theorem print_parse_roundtrip_witness:
  "\<exists>str. ms_printString (MSI 0 stack_info_clear [MSI 2 example_frame [MSI 1 example_frame []]]) [] = Inr str
    \<and> generateFromString str
      = Inr (MSI 0 stack_info_clear [MSI 2 (norm_info example_frame) [MSI 1 (norm_info example_frame) []]])"
proof -
  have "one_line example_frame" by (simp add: one_line_def example_frame_names)
  moreover have "si_address example_frame \<noteq> 0" by (simp add: example_frame_def)
  ultimately show ?thesis
    using print_parse_roundtrip [of "[MSI 2 example_frame [MSI 1 example_frame []]]"] readable_example
    by (simp add: readable_node_def)
qed

end
