(* ===== verification/Function_Names.thy ===== *)
theory Function_Names
  imports CStrings
begin

text \<open>
  \<open>cleanupFunctionName\<close> of \<open>StackTrace.cpp\<close>: the in-place abbreviation of demangled C++ names by
  a long series of \<open>strrep\<close> calls and four hand-written searches. The state is the buffer and the
  current length \<open>N\<close>. The result says which of its accesses can leave the buffer.
\<close>

section \<open>Definitions\<close>

text \<open>\<open>find( str, pos )\<close>: making the view \<open>string_view( function, N )\<close> needs \<open>N\<close> characters.\<close>

definition view_find :: "cstring \<Rightarrow> cstring \<times> nat \<Rightarrow> nat \<Rightarrow> nat result" where
  "view_find s st pos =
     (if length (fst st) < snd st then Inl OutOfBounds
      else Inr (or_npos (find_from s (take (snd st) (fst st)) pos)))"

text \<open>\<open>findMatching\<close>; \<open>count\<close> starts at 1 for the bracket that is already open.\<close>

function match_loop :: "cstring \<Rightarrow> nat \<Rightarrow> nat \<Rightarrow> int \<Rightarrow> nat result" where
  "match_loop str N pos2 count =
     (if count \<noteq> 0 \<and> pos2 < N then
        if length str \<le> pos2 then Inl OutOfBounds
        else match_loop str N (Suc pos2)
               (if str ! pos2 = CHR ''<'' then count + 1
                else if str ! pos2 = CHR ''>'' then count - 1 else count)
      else Inr pos2)"
  by pat_completeness auto
termination
  by (relation "measure (\<lambda>(str, N, pos2, count). N - pos2)") auto

declare match_loop.simps [simp del]

definition findMatching :: "cstring \<Rightarrow> nat \<Rightarrow> nat \<Rightarrow> nat result" where
  "findMatching str N pos = match_loop str N (pos + 1) 1"

text \<open>\<open>strncmp( a, b, n ) == 0\<close>: the comparison ends at the first difference and at a NUL.\<close>

fun strncmp_eq :: "cstring \<Rightarrow> cstring \<Rightarrow> nat \<Rightarrow> bool" where
  "strncmp_eq a b 0 = True"
| "strncmp_eq a b (Suc n) =
     ((case a of [] \<Rightarrow> NUL | c # _ \<Rightarrow> c) = (case b of [] \<Rightarrow> NUL | d # _ \<Rightarrow> d)
      \<and> ((case b of [] \<Rightarrow> NUL | d # _ \<Rightarrow> d) = NUL \<or> strncmp_eq (tl a) (tl b) n))"

text \<open>A series of \<open>strrep\<close> calls, and one that is guarded by the presence of a marker.\<close>

fun strreps :: "(cstring \<times> cstring) list \<Rightarrow> cstring \<times> nat \<Rightarrow> (cstring \<times> nat) result" where
  "strreps [] st = Inr st"
| "strreps ((s, r) # ps) st = bindR (call_strrep s r st) (strreps ps)"

definition guarded_strreps ::
    "cstring \<Rightarrow> (cstring \<times> cstring) list \<Rightarrow> cstring \<times> nat \<Rightarrow> (cstring \<times> nat) result" where
  "guarded_strreps marker ps st =
     bindR (view_find marker st 0) (\<lambda>p. if p \<noteq> npos then strreps ps st else Inr st)"

definition space_table :: "(cstring \<times> cstring) list" where
  "space_table =
    [('' >'', ''>''),
     (''< '', ''<''),
     (''std::__1::'', ''std::'')]"

definition ratio_table :: "(cstring \<times> cstring) list" where
  "ratio_table =
    [(''std::ratio<1l, 1000000000000000000000000l>'', ''std::yocto''),
     (''std::ratio<1l, 1000000000000000000000l>'', ''std::zepto''),
     (''std::ratio<1l, 1000000000000000000l>'', ''std::atto''),
     (''std::ratio<1l, 1000000000000000l>'', ''std::femto''),
     (''std::ratio<1l, 1000000000000l>'', ''std::pico''),
     (''std::ratio<1l, 1000000000l>'', ''std::nano''),
     (''std::ratio<1l, 1000000l>'', ''std::micro''),
     (''std::ratio<1l, 1000l>'', ''std::milli''),
     (''std::ratio<1l, 100l>'', ''std::centi''),
     (''std::ratio<1l, 10l>'', ''std::deci''),
     (''std::ratio<1l, 1l>'', ''''),
     (''std::ratio<10l, 1l>'', ''std::deca''),
     (''std::ratio<60l, 1l>'', ''std::ratio<60>''),
     (''std::ratio<100l, 1l>'', ''std::hecto''),
     (''std::ratio<1000l, 1l>'', ''std::kilo''),
     (''std::ratio<3600l, 1l>'', ''std::ratio<3600>''),
     (''std::ratio<1000000l, 1l>'', ''std::mega''),
     (''std::ratio<1000000000l, 1l>'', ''std::giga''),
     (''std::ratio<1000000000000l, 1l>'', ''std::tera''),
     (''std::ratio<1000000000000000l, 1l>'', ''std::peta''),
     (''std::ratio<1000000000000000000l, 1l>'', ''std::exa''),
     (''std::ratio<1000000000000000000000l, 1l>'', ''std::zetta''),
     (''std::ratio<1000000000000000000000000l, 1l>'', ''std::yotta''),
     ('' >'', ''>''),
     (''< '', ''<'')]"

definition duration_table :: "(cstring \<times> cstring) list" where
  "duration_table =
    [(''std::chrono::duration<long, std::nano>'', ''std::chrono::nanoseconds''),
     (''std::chrono::duration<long, std::micro>'', ''std::chrono::microseconds''),
     (''std::chrono::duration<long, std::milli>'', ''std::chrono::milliseconds''),
     (''std::chrono::duration<long>'', ''std::chrono::seconds''),
     (''std::chrono::duration<long,>'', ''std::chrono::seconds''),
     (''std::chrono::duration<long, std::ratio<60>>'', ''std::chrono::minutes''),
     (''std::chrono::duration<long, std::ratio<3600>>'', ''std::chrono::hours''),
     ('' >'', ''>''),
     (''< '', ''<'')]"

definition sleep_table :: "(cstring \<times> cstring) list" where
  "sleep_table =
    [(''::sleep_for<long, std::nano>'', ''::sleep_for<nanoseconds>''),
     (''::sleep_for<long, std::micro>'', ''::sleep_for<microseconds>''),
     (''::sleep_for<long, std::milli>'', ''::sleep_for<milliseconds>''),
     (''::sleep_for<long>'', ''::sleep_for<seconds>''),
     (''::sleep_for<long,>'', ''::sleep_for<seconds>''),
     (''::sleep_for<long, std::ratio<60>>'', ''::sleep_for<minutes>''),
     (''::sleep_for<long, std::ratio<3600>>'', ''::sleep_for<hours>''),
     (''::sleep_for<nanoseconds>(std::chrono::nanoseconds'',
      ''::sleep_for(std::chrono::nanoseconds''),
     (''::sleep_for<microseconds>(std::chrono::microseconds'',
      ''::sleep_for(std::chrono::microseconds''),
     (''::sleep_for<milliseconds>(std::chrono::milliseconds'',
      ''::sleep_for(std::chrono::milliseconds''),
     (''::sleep_for<seconds>(std::chrono::seconds'', ''::sleep_for(std::chrono::seconds''),
     (''::sleep_for<milliseconds>(std::chrono::minutes'',
      ''::sleep_for(std::chrono::milliseconds''),
     (''::sleep_for<milliseconds>(std::chrono::hours'', ''::sleep_for(std::chrono::hours'')]"

text \<open>
  One round of the loop over \<open>std::basic_string<\<close>. \<open>None\<close> is a \<open>break\<close>. The character type selects
  the abbreviation; an unknown one is left alone.
\<close>

definition string_abbreviation :: "cstring \<Rightarrow> cstring option" where
  "string_abbreviation a =
     (if strncmp_eq a ''char'' 4 then Some ''std::string''
      else if strncmp_eq a ''wchar_t'' 7 then Some ''std::wstring''
      else if strncmp_eq a ''char16_t'' 8 then Some ''std::u16string''
      else if strncmp_eq a ''char32_t'' 8 then Some ''std::u32string''
      else None)"

definition basic_string_step :: "cstring \<times> nat \<Rightarrow> nat \<Rightarrow> ((cstring \<times> nat) \<times> nat) option result" where
  "basic_string_step st pos0 =
     bindR (view_find ''std::basic_string<'' st pos0) (\<lambda>pos.
       if pos = npos then Inr None
       else let pos1 = pos + 17
            in bindR (findMatching (fst st) (snd st) pos1) (\<lambda>pos2.
                 if pos2 = pos1 then Inr None
                 else Inr (Some (case string_abbreviation (drop (pos1 + 1) (fst st)) of
                                   None \<Rightarrow> st
                                 | Some r \<Rightarrow> replace (fst st) (snd st) pos (pos2 - pos) r,
                                 pos + 1))))"

definition string_view_step :: "cstring \<times> nat \<Rightarrow> nat \<Rightarrow> ((cstring \<times> nat) \<times> nat) option result" where
  "string_view_step st pos0 =
     bindR (view_find ''std::basic_std::string_view<char'' st pos0) (\<lambda>pos.
       if pos = npos then Inr None
       else let pos1 = pos + 17
            in bindR (findMatching (fst st) (snd st) pos1) (\<lambda>pos2.
                 if pos2 = pos1 then Inr None
                 else Inr (Some (replace (fst st) (snd st) pos (pos2 - pos) ''std::std::string_view'',
                                 pos + 1))))"

text \<open>The replacements never extend the text, so the position catches up with \<open>N\<close>.\<close>

lemma replace_put_pos: "k \<le> N \<Longrightarrow> snd (replace_put str N k r) \<le> N"
  by (induction str N k r rule: replace_put.induct) auto

lemma replace_shift_pos: "k \<le> N \<Longrightarrow> snd (replace_shift str N k i) \<le> N"
  by (induction str N k i rule: replace_shift.induct) (subst replace_shift.simps, auto)

lemma replace_length_le: "pos \<le> N \<Longrightarrow> snd (replace str N pos len r) \<le> N"
  using replace_put_pos [of pos N str r]
  by (auto simp: replace_def Let_def split: prod.split
      dest!: arg_cong [of "replace_put str N pos r" _ snd] arg_cong [of "replace_shift _ _ _ _" _ snd]
      intro: replace_shift_pos)

lemma view_find_bound:
  "view_find s st pos = Inr p \<Longrightarrow> p \<noteq> npos \<Longrightarrow> pos \<le> p \<and> p + length s \<le> snd st"
  by (auto simp: view_find_def find_from_def split: if_splits option.splits dest!: find_sub_bound)
     (cases "find_sub s (drop pos (take (snd st) (fst st)))", auto dest!: find_sub_bound)+


lemma basic_string_step_progress:
  assumes "basic_string_step st pos = Inr (Some (st', pos'))"
  shows "pos < pos' \<and> snd st' \<le> snd st"
proof -
  from assms obtain p p2 where p: "view_find ''std::basic_string<'' st pos = Inr p" "p \<noteq> npos"
      "pos' = p + 1"
      "st' = (case string_abbreviation (drop (p + 17 + 1) (fst st)) of
         None \<Rightarrow> st | Some r \<Rightarrow> replace (fst st) (snd st) p (p2 - p) r)"
    by (auto simp: basic_string_step_def bindR_Inr_iff Let_def split: if_splits)
  with view_find_bound [OF p(1,2)] replace_length_le [of p "snd st" "fst st"] show ?thesis
    by (auto split: option.splits)
qed

lemma string_view_step_progress:
  assumes "string_view_step st pos = Inr (Some (st', pos'))"
  shows "pos < pos' \<and> snd st' \<le> snd st"
proof -
  from assms obtain p p2 where p: "view_find ''std::basic_std::string_view<char'' st pos = Inr p"
      "p \<noteq> npos" "pos' = p + 1"
      "st' = replace (fst st) (snd st) p (p2 - p) ''std::std::string_view''"
    by (auto simp: string_view_step_def bindR_Inr_iff Let_def split: if_splits)
  with view_find_bound [OF p(1,2)] replace_length_le [of p "snd st" "fst st"] show ?thesis
    by auto
qed

function basic_string_loop :: "cstring \<times> nat \<Rightarrow> nat \<Rightarrow> (cstring \<times> nat) result" where
  "basic_string_loop st pos =
     (if pos < snd st then
        (case basic_string_step st pos of
           Inl e \<Rightarrow> Inl e
         | Inr None \<Rightarrow> Inr st
         | Inr (Some (st', pos')) \<Rightarrow> basic_string_loop st' pos')
      else Inr st)"
  by pat_completeness auto
termination
  by (relation "measure (\<lambda>(st, pos). snd st - pos)") (auto dest!: basic_string_step_progress)

declare basic_string_loop.simps [simp del]

function string_view_loop :: "cstring \<times> nat \<Rightarrow> nat \<Rightarrow> (cstring \<times> nat) result" where
  "string_view_loop st pos =
     (if pos < snd st then
        (case string_view_step st pos of
           Inl e \<Rightarrow> Inl e
         | Inr None \<Rightarrow> Inr st
         | Inr (Some (st', pos')) \<Rightarrow> string_view_loop st' pos')
      else Inr st)"
  by pat_completeness auto
termination
  by (relation "measure (\<lambda>(st, pos). snd st - pos)") (auto dest!: string_view_step_progress)

declare string_view_loop.simps [simp del]

text \<open>
  The last two abbreviations use the positions of \<open>find\<close> without looking at them: \<open>pos3 - pos2\<close>
  is computed in \<open>size_t\<close>.
\<close>

definition shorten_make_shared :: "cstring \<times> nat \<Rightarrow> (cstring \<times> nat) result" where
  "shorten_make_shared st =
     bindR (view_find ''std::make_shared<'' st 0) (\<lambda>p.
       if p \<noteq> npos then
         bindR (view_find ''std::make_shared<'' st 0) (\<lambda>pos1.
         bindR (view_find '','' st pos1) (\<lambda>pos2.
         bindR (view_find ''('' st pos1) (\<lambda>pos3.
           Inr (replace (fst st) (snd st) pos2 (usub64 pos3 pos2) ''>''))))
       else Inr st)"

definition shorten_vector :: "cstring \<times> nat \<Rightarrow> (cstring \<times> nat) result" where
  "shorten_vector st =
     bindR (view_find ''std::vector<'' st 0) (\<lambda>p.
       if p \<noteq> npos then
         bindR (view_find ''std::vector<'' st 0) (\<lambda>pos1.
         bindR (view_find '', std::allocator'' st pos1) (\<lambda>pos2.
         bindR (findMatching (fst st) (snd st) (pos1 + 11)) (\<lambda>pos3.
           Inr (replace (fst st) (snd st) pos2 (usub64 pos3 pos2) ''>''))))
       else Inr st)"

text \<open>The whole function, in two parts: up to the two loops, and the last two abbreviations.\<close>

definition cleanup_templates :: "cstring \<Rightarrow> (cstring \<times> nat) result" where
  "cleanup_templates function_name =
     (if terminated function_name then
        bindR (strreps space_table (function_name, length (cstr function_name)))
       (\<lambda>st. bindR (guarded_strreps ''std::ratio<'' ratio_table st)
       (\<lambda>st. bindR (guarded_strreps ''std::chrono::duration<'' duration_table st)
       (\<lambda>st. bindR (guarded_strreps ''::sleep_for<'' sleep_table st)
       (\<lambda>st. bindR (strreps [(''[abi:cxx11]'', []),
                 (''std::__cxx11::basic_string<'', ''std::basic_string<'')] st)
       (\<lambda>st. bindR (basic_string_loop st 0)
       (\<lambda>st. bindR (call_strrep ''std::__cxx11::basic_std::string_view<''
                 ''std::basic_std::string_view<'' st)
       (\<lambda>st. string_view_loop st 0)))))))
      else Inl OutOfBounds)"

definition cleanupFunctionName :: "cstring \<Rightarrow> cstring result" where
  "cleanupFunctionName function_name =
     bindR (cleanup_templates function_name)
       (\<lambda>st. bindR (shorten_make_shared st)
       (\<lambda>st. bindR (shorten_vector st)
       (\<lambda>st. Inr (fst st))))"

section \<open>Safety of one replacement\<close>

text \<open>
  \<open>replace\<close> on a terminated view, with any position inside it and any length, wrapped or not:
  the view stays terminated, does not grow, and holds only characters of the old view and of the
  replacement.
\<close>

lemma take_eq_mono: "m \<le> n \<Longrightarrow> take n a = take n b \<Longrightarrow> take m a = take m b"
  by (metis min.absorb1 take_take)

lemma replace_put_general:
  assumes "k \<le> N" "N \<le> length str" "replace_put str N k r = (s', k')"
  shows "k \<le> k' \<and> k' \<le> N \<and> k' = min N (k + length r) \<and> length s' = length str \<and> take k s' = take k str
    \<and> drop N s' = drop N str \<and> set (take N s') \<subseteq> set (take N str) \<union> set r
    \<and> (\<forall>j. k \<le> j \<and> j < k' \<longrightarrow> s' ! j \<in> set r) \<and> (k < k' \<longrightarrow> s' ! k = hd r)"
  using assms
proof (induction r arbitrary: str k)
  case Nil
  then show ?case by auto
next
  case (Cons c cs)
  show ?case
  proof (cases "k < N")
    case False
    with Cons.prems show ?thesis by auto
  next
    case True
    let ?s = "str[k := c]"
    have ih: "Suc k \<le> k' \<and> k' \<le> N \<and> k' = min N (Suc k + length cs) \<and> length s' = length ?s
      \<and> take (Suc k) s' = take (Suc k) ?s
      \<and> drop N s' = drop N ?s \<and> set (take N s') \<subseteq> set (take N ?s) \<union> set cs
      \<and> (\<forall>j. Suc k \<le> j \<and> j < k' \<longrightarrow> s' ! j \<in> set cs)"
      using Cons.IH [of "Suc k" ?s] Cons.prems True by simp
    then have "s' ! k = c"
      using True Cons.prems(2) nth_take_drop_cong [of "Suc k" s' ?s k] by simp
    moreover have "set (take N ?s) \<subseteq> insert c (set (take N str))"
      using True set_update_subset_insert [of "take N str" k c] by (simp add: take_update_swap)
    moreover have "take k s' = take k str"
      using ih take_eq_mono [of k "Suc k" s' ?s] by simp
    moreover have "s' ! j \<in> set (c # cs)" if "k \<le> j" "j < k'" for j
      using that ih \<open>s' ! k = c\<close> by (cases "j = k") auto
    ultimately show ?thesis using ih True by auto
  qed
qed

lemma replace_shift_general:
  assumes "k \<le> N" "N \<le> length str" "replace_shift str N k i = (s', k')"
  shows "k \<le> k' \<and> k' \<le> N \<and> length s' = length str \<and> take k s' = take k str
    \<and> drop N s' = drop N str \<and> set (take N s') \<subseteq> set (take N str)"
  using assms
proof (induction str N k i rule: replace_shift.induct)
  case (1 str N k i)
  show ?case
  proof (cases "i < N \<and> k < N")
    case False
    with 1(2-4) show ?thesis by (simp add: replace_shift.simps [of str N k i] split: if_splits)
  next
    case True
    let ?s = "str[k := str ! i]"
    have "replace_shift ?s N (Suc k) (Suc i) = (s', k')"
      using 1(4) True by (simp add: replace_shift.simps [of str N k i])
    with 1(1) [OF True] True 1(3)
    have ih: "Suc k \<le> k' \<and> k' \<le> N \<and> length s' = length ?s \<and> take (Suc k) s' = take (Suc k) ?s
      \<and> drop N s' = drop N ?s \<and> set (take N s') \<subseteq> set (take N ?s)"
      by simp
    have "str ! i \<in> set (take N str)"
      using True 1(3) in_set_conv_nth [of "str ! i" "take N str"] by auto
    then have "set (take N ?s) \<subseteq> set (take N str)"
      using True set_update_subset_insert [of "take N str" k "str ! i"] by (auto simp: take_update_swap)
    moreover have "take k s' = take k str"
      using ih take_eq_mono [of k "Suc k" s' ?s] by simp
    ultimately show ?thesis using ih True by auto
  qed
qed

text \<open>
  When the replacement is longer than what it replaces, the source index runs behind the
  destination: every character up to the end of the view is one of the replacement.
\<close>

lemma replace_shift_smear:
  assumes "k \<le> N" "N \<le> length str" "replace_shift str N k i = (s', k')"
    "pos \<le> i" "i < k" "\<forall>j. pos \<le> j \<and> j < k \<longrightarrow> str ! j \<in> R"
  shows "k' = N \<and> (\<forall>j. pos \<le> j \<and> j < N \<longrightarrow> s' ! j \<in> R)"
  using assms
proof (induction str N k i rule: replace_shift.induct)
  case (1 str N k i)
  show ?case
  proof (cases "i < N \<and> k < N")
    case False
    with 1(2-) show ?thesis by (simp add: replace_shift.simps [of str N k i] split: if_splits)
  next
    case True
    let ?s = "str[k := str ! i]"
    have "replace_shift ?s N (Suc k) (Suc i) = (s', k')"
      using 1(4) True by (simp add: replace_shift.simps [of str N k i])
    moreover have "\<forall>j. pos \<le> j \<and> j < Suc k \<longrightarrow> ?s ! j \<in> R"
      using 1(3,5-7) True by (auto simp: nth_list_update less_Suc_eq)
    ultimately show ?thesis using 1(1) [OF True] 1(3,5,6) True by simp
  qed
qed

lemma replace_general:
  assumes v: "cview str N x" and pos: "pos \<le> N" and r: "NUL \<notin> set r"
    and res: "replace str N pos len r = (s', N')"
  shows "N' \<le> N" "length s' = length str"
    "\<exists>x'. cview s' N' x' \<and> take pos x' = take pos x \<and> set x' \<subseteq> set x \<union> set r
      \<and> (uadd64 pos len < pos + length r \<and> pos \<le> uadd64 pos len \<longrightarrow>
           N' = N \<and> (\<forall>j. pos \<le> j \<and> j < N \<longrightarrow> x' ! j \<in> set r)
           \<and> (pos < N \<longrightarrow> x' ! pos = hd r))"
proof -
  obtain s1 k1 where s1: "replace_put str N pos r = (s1, k1)" by fastforce
  obtain s2 k2 where s2: "replace_shift s1 N k1 (uadd64 pos len) = (s2, k2)" by fastforce
  have s': "s' = replace_clear s2 N k2 k2" "N' = k2"
    using res by (auto simp: replace_def s1 s2)
  note p = replace_put_general [OF pos cviewD(1) [OF v] s1]
  have sh: "k1 \<le> N" "N \<le> length s1" using p cviewD(1) [OF v] by auto
  note q = replace_shift_general [OF sh s2]
  show "N' \<le> N" "length s' = length str"
    using q p by (auto simp: s' replace_clear_spec)
  let ?x = "take k2 s2"
  have sub: "set ?x \<subseteq> set x \<union> set r"
    using q p cviewD(3) [OF v] set_take_subset_set_take [of k2 N s2] by auto
  have "s2 ! N = NUL" if "N < length str"
  proof -
    have "drop N s2 ! 0 = drop N str ! 0" using p q by presburger
    moreover have "length s2 = length str" using p q by simp
    ultimately show ?thesis using that v by (simp add: cview_def)
  qed
  then have "cview s' N' ?x"
    using sub r cviewD [OF v] p q by (auto simp: cview_def s' replace_clear_spec)
  moreover have "take pos ?x = take pos x"
  proof -
    have "take pos s2 = take pos s1"
      using p q take_eq_mono [of pos k1 s2 s1] by simp
    with p q pos cviewD(3) [OF v] show ?thesis by (auto simp: min_def)
  qed
  moreover have "N' = N \<and> (\<forall>j. pos \<le> j \<and> j < N \<longrightarrow> ?x ! j \<in> set r) \<and> (pos < N \<longrightarrow> ?x ! pos = hd r)"
    if "uadd64 pos len < pos + length r" "pos \<le> uadd64 pos len"
  proof (cases "uadd64 pos len < k1")
    case True
    have "s2 ! pos = s1 ! pos" if "pos < N"
      using that True \<open>pos \<le> uadd64 pos len\<close> q nth_take_drop_cong [of k1 s2 s1 pos] by simp
    with replace_shift_smear [OF sh s2 that(2) True, of "set r"] p True that(2) show ?thesis
      by (auto simp: s')
  next
    case False
    with that p have k1: "k1 = N" by auto
    with s2 False have "s2 = s1" "k2 = N"
      by (auto simp: replace_shift.simps [of s1 N N])
    with p k1 show ?thesis by (auto simp: s')
  qed
  ultimately show "\<exists>x'. cview s' N' x' \<and> take pos x' = take pos x \<and> set x' \<subseteq> set x \<union> set r
      \<and> (uadd64 pos len < pos + length r \<and> pos \<le> uadd64 pos len \<longrightarrow>
           N' = N \<and> (\<forall>j. pos \<le> j \<and> j < N \<longrightarrow> x' ! j \<in> set r)
           \<and> (pos < N \<longrightarrow> x' ! pos = hd r))"
    using sub by blast
qed

section \<open>The series of replacements always returns\<close>

text \<open>
  A pattern is used up by its replacement when the text gets shorter, or when a character of the
  pattern does not occur in the replacement: the smear of a growing replacement then removes it.
\<close>

definition erasing :: "cstring \<times> cstring \<Rightarrow> bool" where
  "erasing p = (case p of (s, r) \<Rightarrow> s \<noteq> [] \<and> NUL \<notin> set r \<and>
     (length r < length s \<or> length s < length r \<and> (\<exists>c \<in> set s. c \<notin> set r)))"

text \<open>The invariant of the buffer during the whole function.\<close>

definition buffer_ok :: "nat \<Rightarrow> nat \<Rightarrow> cstring \<times> nat \<Rightarrow> bool" where
  "buffer_ok sz n st = (length (fst st) = sz \<and> snd st \<le> n \<and> (\<exists>x. cview (fst st) (snd st) x))"

lemma strrep_smears:
  assumes "cview str N x" "NUL \<notin> set r" "length s < length r" "c \<in> set s" "c \<notin> set r"
  shows "\<exists>str'. strrep str N s r = Some (Inr (str', N)) \<and> (\<exists>x'. cview str' N x')
    \<and> length str' = length str"
  using assms
proof (induction "count_list x c" arbitrary: str x rule: less_induct)
  case less
  note v = less.prems(1)
  have start: "strrep str N s r =
     (case find_sub s x of None \<Rightarrow> Some (Inr (str, N))
      | Some pos \<Rightarrow> strrep (fst (replace str N pos (length s) r))
                      (snd (replace str N pos (length s) r)) s r)"
    using cviewD [OF v] by (simp add: strrep.simps [of str N])
  show ?case
  proof (cases "find_sub s x")
    case None
    with start v show ?thesis by auto
  next
    case (Some pos)
    obtain s' N' where res: "replace str N pos (length s) r = (s', N')" by fastforce
    have b: "pos + length s \<le> N"
      using find_sub_bound [OF Some] cviewD(5) [OF v] by simp
    with cviewD(2) [OF v] have u: "uadd64 pos (length s) = pos + length s"
      by (simp add: uadd64_small)
    have "pos \<le> N" using b by simp
    from replace_general [OF v this less.prems(2) res] u less.prems(3)
    obtain x' where x': "cview s' N x'" "take pos x' = take pos x"
        "\<forall>j. pos \<le> j \<and> j < N \<longrightarrow> x' ! j \<in> set r" and N': "N' = N" and l: "length s' = length str"
      by auto
    have "set (drop pos x') \<subseteq> set r"
      using x'(3) cviewD(5) [OF x'(1)] by (auto simp: in_set_conv_nth)
    then have "c \<notin> set (drop pos x')" using less.prems(5) by auto
    then have "count_list (drop pos x') c = 0" by (simp add: count_list_0_iff)
    then have "count_list x' c = count_list (take pos x) c"
      using arg_cong [OF append_take_drop_id [of pos x'], of "\<lambda>y. count_list y c"] x'(2)
      by (simp del: append_take_drop_id)
    also have "\<dots> < count_list x c"
      using arg_cong [OF find_sub_split [OF Some], of "\<lambda>y. count_list y c"] less.prems(4)
        count_list_0_iff [of s c] by simp
    finally have "count_list x' c < count_list x c" .
    from less.hyps [OF this x'(1) less.prems(2-)] Some start res N' l show ?thesis by auto
  qed
qed

lemma strrep_returns:
  assumes "cview str N x" "erasing (s, r)"
  shows "\<exists>str' N' x'. strrep str N s r = Some (Inr (str', N')) \<and> cview str' N' x'
    \<and> length str' = length str \<and> N' \<le> N"
proof (cases "length r < length s")
  case True
  with strrep_refines [OF assms(1) True] assms(2) obtain str' N' where
    "strrep str N s r = Some (Inr (str', N'))" "cview str' N' (subst_all s r x)"
    "length str' = length str" by (auto simp: erasing_def)
  with cviewD(5) [OF this(2)] cviewD(5) [OF assms(1)] length_subst_all [of s r x] show ?thesis
    by auto
next
  case False
  with assms(2) obtain c where "c \<in> set s" "c \<notin> set r" "length s < length r" "NUL \<notin> set r"
    by (auto simp: erasing_def)
  with strrep_smears [OF assms(1)] show ?thesis by blast
qed

lemma call_strrep_ok:
  assumes "buffer_ok sz n st" "erasing (s, r)"
  shows "\<exists>st'. call_strrep s r st = Inr st' \<and> buffer_ok sz n st'"
proof -
  from assms(1) obtain x where "cview (fst st) (snd st) x" "length (fst st) = sz" "snd st \<le> n"
    by (auto simp: buffer_ok_def)
  with strrep_returns [OF this(1) assms(2)] show ?thesis
    by (cases st) (auto simp: call_strrep_def buffer_ok_def)
qed

lemma strreps_ok:
  assumes "buffer_ok sz n st" "list_all erasing ps"
  shows "\<exists>st'. strreps ps st = Inr st' \<and> buffer_ok sz n st'"
  using assms
proof (induction ps arbitrary: st)
  case (Cons p ps)
  obtain s r where p: "p = (s, r)" by fastforce
  with Cons.prems call_strrep_ok [of sz n st s r]
  obtain st' where "call_strrep s r st = Inr st'" "buffer_ok sz n st'" by auto
  with Cons p show ?case by auto
qed simp

lemma view_find_ok:
  "buffer_ok sz n st \<Longrightarrow>
   view_find s st pos = Inr (or_npos (find_from s (take (snd st) (fst st)) pos))"
  by (auto simp: buffer_ok_def cview_def view_find_def)

lemma guarded_strreps_ok:
  assumes "buffer_ok sz n st" "list_all erasing ps"
  shows "\<exists>st'. guarded_strreps m ps st = Inr st' \<and> buffer_ok sz n st'"
  using strreps_ok [OF assms] assms(1) by (cases st) (auto simp: guarded_strreps_def view_find_ok)

lemma tables_erasing:
  "list_all erasing space_table" "list_all erasing ratio_table"
  "list_all erasing duration_table" "list_all erasing sleep_table"
  by (simp_all add: erasing_def space_table_def ratio_table_def duration_table_def sleep_table_def)

lemma cxx11_pairs_erasing:
  "list_all erasing [(''[abi:cxx11]'', []), (''std::__cxx11::basic_string<'', ''std::basic_string<'')]"
  by (simp add: erasing_def)

lemma view_pair_erasing:
  "erasing (''std::__cxx11::basic_std::string_view<'', ''std::basic_std::string_view<'')"
  by (simp add: erasing_def)

lemma match_loop_ok:
  "N \<le> length str \<Longrightarrow> \<exists>p. match_loop str N pos2 count = Inr p \<and> pos2 \<le> p \<and> p \<le> max N pos2"
proof (induction str N pos2 count rule: match_loop.induct)
  case (1 str N pos2 count)
  show ?case
  proof (cases "count \<noteq> 0 \<and> pos2 < N")
    case True
    with 1(2) have "\<not> length str \<le> pos2" by simp
    with 1(1) [OF True this 1(2)] True show ?thesis
      by (subst match_loop.simps) auto
  next
    case False
    then show ?thesis by (subst match_loop.simps) auto
  qed
qed

lemma replace_ok:
  assumes "buffer_ok sz n st" "pos \<le> snd st" "NUL \<notin> set r"
  shows "buffer_ok sz n (replace (fst st) (snd st) pos len r)"
proof -
  from assms(1) obtain x where v: "cview (fst st) (snd st) x" "length (fst st) = sz" "snd st \<le> n"
    by (auto simp: buffer_ok_def)
  obtain s' N' where "replace (fst st) (snd st) pos len r = (s', N')" by fastforce
  with replace_general [OF v(1) assms(2,3) this] v show ?thesis by (auto simp: buffer_ok_def)
qed

lemma buffer_ok_length: "buffer_ok sz n st \<Longrightarrow> snd st \<le> length (fst st)"
  by (auto simp: buffer_ok_def cview_def)

lemma findMatching_ok:
  assumes "buffer_ok sz n st" "pos < snd st"
  shows "\<exists>p. findMatching (fst st) (snd st) pos = Inr p \<and> pos < p \<and> p \<le> snd st"
  using match_loop_ok [OF buffer_ok_length [OF assms(1)], of "pos + 1" 1] assms(2)
  by (auto simp: findMatching_def)

lemma basic_string_step_ok:
  assumes "buffer_ok sz n st"
  shows "\<exists>o'. basic_string_step st pos = Inr o' \<and> (\<forall>q. o' = Some q \<longrightarrow> buffer_ok sz n (fst q))"
proof -
  let ?p = "or_npos (find_from ''std::basic_string<'' (take (snd st) (fst st)) pos)"
  have f: "view_find ''std::basic_string<'' st pos = Inr ?p"
    by (rule view_find_ok [OF assms])
  show ?thesis
  proof (cases "?p = npos")
    case True
    with f show ?thesis by (simp add: basic_string_step_def)
  next
    case False
    from view_find_bound [OF f False] have b: "?p + 18 \<le> snd st" by simp
    then have "?p + 17 < snd st" by simp
    from findMatching_ok [OF assms this] obtain p2
      where "findMatching (fst st) (snd st) (?p + 17) = Inr p2" by blast
    moreover have "buffer_ok sz n (case string_abbreviation (drop (?p + 17 + 1) (fst st)) of
        None \<Rightarrow> st | Some r \<Rightarrow> replace (fst st) (snd st) ?p (p2 - ?p) r)"
      using assms replace_ok [OF assms, of ?p] b
      by (auto simp: string_abbreviation_def)
    ultimately show ?thesis using False
      by (auto simp: basic_string_step_def f Let_def)
  qed
qed

lemma string_view_step_ok:
  assumes "buffer_ok sz n st"
  shows "\<exists>o'. string_view_step st pos = Inr o' \<and> (\<forall>q. o' = Some q \<longrightarrow> buffer_ok sz n (fst q))"
proof -
  let ?p = "or_npos (find_from ''std::basic_std::string_view<char'' (take (snd st) (fst st)) pos)"
  have f: "view_find ''std::basic_std::string_view<char'' st pos = Inr ?p"
    by (rule view_find_ok [OF assms])
  show ?thesis
  proof (cases "?p = npos")
    case True
    with f show ?thesis by (simp add: string_view_step_def)
  next
    case False
    from view_find_bound [OF f False] have b: "?p + 32 \<le> snd st" by simp
    then have "?p + 17 < snd st" by simp
    from findMatching_ok [OF assms this] obtain p2
      where "findMatching (fst st) (snd st) (?p + 17) = Inr p2" by blast
    moreover have "buffer_ok sz n (replace (fst st) (snd st) ?p (p2 - ?p) ''std::std::string_view'')"
      using b by (intro replace_ok [OF assms]) simp_all
    ultimately show ?thesis using False
      by (auto simp: string_view_step_def f Let_def)
  qed
qed

lemma basic_string_loop_ok:
  "buffer_ok sz n st \<Longrightarrow> \<exists>st'. basic_string_loop st pos = Inr st' \<and> buffer_ok sz n st'"
proof (induction st pos rule: basic_string_loop.induct)
  case (1 st pos)
  from basic_string_step_ok [OF 1(2), of pos] obtain r
    where r: "basic_string_step st pos = Inr r" "\<And>q. r = Some q \<Longrightarrow> buffer_ok sz n (fst q)" by blast
  show ?case
  proof (cases "pos < snd st \<and> r \<noteq> None")
    case True
    then obtain st' pos' where q: "r = Some (st', pos')" "pos < snd st" by auto
    have "\<exists>st''. basic_string_loop st' pos' = Inr st'' \<and> buffer_ok sz n st''"
      by (rule 1(1) [OF q(2) r(1) q(1) refl]) (use r(2) [OF q(1)] in simp)
    with q r(1) show ?thesis by (simp add: basic_string_loop.simps [of st pos])
  next
    case False
    then have "basic_string_loop st pos = Inr st"
      using r(1) by (cases r) (auto simp: basic_string_loop.simps [of st pos])
    with 1(2) show ?thesis by blast
  qed
qed

lemma string_view_loop_ok:
  "buffer_ok sz n st \<Longrightarrow> \<exists>st'. string_view_loop st pos = Inr st' \<and> buffer_ok sz n st'"
proof (induction st pos rule: string_view_loop.induct)
  case (1 st pos)
  from string_view_step_ok [OF 1(2), of pos] obtain r
    where r: "string_view_step st pos = Inr r" "\<And>q. r = Some q \<Longrightarrow> buffer_ok sz n (fst q)" by blast
  show ?case
  proof (cases "pos < snd st \<and> r \<noteq> None")
    case True
    then obtain st' pos' where q: "r = Some (st', pos')" "pos < snd st" by auto
    have "\<exists>st''. string_view_loop st' pos' = Inr st'' \<and> buffer_ok sz n st''"
      by (rule 1(1) [OF q(2) r(1) q(1) refl]) (use r(2) [OF q(1)] in simp)
    with q r(1) show ?thesis by (simp add: string_view_loop.simps [of st pos])
  next
    case False
    then have "string_view_loop st pos = Inr st"
      using r(1) by (cases r) (auto simp: string_view_loop.simps [of st pos])
    with 1(2) show ?thesis by blast
  qed
qed

lemma cleanup_templates_ok:
  assumes "terminated f" "length f < npos"
  shows "\<exists>st. cleanup_templates f = Inr st \<and> buffer_ok (length f) (length (cstr f)) st"
proof -
  let ?ok = "buffer_ok (length f) (length (cstr f))"
  have "length (cstr f) \<le> npos" using assms(2) length_cstr_le [of f] by linarith
  with cview_initial [OF assms(1)] have s0: "?ok (f, length (cstr f))"
    by (auto simp: buffer_ok_def)
  obtain s1 where s1: "strreps space_table (f, length (cstr f)) = Inr s1" "?ok s1"
    using strreps_ok [OF s0 tables_erasing(1)] by blast
  obtain s2 where s2: "guarded_strreps ''std::ratio<'' ratio_table s1 = Inr s2" "?ok s2"
    using guarded_strreps_ok [OF s1(2) tables_erasing(2)] by blast
  obtain s3 where s3: "guarded_strreps ''std::chrono::duration<'' duration_table s2 = Inr s3" "?ok s3"
    using guarded_strreps_ok [OF s2(2) tables_erasing(3)] by blast
  obtain s4 where s4: "guarded_strreps ''::sleep_for<'' sleep_table s3 = Inr s4" "?ok s4"
    using guarded_strreps_ok [OF s3(2) tables_erasing(4)] by blast
  obtain s5 where s5: "strreps [(''[abi:cxx11]'', []),
      (''std::__cxx11::basic_string<'', ''std::basic_string<'')] s4 = Inr s5" "?ok s5"
    using strreps_ok [OF s4(2) cxx11_pairs_erasing] by blast
  obtain s6 where s6: "basic_string_loop s5 0 = Inr s6" "?ok s6"
    using basic_string_loop_ok [OF s5(2)] by blast
  obtain s7 where s7: "call_strrep ''std::__cxx11::basic_std::string_view<''
      ''std::basic_std::string_view<'' s6 = Inr s7" "?ok s7"
    using call_strrep_ok [OF s6(2) view_pair_erasing] by blast
  obtain s8 where s8: "string_view_loop s7 0 = Inr s8" "?ok s8"
    using string_view_loop_ok [OF s7(2)] by blast
  show ?thesis
    using assms(1) s8(2)
    by (simp only: cleanup_templates_def s1(1) s2(1) s3(1) s4(1) s5(1) s6(1) s7(1) s8(1)
        bindR_simps if_True) blast
qed

section \<open>The last two abbreviations\<close>

lemma replace_at_npos: "N < npos \<Longrightarrow> replace str N npos len [c] = (str, npos)"
  by (simp add: replace_def replace_shift.simps [of str N npos] replace_clear_spec)

text \<open>The argument list that \<open>make_shared\<close> is shortened at.\<close>

definition make_shared_without_comma :: "cstring \<Rightarrow> bool" where
  "make_shared_without_comma x =
     (case find_sub ''std::make_shared<'' x of
        None \<Rightarrow> False
      | Some p \<Rightarrow> find_from '','' x p = None)"

lemma find_from_0: "find_from s x 0 = find_sub s x"
  by (simp add: find_from_def option.map_id0 [unfolded id_def] fun_eq_iff map_option.compositionality)
     (cases "find_sub s x"; simp)

lemma view_find_at:
  assumes "buffer_ok sz n st"
  shows "view_find s st pos = Inr (or_npos (find_from s (cstr (fst st)) pos))"
proof -
  from assms obtain x where v: "cview (fst st) (snd st) x" by (auto simp: buffer_ok_def)
  have "view_find s st pos = Inr (or_npos (find_from s (take (snd st) (fst st)) pos))"
    by (rule view_find_ok [OF assms])
  then show ?thesis by (simp add: cviewD(3) [OF v] cview_cstr [OF v])
qed

lemma find_from_bound: "find_from s x pos = Some p \<Longrightarrow> pos \<le> p \<and> p + length s \<le> length x"
  by (auto simp: find_from_def split: if_splits dest!: find_sub_bound)

lemma shorten_make_shared_ok:
  assumes ok: "buffer_ok sz n st" and n: "n < npos"
  shows "if make_shared_without_comma (cstr (fst st))
    then shorten_make_shared st = Inr (fst st, npos)
    else \<exists>st'. shorten_make_shared st = Inr st' \<and> buffer_ok sz n st'"
proof -
  let ?x = "cstr (fst st)"
  from ok n have sn: "snd st < npos" by (simp add: buffer_ok_def)
  have lx: "length ?x = snd st"
    using ok cview_cstr cviewD(5) by (fastforce simp: buffer_ok_def)
  note f = view_find_at [OF ok]
  show ?thesis
  proof (cases "find_sub ''std::make_shared<'' ?x")
    case None
    with f ok show ?thesis
      by (auto simp: shorten_make_shared_def make_shared_without_comma_def find_from_0)
  next
    case (Some p)
    with find_sub_bound [OF Some] lx sn have p: "p \<noteq> npos" by simp
    show ?thesis
    proof (cases "find_from '','' ?x p")
      case None
      with Some p f sn show ?thesis
        by (simp add: shorten_make_shared_def make_shared_without_comma_def find_from_0 replace_at_npos)
    next
      case c: (Some q)
      from find_from_bound [OF c] lx have "q \<le> snd st" by simp
      from replace_ok [OF ok this, of "''>''"] Some p c f show ?thesis
        by (simp add: shorten_make_shared_def make_shared_without_comma_def find_from_0)
    qed
  qed
qed

lemma shorten_vector_ok:
  assumes ok: "buffer_ok sz n st" and n: "n < npos"
  shows "\<exists>st'. shorten_vector st = Inr st' \<and> (st' = (fst st, npos) \<or> buffer_ok sz n st')"
proof -
  let ?x = "cstr (fst st)"
  from ok n have sn: "snd st < npos" by (simp add: buffer_ok_def)
  have lx: "length ?x = snd st"
    using ok cview_cstr cviewD(5) by (fastforce simp: buffer_ok_def)
  note f = view_find_at [OF ok]
  show ?thesis
  proof (cases "find_sub ''std::vector<'' ?x")
    case None
    with f ok show ?thesis by (auto simp: shorten_vector_def find_from_0)
  next
    case (Some p)
    from find_sub_bound [OF Some] lx sn have p: "p \<noteq> npos" "p + 11 < snd st" by simp_all
    from findMatching_ok [OF ok p(2)] obtain p3
      where p3: "findMatching (fst st) (snd st) (p + 11) = Inr p3" by blast
    show ?thesis
    proof (cases "find_from '', std::allocator'' ?x p")
      case None
      with Some p p3 f sn show ?thesis
        by (simp add: shorten_vector_def find_from_0 replace_at_npos)
    next
      case c: (Some q)
      from find_from_bound [OF c] lx have "q \<le> snd st" by simp
      from replace_ok [OF ok this, of "''>''"] Some p p3 c f show ?thesis
        by (simp add: shorten_vector_def find_from_0)
    qed
  qed
qed

lemma buffer_ok_cstr:
  assumes "buffer_ok sz n st" "n < sz"
  shows "length (fst st) = sz \<and> terminated (fst st) \<and> length (cstr (fst st)) \<le> n"
proof -
  from assms obtain x where v: "cview (fst st) (snd st) x" "length (fst st) = sz" "snd st \<le> n"
    by (auto simp: buffer_ok_def)
  then have "NUL = fst st ! snd st" "snd st < length (fst st)"
    using assms(2) by (simp_all add: cview_def)
  then have "terminated (fst st)" by (metis nth_mem terminated_def)
  with v cview_cstr [OF v(1)] cviewD(5) [OF v(1)] show ?thesis by simp
qed

text \<open>
  Property C14: cleaning a function name always returns, the buffer keeps its size and stays
  terminated, and the name never grows; with one exception, which is exact: when the template
  abbreviations leave a \<open>std::make_shared<\<close> with no comma behind it, the length becomes \<open>npos\<close> and
  the next search reads outside the buffer.
\<close>

theorem cleanupFunctionName_safe:
  assumes "terminated f" "length f < npos"
  shows "\<exists>st. cleanup_templates f = Inr st \<and>
    (if make_shared_without_comma (cstr (fst st)) then cleanupFunctionName f = Inl OutOfBounds
     else \<exists>g. cleanupFunctionName f = Inr g \<and> length g = length f \<and> terminated g
       \<and> length (cstr g) \<le> length (cstr f))"
proof -
  from cleanup_templates_ok [OF assms] obtain st where st: "cleanup_templates f = Inr st"
    and ok: "buffer_ok (length f) (length (cstr f)) st" by blast
  have n: "length (cstr f) < length f" "length (cstr f) < npos"
    using length_cstr_less [OF assms(1)] assms(2) by simp_all
  have len: "length (fst st) = length f" using ok by (simp add: buffer_ok_def)
  show ?thesis
  proof (cases "make_shared_without_comma (cstr (fst st))")
    case True
    with shorten_make_shared_ok [OF ok n(2)] have "shorten_make_shared st = Inr (fst st, npos)" by simp
    then have "cleanupFunctionName f = Inl OutOfBounds"
      using assms(2) len by (simp add: cleanupFunctionName_def st shorten_vector_def view_find_def)
    with True st show ?thesis by simp
  next
    case False
    with shorten_make_shared_ok [OF ok n(2)] obtain st1 where st1: "shorten_make_shared st = Inr st1"
      and ok1: "buffer_ok (length f) (length (cstr f)) st1" by auto
    from shorten_vector_ok [OF ok1 n(2)] obtain st2 where st2: "shorten_vector st1 = Inr st2"
      and ok2: "fst st2 = fst st1 \<or> buffer_ok (length f) (length (cstr f)) st2" by auto
    have "cleanupFunctionName f = Inr (fst st2)"
      by (simp add: cleanupFunctionName_def st st1 st2)
    moreover have "length (fst st2) = length f \<and> terminated (fst st2)
      \<and> length (cstr (fst st2)) \<le> length (cstr f)"
      using ok2 buffer_ok_cstr [OF ok1 n(1)] buffer_ok_cstr [OF _ n(1), of st2] by auto
    ultimately show ?thesis using False st by simp
  qed
qed

lemma cview_in_buffer: "cview str N x \<Longrightarrow> \<not> length str < N"
  by (simp add: cview_def)

text \<open>A name in which no pattern of the tables occurs is left alone by the template part.\<close>

lemma strreps_none:
  "cview str N x \<Longrightarrow> list_all (\<lambda>p. find_sub (fst p) x = None) ps \<Longrightarrow> strreps ps (str, N) = Inr (str, N)"
  by (induction ps) (auto simp: call_strrep_def strrep.simps [of str N] cviewD(3) cview_in_buffer)

lemma view_find_cview: "cview str N x \<Longrightarrow> view_find s (str, N) pos = Inr (or_npos (find_from s x pos))"
  by (simp add: view_find_def cviewD(3) cview_in_buffer)

definition untouched :: "cstring \<Rightarrow> bool" where
  "untouched x = list_all (\<lambda>s. find_sub s x = None)
     (map fst space_table @ [''std::ratio<'', ''std::chrono::duration<'', ''::sleep_for<'',
       ''[abi:cxx11]'', ''std::__cxx11::basic_string<'', ''std::basic_string<'',
       ''std::__cxx11::basic_std::string_view<'', ''std::basic_std::string_view<char''])"

lemma cleanup_templates_untouched:
  assumes "terminated f" "length f < npos" "untouched (cstr f)"
  shows "cleanup_templates f = Inr (f, length (cstr f))"
proof -
  let ?N = "length (cstr f)"
  have "?N \<le> npos" using assms(2) length_cstr_le [of f] by linarith
  from cview_initial [OF assms(1) this] have v: "cview f ?N (cstr f)" .
  note f = view_find_cview [OF v]
  have "list_all (\<lambda>p. find_sub (fst p) (cstr f) = None) space_table"
    using assms(3) by (simp add: untouched_def list_all_iff)
  then have "strreps space_table (f, ?N) = Inr (f, ?N)" by (rule strreps_none [OF v])
  moreover have "basic_string_loop (f, ?N) 0 = Inr (f, ?N)"
    using assms(3)
    by (simp add: basic_string_loop.simps [of "(f, ?N)"] basic_string_step_def f find_from_0 untouched_def)
  moreover have "string_view_loop (f, ?N) 0 = Inr (f, ?N)"
    using assms(3)
    by (simp add: string_view_loop.simps [of "(f, ?N)"] string_view_step_def f find_from_0 untouched_def)
  moreover have "call_strrep ''std::__cxx11::basic_std::string_view<''
      ''std::basic_std::string_view<'' (f, ?N) = Inr (f, ?N)"
    using assms(3) v by (simp add: call_strrep_def strrep.simps [of f] cviewD(3) cview_in_buffer untouched_def)
  moreover have "strreps [(''[abi:cxx11]'', []),
      (''std::__cxx11::basic_string<'', ''std::basic_string<'')] (f, ?N) = Inr (f, ?N)"
    using assms(3) by (intro strreps_none [OF v]) (simp add: untouched_def)
  moreover have g: "guarded_strreps m ps (f, ?N) = Inr (f, ?N)" if "find_sub m (cstr f) = None" for m ps
    using that by (simp add: guarded_strreps_def f find_from_0)
  have "guarded_strreps ''std::ratio<'' ratio_table (f, ?N) = Inr (f, ?N)"
    "guarded_strreps ''std::chrono::duration<'' duration_table (f, ?N) = Inr (f, ?N)"
    "guarded_strreps ''::sleep_for<'' sleep_table (f, ?N) = Inr (f, ?N)"
    using assms(3) by (auto simp: untouched_def intro!: g)
  ultimately show ?thesis
    using assms(1) by (simp only: cleanup_templates_def if_True bindR_simps)
qed

text \<open>A plain name is left alone altogether.\<close>

lemma cleanup_plain_name:
  assumes "terminated f" "length f < npos" "untouched (cstr f)"
    "find_sub ''std::make_shared<'' (cstr f) = None" "find_sub ''std::vector<'' (cstr f) = None"
  shows "cleanupFunctionName f = Inr f"
proof -
  have "length (cstr f) \<le> npos" using assms(2) length_cstr_le [of f] by linarith
  from view_find_cview [OF cview_initial [OF assms(1) this]]
  have v: "view_find s (f, length (cstr f)) 0 = Inr (or_npos (find_sub s (cstr f)))" for s by (simp add: find_from_0)
  show ?thesis
    by (simp add: cleanupFunctionName_def cleanup_templates_untouched [OF assms(1-3)] shorten_make_shared_def
        shorten_vector_def v assms(4,5))
qed

text \<open>A call of \<open>make_shared\<close> without arguments is such a name.\<close>

definition make_shared_name :: cstring where
  "make_shared_name = ''std::make_shared<A>()'' @ [NUL]"

lemma make_shared_name_props:
  "terminated make_shared_name" "length make_shared_name < npos"
  "cstr make_shared_name = ''std::make_shared<A>()''"
  by (simp_all add: make_shared_name_def terminated_def npos_def cstr_def)

theorem cleanupFunctionName_safe_witness: "cleanupFunctionName make_shared_name = Inl OutOfBounds"
proof -
  have "untouched (cstr make_shared_name)"
    unfolding make_shared_name_props(3) by (simp add: untouched_def space_table_def)
  from cleanup_templates_untouched [OF make_shared_name_props(1,2) this]
  have "cleanup_templates make_shared_name = Inr (make_shared_name, length (cstr make_shared_name))" .
  moreover have "make_shared_without_comma (cstr make_shared_name)"
    unfolding make_shared_name_props(3)
    by (simp add: make_shared_without_comma_def find_from_def)
  ultimately show ?thesis
    using cleanupFunctionName_safe [OF make_shared_name_props(1,2)] by auto
qed

section \<open>What is abbreviated, and what is lost\<close>

text \<open>The nesting depth of angle brackets behind a text that never closes the outermost one.\<close>

fun stays_open :: "nat \<Rightarrow> cstring \<Rightarrow> nat option" where
  "stays_open d [] = Some d"
| "stays_open d (c # cs) =
     (if c = CHR ''<'' then stays_open (Suc d) cs
      else if c = CHR ''>'' then (if d \<le> 1 then None else stays_open (d - 1) cs)
      else stays_open d cs)"

lemma match_loop_stays_open:
  assumes "stays_open d a = Some d'" "0 < d" "length b + length a \<le> N" "N \<le> length (b @ a @ c)"
  shows "match_loop (b @ a @ c) N (length b) (int d) = match_loop (b @ a @ c) N (length b + length a) (int d')"
  using assms
proof (induction d a arbitrary: b rule: stays_open.induct)
  case (2 d x cs)
  from 2(5-7) have step: "match_loop (b @ (x # cs) @ c) N (length b) (int d) =
      match_loop ((b @ [x]) @ cs @ c) N (length (b @ [x]))
        (if x = CHR ''<'' then int d + 1 else if x = CHR ''>'' then int d - 1 else int d)"
    by (subst match_loop.simps) simp
  consider "x = CHR ''<''" | "x = CHR ''>''" "\<not> d \<le> 1" | "x \<noteq> CHR ''<''" "x \<noteq> CHR ''>''"
    using 2(4) by fastforce
  then show ?case
  proof cases
    case 1
    with 2(1) [of "b @ [x]"] 2(4-7) step show ?thesis by (simp add: add.commute)
  next
    case 2
    with "2.IH"(2) [of "b @ [x]"] "2.prems" step show ?thesis by (simp add: of_nat_diff)
  next
    case 3
    with "2.IH"(3) [of "b @ [x]"] "2.prems" step show ?thesis by simp
  qed
qed simp

lemma findMatching_closes:
  assumes "stays_open 1 a = Some 1" "N \<le> length (b @ CHR ''<'' # a @ CHR ''>'' # c)"
    "length b + length a + 2 \<le> N"
  shows "findMatching (b @ CHR ''<'' # a @ CHR ''>'' # c) N (length b) = Inr (length b + length a + 2)"
proof -
  let ?s = "b @ CHR ''<'' # a @ CHR ''>'' # c"
  have "match_loop ?s N (Suc (length b)) 1 = match_loop ?s N (Suc (length b) + length a) 1"
    using match_loop_stays_open [OF assms(1), of "b @ [CHR ''<'']" N "CHR ''>'' # c"] assms(2,3)
    by simp
  also have "\<dots> = match_loop ?s N (Suc (Suc (length b) + length a)) 0"
    using assms(2,3) by (subst match_loop.simps) (simp add: nth_append)
  also have "\<dots> = Inr (length b + length a + 2)"
    by (subst match_loop.simps) simp
  finally show ?thesis by (simp add: findMatching_def)
qed

lemma drop_exact: "length a = n \<Longrightarrow> drop n (a @ b) = b"
  by simp

lemma not_in_abbreviated:
  "find_sub ''std::basic_string<'' v = None \<Longrightarrow> find_sub ''std::basic_string<'' (''td::string'' @ v) = None"
  by simp

text \<open>
  The loop over \<open>std::basic_string<\<close> finds the bracket that closes the template and
  replaces exactly the instance by \<open>std::string\<close>. The character type is only compared by its
  first four letters, so \<open>char16_t\<close> and \<open>char32_t\<close> strings are abbreviated to \<open>std::string\<close> too.
\<close>

lemma basic_string_abbreviated:
  assumes v: "cview str N (u @ ''std::basic_string<char'' @ a @ ''>'' @ v)"
    and open_a: "stays_open 1 a = Some 1"
    and first: "find_sub ''std::basic_string<'' (u @ ''std::basic_string<char'' @ a @ ''>'' @ v) = Some (length u)"
    and last: "find_sub ''std::basic_string<'' v = None"
  shows "\<exists>str' N'. basic_string_loop (str, N) 0 = Inr (str', N') \<and> cview str' N' (u @ ''std::string'' @ v)"
proof -
  let ?x = "u @ ''std::basic_string<char'' @ a @ ''>'' @ v"
  let ?p = "length u"
  let ?len = "24 + length a"
  let ?res = "replace str N ?p (?p + 17 + (length a + 4) + 2 - ?p) ''std::string''"
  from cviewD(5) [OF v] have N: "N = ?p + 23 + length a + length v" by simp
  from cviewD [OF v] have str: "str = ?x @ drop N str" by (metis append_take_drop_id)
  have p: "?p \<noteq> npos" using cviewD(2) [OF v] N by simp
  define rest where "rest = v @ drop N str"
  have str2: "str = (u @ ''std::basic_string'') @ CHR ''<'' # (''char'' @ a) @ CHR ''>'' # rest"
    using str by (simp add: rest_def)
  have "stays_open 1 (''char'' @ a) = Some 1" using open_a by simp
  moreover have lb: "length (u @ ''std::basic_string'') = ?p + 17" "length (''char'' @ a) = length a + 4"
    by simp_all
  ultimately have m: "findMatching str N (?p + 17) = Inr (?p + 17 + (length a + 4) + 2)"
    using findMatching_closes [of "''char'' @ a" N "u @ ''std::basic_string''" rest] N cviewD(1) [OF v]
    unfolding str2 [symmetric] lb by linarith
  have d: "drop (?p + 17 + 1) str = ''char'' @ a @ CHR ''>'' # rest"
    by (subst str2) simp
  have "find_from ''std::basic_string<'' ?x 0 = Some ?p" using first by (simp add: find_from_0)
  then have f: "view_find ''std::basic_string<'' (str, N) 0 = Inr ?p"
    using view_find_cview [OF v] by simp
  have ab: "string_abbreviation (''char'' @ a @ CHR ''>'' # rest) = Some ''std::string''"
    by (simp add: string_abbreviation_def eval_nat_numeral)
  have s1: "basic_string_step (str, N) 0 = Inr (Some (?res, ?p + 1))"
    unfolding basic_string_step_def f bindR_simps Let_def fst_conv snd_conv m d ab
    using p by simp
  have sp: "spliced ?x ?p (?p + 17 + (length a + 4) + 2 - ?p) ''std::string'' = u @ ''std::string'' @ v"
  proof -
    have "drop (?p + (?p + 17 + (length a + 4) + 2 - ?p)) ((u @ ''std::basic_string<char'' @ a @ ''>'') @ v) = v"
      by (rule drop_exact) simp
    then show ?thesis by (simp add: spliced_def del: drop_append)
  qed
  have "cview (fst ?res) (snd ?res) (spliced ?x ?p (?p + 17 + (length a + 4) + 2 - ?p) ''std::string'')"
    using N by (intro replace_cview(1) [OF v]) simp_all
  then have v': "cview (fst ?res) (snd ?res) (u @ ''std::string'' @ v)" unfolding sp .
  have "find_from ''std::basic_string<'' (u @ ''std::string'' @ v) (?p + 1) = None"
    using not_in_abbreviated [OF last] by (simp add: find_from_def)
  then have "basic_string_step ?res (?p + 1) = Inr None"
    using view_find_cview [OF v', of "''std::basic_string<''" "?p + 1"]
    by (simp add: basic_string_step_def)
  then have "basic_string_loop ?res (?p + 1) = Inr ?res"
    by (subst basic_string_loop.simps) simp
  moreover have "basic_string_loop (str, N) 0 = basic_string_loop ?res (?p + 1)"
    using s1 N by (subst basic_string_loop.simps) simp
  ultimately show ?thesis using v' by (metis surjective_pairing)
qed

text \<open>The characters behind a growing replacement.\<close>

lemma no_occurrence_behind:
  assumes s: "s = a @ c # t" and r: "r \<noteq> []" "c \<notin> set r" "hd r \<notin> set t"
    and u: "\<not> sublist s u" and x: "take (length u) x = u" "set (drop (length u) x) \<subseteq> set r"
      "length u < length x \<longrightarrow> x ! length u = hd r"
  shows "find_sub s x = None"
proof (rule ccontr)
  assume "find_sub s x \<noteq> None"
  then obtain j where j: "find_sub s x = Some j" by auto
  have nth: "x ! (j + i) = s ! i" if "i < length s" for i
    using find_sub_SomeD [OF j] find_sub_bound [OF j] that
    by (metis add_leD1 nth_drop prefix_def nth_append)
  show False
  proof (cases "j + length s \<le> length u")
    case True
    from find_sub_SomeD [OF j] obtain z where z: "drop j x = s @ z" by (auto simp: prefix_def)
    have "drop j u = take (length u - j) (s @ z)"
      using arg_cong [OF x(1), of "drop j"] by (simp add: drop_take z)
    then have "u = take j u @ s @ take (length u - j - length s) z"
      using append_take_drop_id [of j u] True by simp
    with u show False by (metis sublist_appendI)
  next
    case False
    have cx: "x ! (j + length a) = c" using nth [of "length a"] s by simp
    have bound: "j + length s \<le> length x" by (rule find_sub_bound [OF j])
    have "j + length a < length u"
    proof (rule ccontr)
      assume *: "\<not> j + length a < length u"
      have "c = drop (length u) x ! (j + length a - length u)"
        using * cx bound s by simp
      moreover have "j + length a - length u < length (drop (length u) x)"
        using * bound s by simp
      ultimately have "c \<in> set (drop (length u) x)" using nth_mem by metis
      with x(2) r(2) show False by blast
    qed
    moreover have "x ! length u = s ! (length u - j)"
      using nth [of "length u - j"] False calculation by simp
    moreover have "s ! (length u - j) \<in> set t"
      using False calculation(1) unfolding s by (auto simp: nth_append nth_Cons' intro!: nth_mem)
    ultimately show False using x(3) r(3) False bound by simp
  qed
qed

lemma growing_sleep_pairs:
  "list_all (\<lambda>(s, r). length s < length r \<longrightarrow>
     (s = ''::sleep_for<lon'' @ CHR ''g'' # ''>'' \<or> s = ''::sleep_for<lon'' @ CHR ''g'' # '',>'')
     \<and> r = ''::sleep_for<seconds>'') sleep_table"
  by (simp add: sleep_table_def)

text \<open>
  \<open>strrep\<close> is not safe for content when the replacement is longer than the pattern,
  which is the case for the two sleep patterns for seconds: whatever follows the pattern in the name is
  overwritten by a repetition of characters of the replacement, up to the unchanged length.
\<close>

lemma sleep_for_overwrites_tail:
  assumes v: "cview str N (u @ s @ tail)" and first: "\<not> sublist s u"
    and at: "find_sub s (u @ s @ tail) = Some (length u)"
    and pair: "(s, r) \<in> set sleep_table" "length s < length r"
  shows "\<exists>str'. strrep str N s r = Some (Inr (str', N)) \<and> length (cstr str') = length (u @ s @ tail)
    \<and> take (length u) (cstr str') = u \<and> set (drop (length u) (cstr str')) \<subseteq> set r"
proof -
  let ?x = "u @ s @ tail" and ?p = "length u"
  obtain s' N' where res: "replace str N ?p (length s) r = (s', N')" by fastforce
  have N: "?p + length s \<le> N" using cviewD(5) [OF v] by simp
  with cviewD(2) [OF v] have w: "uadd64 ?p (length s) = ?p + length s" by (simp add: uadd64_small)
  have sr: "(s = ''::sleep_for<lon'' @ CHR ''g'' # ''>'' \<or> s = ''::sleep_for<lon'' @ CHR ''g'' # '',>'')
      \<and> r = ''::sleep_for<seconds>''"
    using growing_sleep_pairs pair unfolding list_all_iff by blast
  then have r: "r \<noteq> []" "NUL \<notin> set r" "s \<noteq> []" by auto
  have "?p \<le> N" using N by simp
  from replace_general [OF v this r(2) res] w pair(2)
  obtain x' where x': "cview s' N x'" "take ?p x' = take ?p ?x"
      "\<forall>j. ?p \<le> j \<and> j < N \<longrightarrow> x' ! j \<in> set r" "?p < N \<longrightarrow> x' ! ?p = hd r" and N': "N' = N"
    by auto
  have lx: "length x' = N" by (rule cviewD(5) [OF x'(1)])
  have tail: "set (drop ?p x') \<subseteq> set r"
    using x'(3) lx by (auto simp: in_set_conv_nth)
  have "find_sub s x' = None"
    using sr
  proof (elim conjE disjE)
    assume *: "s = ''::sleep_for<lon'' @ CHR ''g'' # ''>''" "r = ''::sleep_for<seconds>''"
    show ?thesis by (rule no_occurrence_behind [OF *(1) r(1), of u]) (use * first x' tail lx in simp_all)
  next
    assume *: "s = ''::sleep_for<lon'' @ CHR ''g'' # '',>''" "r = ''::sleep_for<seconds>''"
    show ?thesis by (rule no_occurrence_behind [OF *(1) r(1), of u]) (use * first x' tail lx in simp_all)
  qed
  then have "strrep s' N s r = Some (Inr (s', N))"
    using cviewD [OF x'(1)] by (simp add: strrep.simps [of s'])
  then have "strrep str N s r = Some (Inr (s', N))"
    using at cviewD [OF v] res N' by (simp add: strrep.simps [of str])
  moreover have "cstr s' = x'" by (rule cview_cstr [OF x'(1)])
  ultimately show ?thesis using x'(2) tail lx cviewD(5) [OF v] by auto
qed

lemma sleep_for_overwrites_tail_witness:
  "\<exists>str'. strrep ''f::sleep_for<long,>(unsigned)'' 29 ''::sleep_for<long,>'' ''::sleep_for<seconds>''
      = Some (Inr (str', 29)) \<and> length (cstr str') = 29
    \<and> take 1 (cstr str') = ''f'' \<and> set (drop 1 (cstr str')) \<subseteq> set ''::sleep_for<seconds>''"
proof -
  have x: "cview ''f::sleep_for<long,>(unsigned)'' 29 (''f'' @ ''::sleep_for<long,>'' @ ''(unsigned)'')"
    by (simp add: cview_def npos_def)
  have a: "\<not> sublist ''::sleep_for<long,>'' ''f''" by (simp add: sublist_Cons_right)
  have b: "find_sub ''::sleep_for<long,>'' (''f'' @ ''::sleep_for<long,>'' @ ''(unsigned)'') = Some (length ''f'')"
    by simp
  have c: "(''::sleep_for<long,>'', ''::sleep_for<seconds>'') \<in> set sleep_table"
    by (simp add: sleep_table_def)
  have d: "length ''::sleep_for<long,>'' < length ''::sleep_for<seconds>''" by simp
  have l: "length (''f'' @ ''::sleep_for<long,>'' @ ''(unsigned)'') = 29" "length ''f'' = 1" by simp_all
  show ?thesis using sleep_for_overwrites_tail [OF x a b c d] unfolding l .
qed

end
