(* ===== verification/Cleanup.thy ===== *)
theory Cleanup
  imports Multi_Stack
begin

text \<open>
  \<open>keep\<close> and \<open>cleanupStackTrace\<close> of \<open>StackTrace.cpp\<close>: frames of the C++ run time, of MPI and of this
  library are removed from a tree of call stacks, their children take their place, and siblings that
  have become equal are combined.
\<close>

section \<open>Which frames are kept\<close>

text \<open>A \<open>string_view\<close> on a field is its C string; comparison with a literal is equality.\<close>

definition keep :: "stack_info \<Rightarrow> bool" where
  "keep info =
     (let object = cstr (si_object info); function_name = cstr (si_function info);
          filename = cstr (si_filename info)
      in if filename = ''StackTrace.cpp'' \<and> contains function_name ''backtrace_thread'' then False
         else if contains object ''libc.so'' \<and> contains function_name ''__libc_start_main'' then False
         else if contains object ''libstdc++'' \<and> contains function_name ''std::this_thread::__sleep_for('' then False
         else if contains object ''libpthread'' \<and> contains function_name ''__restore_rt''
           \<and> contains object ''libpthread'' then False
         else if filename = ''condition_variable''
           \<and> contains function_name ''std::condition_variable::__wait_until_impl'' then False
         else if filename = ''functional'' \<and> (contains function_name ''std::_Function_handler<''
           \<or> contains function_name ''std::_Bind_simple<'' \<or> contains function_name ''_M_invoke'') then False
         else if filename = ''thread'' \<and> (contains function_name ''std::thread::_Impl<''
           \<or> contains function_name ''std::thread::_Invoker<'') then False
         else if filename = ''invoke.h'' \<and> (contains function_name ''std::__invoke_impl''
           \<or> contains function_name ''std::__invoke_result'') then False
         else if function_name = ''__GI___pthread_timedjoin_ex'' then False
         else if function_name = ''MPIR_Barrier_impl'' \<or> function_name = ''MPIR_Barrier_intra''
           \<or> function_name = ''MPIC_Sendrecv'' then False
         else if function_name = ''opal_libevent2022_event_set_log_callback''
           \<or> function_name = ''opal_libevent2022_event_base_loop'' then False
         else if object = ''libmwmcr.so'' \<or> object = ''libmwm_lxe.so'' \<or> object = ''libmwbridge.so''
           \<or> object = ''libmwmiqm.so'' \<or> object = ''libmwm_dispatcher.so'' \<or> object = ''libmwmvm.so''
           \<or> contains object ''libPocoNetSSL.so'' then False
         else if filename = ''shared_ptr.h'' \<and> (contains function_name ''> std::allocate_shared<''
           \<or> contains function_name ''std::_Sp_make_shared_tag,'') then False
         else if filename = ''shared_ptr_base.h'' then False
         else if filename = ''new_allocator.h'' then False
         else if filename = ''alloc_traits.h'' then False
         else if filename = ''gthr-default.h'' then False
         else if function_name = [] \<and> filename = [] then False
         else True)"

text \<open>
  Frames of the threads that only contribute to collecting the stacks; they go with everything they
  called.
\<close>

definition contributing :: "stack_info \<Rightarrow> bool" where
  "contributing info =
     (let function_name = cstr (si_function info); filename = cstr (si_filename info)
      in filename = ''StackTrace.cpp'' \<and>
         (contains function_name ''_callstack_signal_handler'' \<or> contains function_name ''getGlobalCallStacks''
          \<or> contains function_name ''backtrace'' \<or> \<not> contains function_name ''(''))"

definition libc_fgets :: "stack_info \<Rightarrow> bool" where
  "libc_fgets info =
     (contains (cstr (si_object info)) ''libc.so'' \<and> contains (cstr (si_function info)) ''fgets'')"

section \<open>The traversal\<close>

text \<open>
  The iterations of the loop that stay at one position: the entry is erased (\<open>None\<close>), or an unwanted
  entry with a single child is overwritten by that child, which is then looked at in turn,
  or the entry stays and its children are cleaned next. Here the assignment of the child to its parent
  copies a value: this is the specification that \<open>Cleanup_Vectors\<close> measures the assignment in memory against.
\<close>

function settle :: "multi_stack_info \<Rightarrow> multi_stack_info option" where
  "settle (MSI n s cs) =
     (if contributing s then None
      else if libc_fgets s then (if keep s then Some (MSI n s []) else None)
      else if keep s then Some (MSI n s cs)
      else (case cs of
              [] \<Rightarrow> None
            | c # [] \<Rightarrow> settle c
            | c # d # ds \<Rightarrow> Some (MSI n s cs)))"
  by pat_completeness auto
termination
  by (relation "measure size") auto

declare settle.simps [simp del]

text \<open>
  Combining the cleaned entry \<open>it\<close> with the entries in front of it. The comparison need not be
  transitive, so more than one can match; each gets the number and the children, and is cleaned
  again. \<open>clean\<close> is the recursive call.
\<close>

fun combine_with ::
    "(multi_stack_info \<Rightarrow> multi_stack_info result) \<Rightarrow> multi_stack_info \<Rightarrow> multi_stack_info list
      \<Rightarrow> (multi_stack_info list \<times> bool) result" where
  "combine_with clean it [] = Inr ([], False)"
| "combine_with clean it (it2 # rest) =
     (if stack_eq (ms_stack it) (ms_stack it2)
      then bindR (clean (MSI (ms_N it2 + ms_N it) (ms_stack it2) (ms_children it2 @ ms_children it)))
             (\<lambda>it2'. bindR (combine_with clean it rest) (\<lambda>(rest', remove). Inr (it2' # rest', True)))
      else bindR (combine_with clean it rest) (\<lambda>(rest', remove). Inr (it2 # rest', remove)))"

text \<open>The loop over the children: \<open>front\<close> are the entries before the iterator.\<close>

fun clean_loop ::
    "(multi_stack_info \<Rightarrow> multi_stack_info result) \<Rightarrow> multi_stack_info list \<Rightarrow> multi_stack_info list
      \<Rightarrow> multi_stack_info list result" where
  "clean_loop clean front [] = Inr front"
| "clean_loop clean front (it # rest) =
     (case settle it of
        None \<Rightarrow> clean_loop clean front rest
      | Some it1 \<Rightarrow>
          bindR (clean it1) (\<lambda>it2.
          bindR (combine_with clean it2 front) (\<lambda>(front', remove).
            clean_loop clean (if remove then front' else front' @ [it2]) rest)))"

text \<open>The recursion, with a bound on its depth; the depth of the tree is enough.\<close>

fun clean_tree :: "nat \<Rightarrow> multi_stack_info \<Rightarrow> multi_stack_info result" where
  "clean_tree 0 t = Inl OutOfFuel"
| "clean_tree (Suc f) t =
     bindR (clean_loop (clean_tree f) [] (ms_children t))
       (\<lambda>cs. Inr (MSI (ms_N t) (ms_stack t) cs))"

definition cleanupStackTrace :: "multi_stack_info \<Rightarrow> multi_stack_info result" where
  "cleanupStackTrace t = clean_tree (ms_depth t) t"

section \<open>The traversal returns, and what it leaves\<close>

lemma settle_induct:
  assumes "settle t = Some t'"
    and "\<And>n s cs. \<not> contributing s \<Longrightarrow> libc_fgets s \<Longrightarrow> keep s \<Longrightarrow> P (MSI n s cs) (MSI n s [])"
    and "\<And>n s cs. \<not> contributing s \<Longrightarrow> \<not> libc_fgets s \<Longrightarrow> keep s \<or> 1 < length cs \<Longrightarrow> P (MSI n s cs) (MSI n s cs)"
    and "\<And>n s c. \<not> contributing s \<Longrightarrow> \<not> libc_fgets s \<Longrightarrow> \<not> keep s \<Longrightarrow> settle c = Some t' \<Longrightarrow> P c t'
      \<Longrightarrow> P (MSI n s [c]) t'"
  shows "P t t'"
  using assms(1)
proof (induction t rule: settle.induct)
  case (1 n s cs)
  have e: "settle (MSI n s cs) = Some t'" by (rule 1(2))
  show ?case
  proof (cases "contributing s \<or> libc_fgets s \<or> keep s")
    case True
    with e assms(2,3) show ?thesis by (auto simp: settle.simps [of n s cs] split: if_splits)
  next
    case False
    show ?thesis
    proof (cases cs rule: remdups_adj.cases)
      case 1
      with e False show ?thesis by (simp add: settle.simps [of n s "[]"])
    next
      case (2 c)
      with e False have c: "settle c = Some t'" by (simp add: settle.simps [of n s "[c]"])
      with "1.IH" 2 False have "P c t'" by simp
      with c 2 False show ?thesis by (auto intro: assms(4))
    next
      case (3 c d ds)
      with e False have "t' = MSI n s cs" by (simp add: settle.simps [of n s "c # d # ds"])
      with 3 False show ?thesis by (auto intro!: assms(3))
    qed
  qed
qed

lemma settle_props:
  assumes "settle t = Some t'"
  shows "\<not> contributing (ms_stack t')" "libc_fgets (ms_stack t') \<Longrightarrow> ms_children t' = []"
    "ms_depth t' \<le> ms_depth t" "ms_all P t \<Longrightarrow> ms_all P t'"
proof -
  show "\<not> contributing (ms_stack t')" using assms by (rule settle_induct) auto
  have "libc_fgets (ms_stack t') \<longrightarrow> ms_children t' = []"
    using assms
    by (rule settle_induct [where P = "\<lambda>_ t'. libc_fgets (ms_stack t') \<longrightarrow> ms_children t' = []"]) auto
  then show "libc_fgets (ms_stack t') \<Longrightarrow> ms_children t' = []" by blast
  show "ms_depth t' \<le> ms_depth t" using assms by (rule settle_induct) auto
  have "ms_all P t \<longrightarrow> ms_all P t'"
    using assms by (rule settle_induct [where P = "\<lambda>t t'. ms_all P t \<longrightarrow> ms_all P t'"]) auto
  then show "ms_all P t \<Longrightarrow> ms_all P t'" by blast
qed

lemma forest_ok_all: "forest_ok {s. P s \<and> Q s} cs \<Longrightarrow> c \<in> set cs \<Longrightarrow> ms_all (\<lambda>_. P) c"
proof (induction "{s. P s \<and> Q s}" cs arbitrary: c rule: forest_ok.induct)
  case (2 n s cs ts)
  then show ?case by auto
qed simp

lemma forest_ok_mono: "forest_ok F cs \<Longrightarrow> F \<subseteq> G \<Longrightarrow> forest_ok G cs"
  by (induction F cs rule: forest_ok.induct) auto

lemma ms_depth_MSI: "ms_depth (MSI n s cs) \<le> Suc d \<longleftrightarrow> (\<forall>c \<in> set cs. ms_depth c \<le> d)"
  by (simp add: foldr_max_le_iff)

lemma depth_combined:
  assumes "ms_depth x \<le> d" "ms_depth y \<le> d"
  shows "ms_depth (MSI n s (ms_children x @ ms_children y)) \<le> d"
proof -
  obtain k where k: "d = Suc k" using assms(1) by (cases d) auto
  have "\<forall>c \<in> set (ms_children x @ ms_children y). ms_depth c \<le> k"
    using assms ms_depth_MSI [of "ms_N x" "ms_stack x" "ms_children x" k]
      ms_depth_MSI [of "ms_N y" "ms_stack y" "ms_children y" k]
    by (auto simp: k simp del: ms_depth.simps)
  then show ?thesis unfolding k ms_depth_MSI .
qed

text \<open>
  What the recursive call promises to the loop, for the trees of a depth up to \<open>d\<close> whose frames
  satisfy \<open>P\<close>.
\<close>

definition cleans :: "nat \<Rightarrow> (stack_info \<Rightarrow> bool) \<Rightarrow> (multi_stack_info \<Rightarrow> multi_stack_info result) \<Rightarrow> bool" where
  "cleans d P clean \<longleftrightarrow>
     (\<forall>t. ms_depth t \<le> d \<longrightarrow> (\<forall>c \<in> set (ms_children t). ms_all (\<lambda>_. P) c) \<longrightarrow>
       (\<exists>cs. clean t = Inr (MSI (ms_N t) (ms_stack t) cs) \<and> ms_depth (MSI (ms_N t) (ms_stack t) cs) \<le> ms_depth t
         \<and> forest_ok {s. P s \<and> \<not> contributing s} cs))"

lemma cleansD:
  assumes "cleans d P clean" "ms_depth t \<le> d" "\<forall>c \<in> set (ms_children t). ms_all (\<lambda>_. P) c"
  obtains cs where "clean t = Inr (MSI (ms_N t) (ms_stack t) cs)"
    "ms_depth (MSI (ms_N t) (ms_stack t) cs) \<le> ms_depth t" "forest_ok {s. P s \<and> \<not> contributing s} cs"
  using assms unfolding cleans_def by blast

lemma combine_with_ok:
  assumes cl: "cleans d P clean"
    and it: "forest_ok {s. P s \<and> \<not> contributing s} (ms_children it)" "ms_depth it \<le> d"
    and front: "forest_ok {s. P s \<and> \<not> contributing s} front" "\<forall>c \<in> set front. ms_depth c \<le> d"
  shows "\<exists>front' remove. combine_with clean it front = Inr (front', remove)
    \<and> map ms_stack front' = map ms_stack front
    \<and> forest_ok {s. P s \<and> \<not> contributing s} front' \<and> (\<forall>c \<in> set front'. ms_depth c \<le> d)
    \<and> (remove \<longleftrightarrow> (\<exists>c \<in> set front. stack_eq (ms_stack it) (ms_stack c)))"
  using front
proof (induction front)
  case Nil
  then show ?case by auto
next
  case (Cons x xs)
  let ?F = "{s. P s \<and> \<not> contributing s}"
  from Cons obtain xs' r where xs': "combine_with clean it xs = Inr (xs', r)"
      "map ms_stack xs' = map ms_stack xs" "forest_ok ?F xs'" "\<forall>c \<in> set xs'. ms_depth c \<le> d"
      "r \<longleftrightarrow> (\<exists>c \<in> set xs. stack_eq (ms_stack it) (ms_stack c))"
    by (auto simp: forest_ok_Cons)
  have sep: "\<forall>u \<in> set xs'. \<not> stack_eq (ms_stack x) (ms_stack u)"
  proof -
    have "\<forall>s \<in> set (map ms_stack xs). \<not> stack_eq (ms_stack x) s"
      using Cons.prems(1) by (simp add: forest_ok_Cons)
    then show ?thesis unfolding xs'(2) [symmetric] by simp
  qed
  show ?case
  proof (cases "stack_eq (ms_stack it) (ms_stack x)")
    case False
    with xs' Cons.prems sep show ?thesis by (auto simp: forest_ok_Cons)
  next
    case True
    let ?m = "MSI (ms_N x + ms_N it) (ms_stack x) (ms_children x @ ms_children it)"
    have dm: "ms_depth ?m \<le> d"
      using it(2) Cons.prems(2) by (intro depth_combined) simp_all
    have "\<forall>c \<in> set (ms_children ?m). ms_all (\<lambda>_. P) c"
      using it(1) Cons.prems(1) by (auto simp: forest_ok_Cons dest: forest_ok_all)
    from cleansD [OF cl dm this] obtain cs where cs: "clean ?m = Inr (MSI (ms_N ?m) (ms_stack ?m) cs)"
      "ms_depth (MSI (ms_N ?m) (ms_stack ?m) cs) \<le> ms_depth ?m" "forest_ok ?F cs" .
    from cs(2) dm have "ms_depth (MSI (ms_N ?m) (ms_stack ?m) cs) \<le> d" by linarith
    with True xs' Cons.prems sep cs(1,3) show ?thesis
      by (auto simp: forest_ok_Cons simp del: ms_depth.simps)
  qed
qed

lemma clean_loop_ok:
  assumes cl: "cleans d P clean"
    and "forest_ok {s. P s \<and> \<not> contributing s} front" "\<forall>c \<in> set front. ms_depth c \<le> d"
    and "\<forall>c \<in> set rest. ms_depth c \<le> d \<and> ms_all (\<lambda>_. P) c"
  shows "\<exists>cs. clean_loop clean front rest = Inr cs \<and> forest_ok {s. P s \<and> \<not> contributing s} cs
    \<and> (\<forall>c \<in> set cs. ms_depth c \<le> d)"
  using assms(2-)
proof (induction rest arbitrary: front)
  case Nil
  then show ?case by simp
next
  case (Cons it rest)
  let ?F = "{s. P s \<and> \<not> contributing s}"
  show ?case
  proof (cases "settle it")
    case None
    with Cons show ?thesis by simp
  next
    case (Some it1)
    note st = settle_props [OF Some]
    have it1: "ms_depth it1 \<le> d" "ms_all (\<lambda>_. P) it1" "\<not> contributing (ms_stack it1)"
      using st Cons.prems(3) by (auto intro: le_trans)
    then have "\<forall>c \<in> set (ms_children it1). ms_all (\<lambda>_. P) c" "P (ms_stack it1)"
      by (cases it1; simp)+
    from cleansD [OF cl it1(1) this(1)] obtain cs
      where cs: "clean it1 = Inr (MSI (ms_N it1) (ms_stack it1) cs)"
        "ms_depth (MSI (ms_N it1) (ms_stack it1) cs) \<le> ms_depth it1" "forest_ok ?F cs" .
    let ?it2 = "MSI (ms_N it1) (ms_stack it1) cs"
    have it2: "forest_ok ?F (ms_children ?it2)" "ms_depth ?it2 \<le> d"
      using cs it1(1) by (simp_all del: ms_depth.simps)
    from combine_with_ok [OF cl it2 Cons.prems(1,2)] obtain front' r
      where c: "combine_with clean ?it2 front = Inr (front', r)"
        "map ms_stack front' = map ms_stack front" "forest_ok ?F front'" "\<forall>c \<in> set front'. ms_depth c \<le> d"
        "r \<longleftrightarrow> (\<exists>c \<in> set front. stack_eq (ms_stack ?it2) (ms_stack c))" by blast
    let ?front = "if r then front' else front' @ [?it2]"
    have "forest_ok ?F ?front"
    proof (cases r)
      case False
      then have "\<forall>s \<in> set (map ms_stack front). \<not> stack_eq s (ms_stack ?it2)"
        using c(5) stack_eq_sym by auto
      then have "\<forall>u \<in> set front'. \<not> stack_eq (ms_stack u) (ms_stack ?it2)"
        unfolding c(2) [symmetric] by simp
      with False c(3) cs(3) it1(3) \<open>P (ms_stack it1)\<close> show ?thesis
        by (simp add: forest_ok_append)
    qed (use c(3) in simp)
    moreover have "\<forall>u \<in> set ?front. ms_depth u \<le> d" using c(4) it2(2) by (simp del: ms_depth.simps)
    ultimately have "\<exists>cs. clean_loop clean ?front rest = Inr cs \<and> forest_ok ?F cs \<and> (\<forall>c \<in> set cs. ms_depth c \<le> d)"
      using Cons.prems(3) by (intro Cons.IH) simp_all
    with Some cs(1) c(1) show ?thesis by simp
  qed
qed

lemma clean_tree_cleans: "cleans f P (clean_tree f)"
proof (induction f)
  case 0
  then show ?case by (simp add: cleans_def)
next
  case (Suc f)
  show ?case
    unfolding cleans_def
  proof (intro allI impI)
    fix t assume t: "ms_depth t \<le> Suc f" "\<forall>c \<in> set (ms_children t). ms_all (\<lambda>_. P) c"
    obtain k where k: "ms_depth t = Suc k" "k \<le> f" using t(1) by (cases "ms_depth t") auto
    have "\<forall>c \<in> set (ms_children t). ms_depth c \<le> k"
      using k ms_depth_MSI [of "ms_N t" "ms_stack t" "ms_children t" k] by (simp del: ms_depth.simps)
    moreover have "cleans k P (clean_tree f)"
      using Suc k(2) unfolding cleans_def by (meson le_trans)
    ultimately obtain cs where cs: "clean_loop (clean_tree f) [] (ms_children t) = Inr cs"
      "forest_ok {s. P s \<and> \<not> contributing s} cs" "\<forall>c \<in> set cs. ms_depth c \<le> k"
      using clean_loop_ok [of k P "clean_tree f" "[]" "ms_children t"] t(2) by auto
    have "ms_depth (MSI (ms_N t) (ms_stack t) cs) \<le> ms_depth t"
      unfolding k(1) ms_depth_MSI by (rule cs(3))
    with cs show "\<exists>cs. clean_tree (Suc f) t = Inr (MSI (ms_N t) (ms_stack t) cs)
        \<and> ms_depth (MSI (ms_N t) (ms_stack t) cs) \<le> ms_depth t
        \<and> forest_ok {s. P s \<and> \<not> contributing s} cs"
      by (simp del: ms_depth.simps)
  qed
qed

section \<open>The frames below the root\<close>

fun ms_frame_set :: "multi_stack_info \<Rightarrow> stack_info set" where
  "ms_frame_set (MSI n s cs) = insert s (\<Union>c \<in> set cs. ms_frame_set c)"

lemma ms_all_frame_set: "ms_frame_set t \<subseteq> G \<Longrightarrow> ms_all (\<lambda>_ s. s \<in> G) t"
  by (induction t) auto

definition child_frames :: "multi_stack_info \<Rightarrow> stack_info set" where
  "child_frames t = (\<Union>c \<in> set (ms_children t). ms_frame_set c)"

section \<open>One call stack\<close>

text \<open>A tree that holds a single call stack, outermost frame first, each frame counted \<open>k\<close> times.\<close>

fun chain_of :: "int \<Rightarrow> stack_info list \<Rightarrow> multi_stack_info list" where
  "chain_of k [] = []"
| "chain_of k (s # ss) = [MSI k s (chain_of k ss)]"

text \<open>The specification for it: a filter that stops at a contributing frame and behind \<open>fgets\<close>.\<close>

fun clean_frames :: "stack_info list \<Rightarrow> stack_info list" where
  "clean_frames [] = []"
| "clean_frames (s # ss) =
     (if contributing s then []
      else if libc_fgets s then filter keep [s]
      else if keep s then s # clean_frames ss
      else clean_frames ss)"

lemma clean_tree_leaf: "0 < f \<Longrightarrow> clean_tree f (MSI n s []) = Inr (MSI n s [])"
  by (cases f) simp_all

lemma clean_loop_settle: "settle t = settle c \<Longrightarrow> clean_loop cl [] [t] = clean_loop cl [] [c]"
  by simp

lemma clean_loop_chain:
  "length ss \<le> f \<Longrightarrow> clean_loop (clean_tree f) [] (chain_of k ss) = Inr (chain_of k (clean_frames ss))"
proof (induction ss arbitrary: f)
  case (Cons s ss)
  then obtain g where g: "f = Suc g" "length ss \<le> g" by (cases f) auto
  consider "contributing s \<or> libc_fgets s" | "\<not> contributing s" "\<not> libc_fgets s" "keep s"
    | "\<not> contributing s" "\<not> libc_fgets s" "\<not> keep s" by blast
  then show ?case
  proof cases
    case 1
    then show ?thesis
      by (auto simp: settle.simps [of k s "chain_of k ss"] g)
  next
    case 2
    with Cons.IH [OF g(2)] show ?thesis
      by (simp add: settle.simps [of k s "chain_of k ss"] g)
  next
    case 3
    show ?thesis
    proof (cases ss)
      case Nil
      with 3 show ?thesis by (simp add: settle.simps [of k s "[]"])
    next
      case (Cons x xs)
      with 3 have "settle (MSI k s (chain_of k ss)) = settle (MSI k x (chain_of k xs))"
        by (simp add: settle.simps [of k s "[MSI k x (chain_of k xs)]"])
      from clean_loop_settle [OF this] have
        "clean_loop (clean_tree f) [] (chain_of k (s # ss)) = clean_loop (clean_tree f) [] (chain_of k ss)"
        using Cons by simp
      also have "\<dots> = Inr (chain_of k (clean_frames ss))"
        using g by (intro Cons.IH) simp
      finally show ?thesis using 3 by simp
    qed
  qed
qed simp

lemma depth_chain: "ms_depth (MSI n r (chain_of k ss)) = Suc (length ss)"
  by (induction ss arbitrary: n r) auto

text \<open>
  On a single call stack the traversal is a filter: it keeps, in order and with their
  counts, the frames that \<open>keep\<close> accepts, up to the first frame of a contributing thread, and
  nothing that \<open>fgets\<close> called.
\<close>

lemma cleanup_single_stack:
  "cleanupStackTrace (MSI n r (chain_of k ss)) = Inr (MSI n r (chain_of k (clean_frames ss)))"
  unfolding cleanupStackTrace_def depth_chain by (simp add: clean_loop_chain)

section \<open>Combining keeps the counts\<close>

text \<open>The number recorded at a path, summed over all siblings that are equal.\<close>

fun ms_sum :: "stack_info list \<Rightarrow> multi_stack_info list \<Rightarrow> int" where
  "ms_sum [] cs = 0"
| "ms_sum (s # ps) [] = 0"
| "ms_sum (s # ps) (i # is) =
     (if stack_eq (ms_stack i) s
      then (if ps = [] then ms_N i else ms_sum ps (ms_children i)) else 0) + ms_sum (s # ps) is"

lemma ms_sum_append: "ms_sum p (xs @ ys) = ms_sum p xs + ms_sum p ys"
  by (induction p xs rule: ms_sum.induct) auto

definition unremarkable :: "stack_info \<Rightarrow> bool" where
  "unremarkable s = (keep s \<and> \<not> contributing s \<and> \<not> libc_fgets s)"

lemma settle_unremarkable: "unremarkable (ms_stack t) \<Longrightarrow> settle t = Some t"
  by (cases t) (simp add: settle.simps unremarkable_def)

text \<open>What the recursive call promises about the counts.\<close>

definition keeps_counts ::
    "nat \<Rightarrow> stack_info set \<Rightarrow> (multi_stack_info \<Rightarrow> multi_stack_info result) \<Rightarrow> bool" where
  "keeps_counts d F clean \<longleftrightarrow>
     (\<forall>t t' p. ms_depth t \<le> d \<longrightarrow> (\<forall>c \<in> set (ms_children t). ms_all (\<lambda>_ s. s \<in> F \<and> unremarkable s) c) \<longrightarrow>
       clean t = Inr t' \<longrightarrow> set p \<subseteq> F \<longrightarrow> ms_sum p (ms_children t') = ms_sum p (ms_children t))"

context frame_grouping
begin

lemma sum_nomatch: "\<forall>t \<in> set cs. \<not> stack_eq (ms_stack t) s \<Longrightarrow> ms_sum (s # ps) cs = 0"
  by (induction cs) auto

lemma sum_is_count: "forest_ok frames cs \<Longrightarrow> set p \<subseteq> frames \<Longrightarrow> ms_sum p cs = ms_count p cs"
proof (induction p cs rule: ms_sum.induct)
  case (3 s ps i "is")
  show ?case
  proof (cases "stack_eq (ms_stack i) s")
    case True
    have "\<not> stack_eq (ms_stack t) s" if t: "t \<in> set is" for t
    proof
      assume "stack_eq (ms_stack t) s"
      then have "stack_eq (ms_stack i) (ms_stack t)"
        using True 3(3,4) forest_ok_in [of frames "i # is" t] t same_right [of "ms_stack i" "ms_stack t" s]
        by (auto simp: forest_ok_Cons)
      with 3(3) t show False by (simp add: forest_ok_Cons)
    qed
    then have "ms_sum (s # ps) is = 0" by (simp add: sum_nomatch)
    with True 3 show ?thesis by (auto simp: forest_ok_Cons)
  next
    case False
    with 3 show ?thesis by (simp add: forest_ok_Cons)
  qed
qed simp_all

lemma sum_combined:
  assumes "stack_eq (ms_stack it) (ms_stack x)" "ms_stack it \<in> frames" "ms_stack x \<in> frames"
    "set p \<subseteq> frames" "\<And>ps. set ps \<subseteq> frames \<Longrightarrow> ms_sum ps cs = ms_sum ps (ms_children x @ ms_children it)"
  shows "ms_sum p [MSI (ms_N x + ms_N it) (ms_stack x) cs] = ms_sum p [x] + ms_sum p [it]"
proof (cases p)
  case (Cons s ps)
  then have "s \<in> frames" "set ps \<subseteq> frames" using assms(4) by auto
  moreover from this have "stack_eq (ms_stack it) s \<longleftrightarrow> stack_eq (ms_stack x) s"
    using same_left [of "ms_stack it" "ms_stack x" s] assms(1-3) by blast
  ultimately show ?thesis
    using assms(5) [of ps] Cons by (auto simp: ms_sum_append)
qed simp

lemma combine_with_counts:
  assumes cl: "cleans d (\<lambda>s. s \<in> frames \<and> unremarkable s) clean" "keeps_counts d frames clean"
    and it: "forest_ok {s. (s \<in> frames \<and> unremarkable s) \<and> \<not> contributing s} (ms_children it)"
      "ms_depth it \<le> d" "ms_stack it \<in> frames"
    and p: "set p \<subseteq> frames"
  shows "forest_ok {s. (s \<in> frames \<and> unremarkable s) \<and> \<not> contributing s} front
    \<Longrightarrow> \<forall>c \<in> set front. ms_depth c \<le> d \<Longrightarrow> combine_with clean it front = Inr (front', r)
    \<Longrightarrow> ms_sum p front' = ms_sum p front + (if r then ms_sum p [it] else 0)"
proof (induction front arbitrary: front' r)
  case Nil
  then show ?case by simp
next
  case (Cons x xs)
  let ?P = "\<lambda>s. s \<in> frames \<and> unremarkable s"
  let ?F = "{s. ?P s \<and> \<not> contributing s}"
  have xs: "forest_ok ?F xs" "\<forall>c \<in> set xs. ms_depth c \<le> d" and x: "ms_stack x \<in> frames"
    using Cons.prems(1,2) by (auto simp: forest_ok_Cons)
  from combine_with_ok [OF cl(1) it(1,2) xs] obtain xs' r' where xs':
      "combine_with clean it xs = Inr (xs', r')" "r' \<longleftrightarrow> (\<exists>c \<in> set xs. stack_eq (ms_stack it) (ms_stack c))"
    by blast
  have IH: "ms_sum p xs' = ms_sum p xs + (if r' then ms_sum p [it] else 0)"
    by (rule Cons.IH [OF xs xs'(1)])
  have split: "ms_sum p (y # ys) = ms_sum p [y] + ms_sum p ys" for y ys
    using ms_sum_append [of p "[y]" ys] by simp
  show ?case
  proof (cases "stack_eq (ms_stack it) (ms_stack x)")
    case False
    with Cons.prems(3) xs'(1) have "front' = x # xs'" "r = r'" by auto
    with IH show ?thesis using split [of x xs] split [of x xs'] by simp
  next
    case True
    have "\<not> stack_eq (ms_stack it) (ms_stack u)" if u: "u \<in> set xs" for u
    proof -
      have "ms_stack u \<in> frames" using forest_ok_in [OF xs(1) u] by simp
      moreover have "\<not> stack_eq (ms_stack x) (ms_stack u)"
        using Cons.prems(1) u by (simp add: forest_ok_Cons)
      ultimately show ?thesis using True x it(3) same_left [of "ms_stack it" "ms_stack x"] by blast
    qed
    with xs'(2) have "\<not> r'" by blast
    let ?m = "MSI (ms_N x + ms_N it) (ms_stack x) (ms_children x @ ms_children it)"
    have dm: "ms_depth ?m \<le> d"
      using it(2) Cons.prems(2) by (intro depth_combined) simp_all
    have "forest_ok ?F (ms_children x)" using Cons.prems(1) by (simp add: forest_ok_Cons)
    from forest_ok_all [OF this] forest_ok_all [OF it(1)]
    have all: "\<forall>c \<in> set (ms_children ?m). ms_all (\<lambda>_. ?P) c" by auto
    from cleansD [OF cl(1) dm all] obtain cs where cs: "clean ?m = Inr (MSI (ms_N ?m) (ms_stack ?m) cs)" .
    have "ms_sum ps cs = ms_sum ps (ms_children x @ ms_children it)" if "set ps \<subseteq> frames" for ps
      using cl(2) dm all cs that unfolding keeps_counts_def by fastforce
    from sum_combined [OF True it(3) x p this]
    have "ms_sum p [MSI (ms_N x + ms_N it) (ms_stack x) cs] = ms_sum p [x] + ms_sum p [it]" .
    moreover have "front' = MSI (ms_N x + ms_N it) (ms_stack x) cs # xs'" "r"
      using Cons.prems(3) xs'(1) True cs by auto
    ultimately show ?thesis
      using IH \<open>\<not> r'\<close> split [of x xs] split [of "MSI (ms_N x + ms_N it) (ms_stack x) cs" xs']
      by simp
  qed
qed

end

context frame_grouping
begin

lemma clean_loop_counts:
  assumes cl: "cleans d (\<lambda>s. s \<in> frames \<and> unremarkable s) clean" "keeps_counts d frames clean"
    and p: "set p \<subseteq> frames"
  shows "forest_ok {s. (s \<in> frames \<and> unremarkable s) \<and> \<not> contributing s} front
    \<Longrightarrow> \<forall>c \<in> set front. ms_depth c \<le> d
    \<Longrightarrow> \<forall>c \<in> set rest. ms_depth c \<le> d \<and> ms_all (\<lambda>_ s. s \<in> frames \<and> unremarkable s) c
    \<Longrightarrow> clean_loop clean front rest = Inr cs \<Longrightarrow> ms_sum p cs = ms_sum p front + ms_sum p rest"
proof (induction rest arbitrary: front)
  case Nil
  then show ?case by (cases p) simp_all
next
  case (Cons it rest)
  let ?P = "\<lambda>s. s \<in> frames \<and> unremarkable s"
  let ?F = "{s. ?P s \<and> \<not> contributing s}"
  have it: "?P (ms_stack it)" "\<forall>c \<in> set (ms_children it). ms_all (\<lambda>_. ?P) c" "ms_depth it \<le> d"
    using Cons.prems(3) by (cases it; simp)+
  from cleansD [OF cl(1) it(3,2)] obtain ks
    where ks: "clean it = Inr (MSI (ms_N it) (ms_stack it) ks)"
      "ms_depth (MSI (ms_N it) (ms_stack it) ks) \<le> ms_depth it" "forest_ok ?F ks" .
  let ?it2 = "MSI (ms_N it) (ms_stack it) ks"
  have it2: "forest_ok ?F (ms_children ?it2)" "ms_depth ?it2 \<le> d" "ms_stack ?it2 \<in> frames"
    using ks it by (simp_all del: ms_depth.simps)
  have same: "ms_sum p [?it2] = ms_sum p [it]"
  proof (cases p)
    case (Cons s ps)
    have "ms_sum ps ks = ms_sum ps (ms_children it)"
      using cl(2) it ks(1) p Cons unfolding keeps_counts_def by fastforce
    with Cons show ?thesis by simp
  qed simp
  from combine_with_ok [OF cl(1) it2(1,2) Cons.prems(1,2)] obtain front' r
    where c: "combine_with clean ?it2 front = Inr (front', r)"
      "map ms_stack front' = map ms_stack front" "forest_ok ?F front'" "\<forall>c \<in> set front'. ms_depth c \<le> d"
      "r \<longleftrightarrow> (\<exists>c \<in> set front. stack_eq (ms_stack ?it2) (ms_stack c))" by blast
  let ?front = "if r then front' else front' @ [?it2]"
  have "forest_ok ?F ?front"
  proof (cases r)
    case False
    then have "\<forall>s \<in> set (map ms_stack front). \<not> stack_eq s (ms_stack ?it2)"
      using c(5) stack_eq_sym by auto
    then have "\<forall>u \<in> set front'. \<not> stack_eq (ms_stack u) (ms_stack ?it2)"
      unfolding c(2) [symmetric] by simp
    with False c(3) ks(3) it(1) show ?thesis
      by (simp add: forest_ok_append unremarkable_def)
  qed (use c(3) in simp)
  moreover have "\<forall>u \<in> set ?front. ms_depth u \<le> d" using c(4) it2(2) by (simp del: ms_depth.simps)
  moreover have "settle it = Some it" using it(1) by (simp add: settle_unremarkable)
  then have "clean_loop clean ?front rest = Inr cs"
    using Cons.prems(4) ks(1) c(1) by simp
  ultimately have "ms_sum p cs = ms_sum p ?front + ms_sum p rest"
    using Cons.prems(3) by (intro Cons.IH) simp_all
  also have "ms_sum p ?front = ms_sum p front + ms_sum p [it]"
    using combine_with_counts [OF cl it2 p Cons.prems(1,2) c(1)] same
    by (auto simp: ms_sum_append)
  finally show ?case using ms_sum_append [of p "[it]" rest] by simp
qed

lemma clean_tree_counts: "keeps_counts f frames (clean_tree f)"
proof (induction f)
  case 0
  then show ?case by (simp add: keeps_counts_def)
next
  case (Suc f)
  show ?case
    unfolding keeps_counts_def
  proof (intro allI impI)
    fix t t' p
    assume t: "ms_depth t \<le> Suc f"
        "\<forall>c \<in> set (ms_children t). ms_all (\<lambda>_ s. s \<in> frames \<and> unremarkable s) c"
      and r: "clean_tree (Suc f) t = Inr t'" and p: "set p \<subseteq> frames"
    have "\<forall>c \<in> set (ms_children t). ms_depth c \<le> f"
      using t(1) ms_depth_MSI [of "ms_N t" "ms_stack t" "ms_children t" f] by (simp del: ms_depth.simps)
    moreover from r have "clean_loop (clean_tree f) [] (ms_children t) = Inr (ms_children t')"
      by (auto simp: bindR_Inr_iff)
    ultimately show "ms_sum p (ms_children t') = ms_sum p (ms_children t)"
      using clean_loop_counts [OF clean_tree_cleans Suc p, of "[]" "ms_children t"] t(2)
      by (cases p) simp_all
  qed
qed

lemma cleanup_counts:
  assumes "\<forall>c \<in> set (ms_children t). ms_all (\<lambda>_ s. s \<in> frames \<and> unremarkable s) c"
    and "set p \<subseteq> frames"
  shows "\<exists>cs. cleanupStackTrace t = Inr (MSI (ms_N t) (ms_stack t) cs)
    \<and> ms_count p cs = ms_sum p (ms_children t)"
proof -
  let ?P = "\<lambda>s. s \<in> frames \<and> unremarkable s"
  from cleansD [OF clean_tree_cleans le_refl assms(1), unfolded cleanupStackTrace_def [symmetric]]
  obtain cs where cs: "cleanupStackTrace t = Inr (MSI (ms_N t) (ms_stack t) cs)"
    "forest_ok {s. ?P s \<and> \<not> contributing s} cs" by blast
  have "ms_sum p cs = ms_sum p (ms_children t)"
    using clean_tree_counts [of "ms_depth t"] assms cs(1)
    unfolding keeps_counts_def cleanupStackTrace_def by fastforce
  moreover have "forest_ok frames cs" using cs(2) by (rule forest_ok_mono) auto
  ultimately show ?thesis using cs(1) sum_is_count assms(2) by metis
qed

end

text \<open>
  Property C19: combining equal siblings loses and invents nothing. When no frame is to be removed
  and the comparison is transitive on the frames, the number at every path of the cleaned tree is the
  sum of the numbers that the siblings of the original tree had at that path.
\<close>

theorem cleanup_combines_counts:
  assumes "transp_on F stack_eq" "\<forall>c \<in> set (ms_children t). ms_all (\<lambda>_ s. s \<in> F \<and> unremarkable s) c"
    and "set p \<subseteq> F"
  shows "\<exists>cs. cleanupStackTrace t = Inr (MSI (ms_N t) (ms_stack t) cs)
    \<and> ms_count p cs = ms_sum p (ms_children t)"
  by (rule frame_grouping.cleanup_counts [OF frame_groupingI [OF assms(1)] assms(2,3)])

text \<open>A frame of a user function, for concrete trees.\<close>

definition user_frame :: "64 word \<Rightarrow> stack_info" where
  "user_frame a = (frame_at a)\<lparr>si_function := ''f()'' @ replicate 340 NUL\<rparr>"

lemma user_frame_props:
  "unremarkable (user_frame a)" "user_frame a \<in> addressed_frames" "si_address (user_frame a) = a"
  "stack_eq (user_frame a) (user_frame b) \<longleftrightarrow> a = b"
proof -
  have f: "cstr (si_function (user_frame a)) = ''f()''"
    using cstr_append_replicate [of "''f()''" 340] by (simp add: user_frame_def)
  have e: "cstr (si_object (user_frame a)) = []" "cstr (si_filename (user_frame a)) = []"
    by (simp_all add: user_frame_def frame_at_def stack_info_clear_def cstr_def)
  show "unremarkable (user_frame a)"
    by (simp add: unremarkable_def keep_def contributing_def libc_fgets_def f e contains_def)
  show "user_frame a \<in> addressed_frames"
    by (simp add: user_frame_def addressed_frames_def frame_at_def)
  show "si_address (user_frame a) = a" by (simp add: user_frame_def frame_at_def)
  show "stack_eq (user_frame a) (user_frame b) \<longleftrightarrow> a = b"
    by (simp add: user_frame_def stack_eq_def frame_at_def)
qed

theorem cleanup_combines_counts_witness:
  "\<exists>cs. cleanupStackTrace (MSI 5 stack_info_clear
        [MSI 2 (user_frame 1) [MSI 2 (user_frame 2) []], MSI 3 (user_frame 1) [MSI 3 (user_frame 2) []]])
      = Inr (MSI 5 stack_info_clear cs)
    \<and> ms_count [user_frame 1, user_frame 2] cs = 5"
  using cleanup_combines_counts [OF transp_on_addressed, of "MSI 5 stack_info_clear
        [MSI 2 (user_frame 1) [MSI 2 (user_frame 2) []], MSI 3 (user_frame 1) [MSI 3 (user_frame 2) []]]"
      "[user_frame 1, user_frame 2]"]
  by (simp add: user_frame_props)

end
