(* ===== verification/Cleanup_Traces.thy ===== *)
theory Cleanup_Traces
  imports Cleanup
begin

text \<open>
  Cleaning loses nothing and invents nothing: the traces of wanted frames that can be read off a tree, from the outermost frame
  inwards, are the same before and after.
\<close>

section \<open>Traces\<close>

text \<open>
  The traces below an entry: there are none through a frame of a contributing thread, they end at a frame of
  \<open>fgets\<close>, and they skip the frames that are not kept. \<open>view\<close> is what is looked at in a frame.
\<close>

fun wanted_of :: "(stack_info \<Rightarrow> 'k) \<Rightarrow> multi_stack_info \<Rightarrow> 'k list set" where
  "wanted_of view (MSI n s cs) =
     (if contributing s then {}
      else let below = insert [] (if libc_fgets s then {} else (\<Union>c \<in> set cs. wanted_of view c))
           in if keep s then (#) (view s) ` below else below)"

definition wanted :: "(stack_info \<Rightarrow> 'k) \<Rightarrow> multi_stack_info list \<Rightarrow> 'k list set" where
  "wanted view cs = insert [] (\<Union>c \<in> set cs. wanted_of view c)"

text \<open>Frames that compare equal look the same.\<close>

definition agrees_on :: "(stack_info \<Rightarrow> 'k) \<Rightarrow> stack_info set \<Rightarrow> bool" where
  "agrees_on view F \<longleftrightarrow>
     (\<forall>a \<in> F. \<forall>b \<in> F. stack_eq a b \<longrightarrow>
        view a = view b \<and> keep a = keep b \<and> contributing a = contributing b \<and> libc_fgets a = libc_fgets b)"

lemma agrees_onD:
  assumes "agrees_on view F" "stack_eq a b" "a \<in> F" "b \<in> F"
  shows "view a = view b" "keep a = keep b" "contributing a = contributing b" "libc_fgets a = libc_fgets b"
  using assms unfolding agrees_on_def by blast+

lemma wanted_simps [simp]:
  "wanted view [] = {[]}" "wanted view (c # cs) = wanted_of view c \<union> wanted view cs"
  "wanted view (cs @ ds) = wanted view cs \<union> wanted view ds"
  by (auto simp: wanted_def)

lemma wanted_Nil [simp]: "[] \<in> wanted view cs"
  by (simp add: wanted_def)

lemma wanted_of_below:
  "wanted_of view t =
     (if contributing (ms_stack t) then {}
      else let below = (if libc_fgets (ms_stack t) then {[]} else wanted view (ms_children t))
           in if keep (ms_stack t) then (#) (view (ms_stack t)) ` below else below)"
  by (cases t) (simp add: wanted_def Let_def)

declare wanted_of.simps [simp del]

lemma wanted_of_cong:
  "ms_stack t' = ms_stack t \<Longrightarrow> wanted view (ms_children t') = wanted view (ms_children t) \<Longrightarrow> wanted_of view t' = wanted_of view t"
  by (simp add: wanted_of_below Let_def)

lemma union_upto_Nil:
  assumes "insert x A = insert x B" "x \<in> C"
  shows "A \<union> C = B \<union> C"
proof -
  have "D \<union> C = insert x D \<union> C" for D using assms(2) by (metis Un_insert_left Un_insert_right insert_absorb)
  from this [of A] this [of B] show ?thesis unfolding assms(1) by (rule trans [OF _ sym])
qed

section \<open>The steps of the traversal\<close>

lemma settle_none_wanted: "settle t = None \<Longrightarrow> wanted_of view t \<subseteq> {[]}"
proof (induction t rule: settle.induct)
  case (1 n s cs)
  show ?case
  proof (cases "contributing s \<or> libc_fgets s \<or> keep s")
    case True
    with 1(2) show ?thesis by (auto simp: settle.simps [of n s cs] wanted_of_below split: if_splits)
  next
    case False
    show ?thesis
    proof (cases cs rule: remdups_adj.cases)
      case 1
      with False show ?thesis by (simp add: wanted_of_below)
    next
      case (2 c)
      with 1(2) False have "settle c = None" by (simp add: settle.simps [of n s "[c]"])
      with "1.IH" 2 False have "wanted_of view c \<subseteq> {[]}" by simp
      with 2 False show ?thesis by (simp add: wanted_of_below [of view "MSI n s [c]"])
    next
      case (3 c d ds)
      with 1(2) False show ?thesis by (simp add: settle.simps [of n s "c # d # ds"])
    qed
  qed
qed

lemma settle_some_wanted:
  "settle t = Some t' \<Longrightarrow> insert [] (wanted_of view t') = insert [] (wanted_of view t)"
  by (rule settle_induct [where P = "\<lambda>t t'. insert [] (wanted_of view t') = insert [] (wanted_of view t)"])
     (auto simp: wanted_of_below [of view "MSI _ _ _"])

text \<open>What the recursive call promises.\<close>

definition keeps_wanted ::
    "nat \<Rightarrow> stack_info set \<Rightarrow> (stack_info \<Rightarrow> 'k) \<Rightarrow> (multi_stack_info \<Rightarrow> multi_stack_info result) \<Rightarrow> bool" where
  "keeps_wanted d F view clean \<longleftrightarrow>
     (\<forall>t t'. ms_depth t \<le> d \<longrightarrow> (\<forall>c \<in> set (ms_children t). ms_all (\<lambda>_ s. s \<in> F) c) \<longrightarrow> clean t = Inr t' \<longrightarrow>
        ms_stack t' = ms_stack t \<and> wanted view (ms_children t') = wanted view (ms_children t))"

lemma keeps_wantedD:
  assumes "keeps_wanted d F view clean" "ms_depth t \<le> d" "\<forall>c \<in> set (ms_children t). ms_all (\<lambda>_ s. s \<in> F) c" "clean t = Inr t'"
  shows "wanted_of view t' = wanted_of view t"
  using assms unfolding keeps_wanted_def by (intro wanted_of_cong) blast+

lemma wanted_merged:
  assumes "agrees_on view F" "stack_eq (ms_stack it) (ms_stack x)" "ms_stack it \<in> F" "ms_stack x \<in> F"
  shows "wanted_of view (MSI n (ms_stack x) (ms_children x @ ms_children it)) = wanted_of view x \<union> wanted_of view it"
  using agrees_onD [OF assms(1,2,3,4)]
  by (simp add: wanted_of_below [of view x] wanted_of_below [of view it] wanted_of_below [of view "MSI _ _ _"] image_Un Let_def)

lemma combine_with_wanted:
  assumes cl: "cleans d (\<lambda>s. s \<in> F) clean" "keeps_wanted d F view clean" and view: "agrees_on view F"
    and it: "forest_ok {s. s \<in> F \<and> \<not> contributing s} (ms_children it)" "ms_depth it \<le> d" "ms_stack it \<in> F"
  shows "forest_ok {s. s \<in> F \<and> \<not> contributing s} front \<Longrightarrow> \<forall>c \<in> set front. ms_depth c \<le> d
    \<Longrightarrow> combine_with clean it front = Inr (front', r)
    \<Longrightarrow> wanted view front' = wanted view front \<union> (if r then wanted_of view it else {})"
proof (induction front arbitrary: front' r)
  case (Cons x xs)
  let ?F = "{s. s \<in> F \<and> \<not> contributing s}"
  have xs: "forest_ok ?F xs" "\<forall>c \<in> set xs. ms_depth c \<le> d" and x: "ms_stack x \<in> F"
    using Cons.prems(1,2) by (auto simp: forest_ok_Cons)
  from combine_with_ok [OF cl(1) it(1,2) xs] obtain xs' r' where xs': "combine_with clean it xs = Inr (xs', r')" by blast
  note IH = Cons.IH [OF xs xs']
  show ?case
  proof (cases "stack_eq (ms_stack it) (ms_stack x)")
    case False
    with Cons.prems(3) xs' IH show ?thesis by auto
  next
    case True
    let ?m = "MSI (ms_N x + ms_N it) (ms_stack x) (ms_children x @ ms_children it)"
    have dm: "ms_depth ?m \<le> d" using it(2) Cons.prems(2) by (intro depth_combined) simp_all
    have "forest_ok ?F (ms_children x)" using Cons.prems(1) by (simp add: forest_ok_Cons)
    from forest_ok_all [OF this] forest_ok_all [OF it(1)]
    have all: "\<forall>c \<in> set (ms_children ?m). ms_all (\<lambda>_ s. s \<in> F) c" by auto
    from cleansD [OF cl(1) dm all] obtain cs where cs: "clean ?m = Inr (MSI (ms_N ?m) (ms_stack ?m) cs)" .
    have "wanted_of view (MSI (ms_N ?m) (ms_stack ?m) cs) = wanted_of view ?m" by (rule keeps_wantedD [OF cl(2) dm all cs])
    also have "\<dots> = wanted_of view x \<union> wanted_of view it" by (rule wanted_merged [OF view True it(3) x])
    finally show ?thesis using Cons.prems(3) True cs xs' IH by (auto split: if_splits)
  qed
qed simp

lemma clean_loop_wanted:
  assumes cl: "cleans d (\<lambda>s. s \<in> F) clean" "keeps_wanted d F view clean" and view: "agrees_on view F"
  shows "forest_ok {s. s \<in> F \<and> \<not> contributing s} front \<Longrightarrow> \<forall>c \<in> set front. ms_depth c \<le> d
    \<Longrightarrow> \<forall>c \<in> set rest. ms_depth c \<le> d \<and> ms_all (\<lambda>_ s. s \<in> F) c
    \<Longrightarrow> clean_loop clean front rest = Inr cs \<Longrightarrow> wanted view cs = wanted view front \<union> wanted view rest"
proof (induction rest arbitrary: front)
  case Nil
  then show ?case by auto
next
  case (Cons it rest)
  let ?F = "{s. s \<in> F \<and> \<not> contributing s}"
  show ?case
  proof (cases "settle it")
    case None
    with Cons.prems have "wanted view cs = wanted view front \<union> wanted view rest" by (intro Cons.IH) simp_all
    moreover have "wanted_of view it \<subseteq> {[]}" by (rule settle_none_wanted [OF None])
    ultimately show ?thesis by auto
  next
    case (Some it1)
    note st = settle_props [OF Some]
    have it1: "ms_depth it1 \<le> d" "ms_all (\<lambda>_ s. s \<in> F) it1" "\<not> contributing (ms_stack it1)"
      using st Cons.prems(3) by (auto intro: le_trans)
    then have ch: "\<forall>c \<in> set (ms_children it1). ms_all (\<lambda>_ s. s \<in> F) c" "ms_stack it1 \<in> F"
      by (cases it1; simp)+
    from cleansD [OF cl(1) it1(1) ch(1)] obtain ks
      where ks: "clean it1 = Inr (MSI (ms_N it1) (ms_stack it1) ks)"
        "ms_depth (MSI (ms_N it1) (ms_stack it1) ks) \<le> ms_depth it1" "forest_ok ?F ks" .
    let ?it2 = "MSI (ms_N it1) (ms_stack it1) ks"
    have it2: "forest_ok ?F (ms_children ?it2)" "ms_depth ?it2 \<le> d" "ms_stack ?it2 \<in> F"
      using ks it1(1) ch(2) by (simp_all del: ms_depth.simps)
    have "wanted_of view ?it2 = wanted_of view it1" by (rule keeps_wantedD [OF cl(2) it1(1) ch(1) ks(1)])
    with settle_some_wanted [OF Some] have same: "insert [] (wanted_of view ?it2) = insert [] (wanted_of view it)" by simp
    from combine_with_ok [OF cl(1) it2(1,2) Cons.prems(1,2)] obtain front' r
      where c: "combine_with clean ?it2 front = Inr (front', r)"
        "map ms_stack front' = map ms_stack front" "forest_ok ?F front'" "\<forall>c \<in> set front'. ms_depth c \<le> d"
        "r \<longleftrightarrow> (\<exists>c \<in> set front. stack_eq (ms_stack ?it2) (ms_stack c))" by blast
    let ?front = "if r then front' else front' @ [?it2]"
    have front: "forest_ok ?F ?front"
    proof (cases r)
      case False
      then have "\<forall>s \<in> set (map ms_stack front). \<not> stack_eq s (ms_stack ?it2)"
        using c(5) stack_eq_sym by auto
      then have "\<forall>u \<in> set front'. \<not> stack_eq (ms_stack u) (ms_stack ?it2)"
        unfolding c(2) [symmetric] by simp
      with False c(3) ks(3) it1(3) ch(2) show ?thesis by (simp add: forest_ok_append)
    qed (use c(3) in simp)
    have "\<forall>u \<in> set ?front. ms_depth u \<le> d" using c(4) it2(2) by (simp del: ms_depth.simps)
    moreover have "clean_loop clean ?front rest = Inr cs" using Cons.prems(4) Some ks(1) c(1) by simp
    ultimately have "wanted view cs = wanted view ?front \<union> wanted view rest"
      using Cons.prems(3) front by (intro Cons.IH) simp_all
    moreover have "wanted view ?front = wanted view front \<union> wanted_of view ?it2"
      using combine_with_wanted [OF cl view it2 Cons.prems(1,2) c(1)] by auto
    moreover have "wanted_of view ?it2 \<union> wanted view rest = wanted_of view it \<union> wanted view rest"
      by (rule union_upto_Nil [OF same wanted_Nil])
    ultimately show ?thesis by (simp add: Un_assoc)
  qed
qed

lemma clean_tree_wanted:
  assumes "agrees_on view F"
  shows "keeps_wanted f F view (clean_tree f)"
proof (induction f)
  case 0
  then show ?case by (simp add: keeps_wanted_def)
next
  case (Suc f)
  show ?case
    unfolding keeps_wanted_def
  proof (intro allI impI)
    fix t t'
    assume t: "ms_depth t \<le> Suc f" "\<forall>c \<in> set (ms_children t). ms_all (\<lambda>_ s. s \<in> F) c"
      and r: "clean_tree (Suc f) t = Inr t'"
    have "\<forall>c \<in> set (ms_children t). ms_depth c \<le> f"
      using t(1) ms_depth_MSI [of "ms_N t" "ms_stack t" "ms_children t" f] by (simp del: ms_depth.simps)
    moreover from r have "clean_loop (clean_tree f) [] (ms_children t) = Inr (ms_children t')" "ms_stack t' = ms_stack t"
      by (auto simp: bindR_Inr_iff)
    ultimately show "ms_stack t' = ms_stack t \<and> wanted view (ms_children t') = wanted view (ms_children t)"
      using clean_loop_wanted [OF clean_tree_cleans Suc assms, of "[]" "ms_children t" "ms_children t'"] t(2) by auto
  qed
qed

section \<open>The whole tree\<close>

lemma cleanup_value_level:
  "\<exists>cs. cleanupStackTrace t = Inr (MSI (ms_N t) (ms_stack t) cs)
    \<and> ms_depth (MSI (ms_N t) (ms_stack t) cs) \<le> ms_depth t
    \<and> forest_ok {s. s \<in> child_frames t \<and> \<not> contributing s} cs
    \<and> (agrees_on view (child_frames t) \<longrightarrow> wanted view cs = wanted view (ms_children t))"
proof -
  have all: "\<forall>c \<in> set (ms_children t). ms_all (\<lambda>_ s. s \<in> child_frames t) c"
    by (intro ballI ms_all_frame_set) (auto simp: child_frames_def)
  from cleansD [OF clean_tree_cleans le_refl this, folded cleanupStackTrace_def] obtain cs where
    cs: "cleanupStackTrace t = Inr (MSI (ms_N t) (ms_stack t) cs)"
      "ms_depth (MSI (ms_N t) (ms_stack t) cs) \<le> ms_depth t"
      "forest_ok {s. s \<in> child_frames t \<and> \<not> contributing s} cs" by blast
  moreover have "wanted view cs = wanted view (ms_children t)" if "agrees_on view (child_frames t)"
    using clean_tree_wanted [OF that, of "ms_depth t"] all cs(1)
    unfolding keeps_wanted_def cleanupStackTrace_def by fastforce
  ultimately show ?thesis by blast
qed

end
