(* ===== verification/Cleanup_Vectors.thy ===== *)
theory Cleanup_Vectors
  imports Cleanup_Traces
begin

text \<open>
  \<open>cleanupStackTrace\<close> on trees in memory: the children of an entry are a \<open>std::vector\<close> of libstdc++ with its capacity. The
  assignment \<open>*it = it->children[0]\<close> copies an entry that lives in the storage that it overwrites; whether
  its source is still there when it is read depends on the capacity.
\<close>

section \<open>Entries and their vectors\<close>

datatype vtree = V (v_N: int) (v_stack: stack_info) (v_capacity: nat) (v_children: "vtree list")

fun v_value :: "vtree \<Rightarrow> multi_stack_info" where
  "v_value (V n s c ks) = MSI n s (map v_value ks)"

text \<open>A copy is allocated with the size of its source. \<open>push_back\<close> on a full vector at least doubles the capacity.\<close>

fun v_copy :: "vtree \<Rightarrow> vtree" where
  "v_copy (V n s c ks) = V n s (length ks) (map v_copy ks)"

fun push_child :: "vtree \<Rightarrow> vtree \<Rightarrow> vtree" where
  "push_child tmp (V n s c ks) =
     V n s (if length ks < c then c else length ks + max (length ks) 1) (ks @ [v_copy tmp])"

text \<open>
  \<open>*it = it->children[0]\<close> for an entry with one child: the number and the frame are copied, then the vector of the child is copied over the
  vector that the child is stored in. When the capacity is too small, new storage is allocated and filled before the old
  one is freed. Otherwise the entries are assigned in place. That is right for an empty vector, and for a single entry, which
  is assigned to the child itself in the same way. With more entries the first assignment has changed the vector that the
  others are then read from.
\<close>

fun assign_child :: "vtree \<Rightarrow> vtree result" where
  "assign_child (V n s c [V n1 s1 c1 []]) = Inr (V n1 s1 c [])"
| "assign_child (V n s c [V n1 s1 c1 [k]]) =
     (if c < 1 then Inr (V n1 s1 1 [v_copy k])
      else bindR (assign_child (V n1 s1 c1 [k])) (\<lambda>k1. Inr (V n1 s1 c [k1])))"
| "assign_child (V n s c [V n1 s1 c1 (k1 # k2 # ks)]) =
     (if c < length (k1 # k2 # ks) then Inr (V n1 s1 (length (k1 # k2 # ks)) (map v_copy (k1 # k2 # ks)))
      else Inl Dangling)"
| "assign_child t = Inl OutOfBounds"

lemma v_value_copy [simp]: "v_value (v_copy t) = v_value t"
  by (induction t) (simp add: comp_def)

lemma v_value_sel [simp]:
  "ms_N (v_value t) = v_N t" "ms_stack (v_value t) = v_stack t" "ms_children (v_value t) = map v_value (v_children t)"
  by (cases t; simp)+

lemma assign_child_value:
  "assign_child (V n s c [k]) = Inr t \<Longrightarrow> v_value t = v_value k"
  by (induction "V n s c [k]" arbitrary: n s c k t rule: assign_child.induct)
     (auto simp: bindR_Inr_iff comp_def split: if_splits)

section \<open>The traversal\<close>

text \<open>
  The iterations that stay at one position: \<open>None\<close> when the entry is erased. The children of \<open>fgets\<close> are cleared, which keeps the
  capacity.
\<close>

function v_settle :: "vtree \<Rightarrow> vtree option result" where
  "v_settle (V n s c cs) =
     (if contributing s then Inr None
      else if libc_fgets s then (if keep s then Inr (Some (V n s c [])) else Inr None)
      else if keep s then Inr (Some (V n s c cs))
      else (case cs of
              [] \<Rightarrow> Inr None
            | [k] \<Rightarrow> (case assign_child (V n s c [k]) of Inl e \<Rightarrow> Inl e | Inr it \<Rightarrow> v_settle it)
            | _ # _ # _ \<Rightarrow> Inr (Some (V n s c cs))))"
  by pat_completeness auto
termination
proof (relation "measure (\<lambda>t. size (v_value t))")
  fix n :: int and s c and cs :: "vtree list" and k ks it
  assume "cs = k # ks" "ks = []" "assign_child (V n s c [k]) = Inr it"
  then show "(it, V n s c cs) \<in> measure (\<lambda>t. size (v_value t))" by (simp add: assign_child_value)
qed simp

declare v_settle.simps [simp del]

text \<open>
  The comparison with the entries in front: on a match the children are pushed to the other entry, which is cleaned
  again.
\<close>

fun v_combine ::
    "(vtree \<Rightarrow> vtree result) \<Rightarrow> vtree \<Rightarrow> vtree list \<Rightarrow> (vtree list \<times> bool) result" where
  "v_combine clean it [] = Inr ([], False)"
| "v_combine clean it (it2 # rest) =
     (if stack_eq (v_stack it) (v_stack it2)
      then bindR (clean (fold push_child (v_children it) (V (v_N it2 + v_N it) (v_stack it2) (v_capacity it2) (v_children it2))))
             (\<lambda>it2'. bindR (v_combine clean it rest) (\<lambda>(rest', remove). Inr (it2' # rest', True)))
      else bindR (v_combine clean it rest) (\<lambda>(rest', remove). Inr (it2 # rest', remove)))"

text \<open>
  The loop: \<open>front\<close> are the entries before the iterator. Erasing an entry moves the entries behind it, which takes their vectors along.
\<close>

fun v_clean_loop :: "(vtree \<Rightarrow> vtree result) \<Rightarrow> vtree list \<Rightarrow> vtree list \<Rightarrow> vtree list result" where
  "v_clean_loop clean front [] = Inr front"
| "v_clean_loop clean front (it # rest) =
     bindR (v_settle it) (\<lambda>settled.
       case settled of
         None \<Rightarrow> v_clean_loop clean front rest
       | Some it1 \<Rightarrow>
           bindR (clean it1) (\<lambda>it2.
           bindR (v_combine clean it2 front) (\<lambda>(front', remove).
             v_clean_loop clean (if remove then front' else front' @ [it2]) rest)))"

fun v_clean_tree :: "nat \<Rightarrow> vtree \<Rightarrow> vtree result" where
  "v_clean_tree 0 t = Inl OutOfFuel"
| "v_clean_tree (Suc f) t =
     bindR (v_clean_loop (v_clean_tree f) [] (v_children t))
       (\<lambda>cs. Inr (V (v_N t) (v_stack t) (v_capacity t) cs))"

definition v_cleanupStackTrace :: "vtree \<Rightarrow> vtree result" where
  "v_cleanupStackTrace t = v_clean_tree (ms_depth (v_value t)) t"

section \<open>The values\<close>

text \<open>
  The run in memory follows the run on values, in which an assignment is a copy, unless the source of an assignment
  is gone.
\<close>

definition follows :: "('a \<Rightarrow> 'b) \<Rightarrow> 'a result \<Rightarrow> 'b result \<Rightarrow> bool" where
  "follows f r r' \<longleftrightarrow> (case r of Inl e \<Rightarrow> e = Dangling \<or> r' = Inl e | Inr x \<Rightarrow> r' = Inr (f x))"

lemma follows_bind:
  assumes "follows f r r'" "\<And>x. r = Inr x \<Longrightarrow> follows g (h x) (h' (f x))"
  shows "follows g (bindR r h) (bindR r' h')"
  using assms by (cases r) (auto simp: follows_def)

lemma assign_child_faults: "assign_child (V n s c [k]) = Inl e \<Longrightarrow> e = Dangling"
proof (induction "V n s c [k]" arbitrary: n s c k rule: assign_child.induct)
  case (2 n s c n1 s1 c1 k)
  show ?case
  proof (cases "assign_child (V n1 s1 c1 [k])")
    case (Inl e')
    with 2 show ?thesis by (auto split: if_splits)
  qed (use 2 in \<open>auto split: if_splits\<close>)
qed (auto split: if_splits)

lemma v_settle_follows: "follows (map_option v_value) (v_settle t) (Inr (settle (v_value t)))"
proof (induction t rule: v_settle.induct)
  case (1 n s c cs)
  show ?case
  proof (cases "contributing s \<or> libc_fgets s \<or> keep s")
    case True
    then show ?thesis by (auto simp: v_settle.simps [of n s c cs] settle.simps follows_def)
  next
    case False
    show ?thesis
    proof (cases cs rule: remdups_adj.cases)
      case 1
      with False show ?thesis by (simp add: v_settle.simps [of n s c "[]"] settle.simps follows_def)
    next
      case (2 k)
      then have e: "settle (v_value (V n s c cs)) = settle (v_value k)"
        using False by (simp add: settle.simps [of n s "[v_value k]"])
      show ?thesis
      proof (cases "assign_child (V n s c [k])")
        case (Inl e')
        with 2 False assign_child_faults [OF Inl] show ?thesis
          by (simp add: v_settle.simps [of n s c "[k]"] follows_def)
      next
        case (Inr it)
        with "1.IH" [of k "[]" it] 2 False have "follows (map_option v_value) (v_settle it) (Inr (settle (v_value it)))" by simp
        with Inr 2 False e assign_child_value [OF Inr] show ?thesis by (simp add: v_settle.simps [of n s c "[k]"])
      qed
    next
      case (3 k1 k2 ks)
      with False show ?thesis
        by (simp add: v_settle.simps [of n s c "k1 # k2 # ks"] settle.simps follows_def)
    qed
  qed
qed

lemma v_value_pushed:
  "v_value (fold push_child xs t) = MSI (v_N t) (v_stack t) (map v_value (v_children t) @ map v_value xs)"
proof (induction xs arbitrary: t)
  case Nil
  show ?case by (cases t) simp
next
  case (Cons x xs)
  then show ?case by (cases t) simp
qed

lemma v_combine_follows:
  assumes "\<And>t. follows v_value (vclean t) (clean (v_value t))"
  shows "follows (apfst (map v_value)) (v_combine vclean it front) (combine_with clean (v_value it) (map v_value front))"
proof (induction front)
  case (Cons it2 rest)
  let ?m = "V (v_N it2 + v_N it) (v_stack it2) (v_capacity it2) (v_children it2)"
  have m: "v_value (fold push_child (v_children it) ?m)
      = MSI (v_N it2 + v_N it) (v_stack it2) (map v_value (v_children it2) @ map v_value (v_children it))"
    by (simp add: v_value_pushed)
  show ?case
  proof (cases "stack_eq (v_stack it) (v_stack it2)")
    case True
    have "follows (apfst (map v_value))
        (bindR (vclean (fold push_child (v_children it) ?m)) (\<lambda>it2'. bindR (v_combine vclean it rest) (\<lambda>(rest', remove). Inr (it2' # rest', True))))
        (bindR (clean (MSI (v_N it2 + v_N it) (v_stack it2) (map v_value (v_children it2) @ map v_value (v_children it))))
           (\<lambda>it2'. bindR (combine_with clean (v_value it) (map v_value rest)) (\<lambda>(rest', remove). Inr (it2' # rest', True))))"
      by (rule follows_bind [OF assms [of "fold push_child (v_children it) ?m", unfolded m]], rule follows_bind [OF Cons.IH])
         (auto simp: follows_def)
    with True show ?thesis by simp
  next
    case False
    have "follows (apfst (map v_value)) (bindR (v_combine vclean it rest) (\<lambda>(rest', remove). Inr (it2 # rest', remove)))
        (bindR (combine_with clean (v_value it) (map v_value rest)) (\<lambda>(rest', remove). Inr (v_value it2 # rest', remove)))"
      by (rule follows_bind [OF Cons.IH]) (auto simp: follows_def)
    with False show ?thesis by simp
  qed
qed (simp add: follows_def)

lemma v_clean_loop_follows:
  assumes "\<And>t. follows v_value (vclean t) (clean (v_value t))"
  shows "follows (map v_value) (v_clean_loop vclean front rest) (clean_loop clean (map v_value front) (map v_value rest))"
proof (induction rest arbitrary: front)
  case (Cons it rest)
  show ?case
  proof (cases "v_settle it")
    case (Inl e)
    with v_settle_follows [of it] show ?thesis by (simp add: follows_def)
  next
    case (Inr settled)
    with v_settle_follows [of it] have s: "settle (v_value it) = map_option v_value settled" by (simp add: follows_def)
    show ?thesis
    proof (cases settled)
      case None
      with Inr s Cons.IH show ?thesis by simp
    next
      case (Some it1)
      have "follows (map v_value)
          (bindR (vclean it1) (\<lambda>it2. bindR (v_combine vclean it2 front) (\<lambda>(front', remove).
             v_clean_loop vclean (if remove then front' else front' @ [it2]) rest)))
          (bindR (clean (v_value it1)) (\<lambda>it2. bindR (combine_with clean it2 (map v_value front)) (\<lambda>(front', remove).
             clean_loop clean (if remove then front' else front' @ [it2]) (map v_value rest))))"
      proof (rule follows_bind [OF assms [of it1]],
          rule follows_bind [OF v_combine_follows [of vclean clean, OF assms]])
        fix it2 and fr :: "vtree list \<times> bool"
        show "follows (map v_value) (case fr of (front', remove) \<Rightarrow> v_clean_loop vclean (if remove then front' else front' @ [it2]) rest)
          (case apfst (map v_value) fr of (front', remove) \<Rightarrow>
             clean_loop clean (if remove then front' else front' @ [v_value it2]) (map v_value rest))"
          using Cons.IH [of "fst fr"] Cons.IH [of "fst fr @ [it2]"] by (cases fr) simp
      qed
      with Inr Some s show ?thesis by simp
    qed
  qed
qed (simp add: follows_def)

lemma v_clean_tree_follows: "follows v_value (v_clean_tree f t) (clean_tree f (v_value t))"
proof (induction f arbitrary: t)
  case (Suc f)
  show ?case
    unfolding v_clean_tree.simps clean_tree.simps v_value_sel
    by (rule follows_bind [OF v_clean_loop_follows [of "v_clean_tree f" "clean_tree f", OF Suc, of "[]", simplified list.map(1)]])
       (simp add: follows_def)
qed (simp add: follows_def)

section \<open>When the source of an assignment is gone\<close>

text \<open>
  Trees as the code makes them: a vector with one entry was allocated for one. Trees in which a frame that is not kept
  has called at most one other. Cleaned trees in which every frame is kept.
\<close>

fun tight :: "vtree \<Rightarrow> bool" where
  "tight (V n s c ks) \<longleftrightarrow> (length ks = 1 \<longrightarrow> c = 1) \<and> (\<forall>k \<in> set ks. tight k)"

fun thin :: "vtree \<Rightarrow> bool" where
  "thin (V n s c ks) \<longleftrightarrow> (\<not> keep s \<longrightarrow> length ks \<le> 1) \<and> (\<forall>k \<in> set ks. thin k)"

fun all_kept :: "vtree \<Rightarrow> bool" where
  "all_kept (V n s c ks) \<longleftrightarrow> keep s \<and> (\<forall>k \<in> set ks. all_kept k)"

lemma v_copy_props: "tight (v_copy t)" "thin (v_copy t) = thin t" "all_kept (v_copy t) = all_kept t"
  by (induction t) auto

lemma assign_child_tight:
  assumes "tight (V n s c [k])" "thin k"
  shows "\<exists>t. assign_child (V n s c [k]) = Inr t \<and> tight t \<and> thin t"
  using assms
proof (induction "V n s c [k]" arbitrary: n s c k rule: assign_child.induct)
  case (2 n s c n1 s1 c1 k)
  then obtain t where "assign_child (V n1 s1 c1 [k]) = Inr t" "tight t" "thin t" by auto
  with 2 show ?case by auto
qed (auto simp: v_copy_props)

definition harmless :: "vtree \<Rightarrow> bool" where
  "harmless t \<longleftrightarrow> tight t \<and> thin t \<or> all_kept t"

lemma v_settle_harmless:
  assumes "harmless t"
  shows "\<exists>r. v_settle t = Inr r \<and> (\<forall>t'. r = Some t' \<longrightarrow> keep (v_stack t') \<and> (\<forall>k \<in> set (v_children t'). harmless k))"
  using assms
proof (induction t rule: v_settle.induct)
  case (1 n s c cs)
  show ?case
  proof (cases "contributing s \<or> libc_fgets s \<or> keep s")
    case True
    with 1(2) show ?thesis by (auto simp: v_settle.simps [of n s c cs] harmless_def)
  next
    case False
    then have t: "tight (V n s c cs)" "thin (V n s c cs)" using 1(2) by (auto simp: harmless_def)
    show ?thesis
    proof (cases cs rule: remdups_adj.cases)
      case 1
      with False show ?thesis by (simp add: v_settle.simps [of n s c "[]"])
    next
      case (2 k)
      with t assign_child_tight [of n s c k] obtain it where
        it: "assign_child (V n s c [k]) = Inr it" "tight it" "thin it" by auto
      then have "harmless it" by (simp add: harmless_def)
      from "1.IH" [of k "[]" it] this 2 False it(1) show ?thesis by (simp add: v_settle.simps [of n s c "[k]"])
    next
      case (3 k1 k2 ks)
      with t False show ?thesis by simp
    qed
  qed
qed

text \<open>What the recursive call promises: no dangling source, and children that are all kept.\<close>

definition cleans_harmless :: "(vtree \<Rightarrow> vtree result) \<Rightarrow> bool" where
  "cleans_harmless clean \<longleftrightarrow>
     (\<forall>t. (\<forall>k \<in> set (v_children t). harmless k) \<longrightarrow>
        (case clean t of Inl e \<Rightarrow> e \<noteq> Dangling
         | Inr t' \<Rightarrow> v_stack t' = v_stack t \<and> (\<forall>k \<in> set (v_children t'). all_kept k)))"

lemma cleans_harmlessD:
  assumes "cleans_harmless clean" "\<forall>k \<in> set (v_children t). harmless k" "keep (v_stack t)"
  shows "case clean t of Inl e \<Rightarrow> e \<noteq> Dangling | Inr t' \<Rightarrow> all_kept t'"
proof (cases "clean t")
  case (Inr t')
  with assms show ?thesis by (cases t') (fastforce simp: cleans_harmless_def)
qed (use assms in \<open>fastforce simp: cleans_harmless_def\<close>)

lemma children_pushed: "v_children (fold push_child xs t) = v_children t @ map v_copy xs" "v_stack (fold push_child xs t) = v_stack t"
proof (induction xs arbitrary: t)
  case (Cons x xs)
  { case 1 with Cons(1) [of "push_child x t"] show ?case by (cases t) simp }
  { case 2 with Cons(2) [of "push_child x t"] show ?case by (cases t) simp }
qed simp_all

lemma v_combine_harmless:
  assumes "cleans_harmless clean" "all_kept it" "\<forall>t \<in> set front. all_kept t"
  shows "case v_combine clean it front of Inl e \<Rightarrow> e \<noteq> Dangling | Inr (front', r) \<Rightarrow> \<forall>t \<in> set front'. all_kept t"
  using assms(3)
proof (induction front)
  case (Cons it2 rest)
  then have ih: "case v_combine clean it rest of Inl e \<Rightarrow> e \<noteq> Dangling | Inr (front', r) \<Rightarrow> \<forall>t \<in> set front'. all_kept t" by simp
  let ?m = "fold push_child (v_children it) (V (v_N it2 + v_N it) (v_stack it2) (v_capacity it2) (v_children it2))"
  have "\<forall>k \<in> set (v_children it2) \<union> set (v_children it). all_kept k" "keep (v_stack it2)"
    using assms(2) Cons.prems by (cases it; cases it2; auto)+
  then have "\<forall>k \<in> set (v_children ?m). harmless k" "keep (v_stack ?m)"
    by (auto simp: children_pushed v_copy_props harmless_def)
  from cleans_harmlessD [OF assms(1) this] ih Cons.prems show ?case
    by (cases "clean ?m"; cases "v_combine clean it rest") auto
qed simp

lemma v_clean_loop_harmless:
  assumes "cleans_harmless clean" "\<forall>t \<in> set front. all_kept t" "\<forall>t \<in> set rest. harmless t"
  shows "case v_clean_loop clean front rest of Inl e \<Rightarrow> e \<noteq> Dangling | Inr cs \<Rightarrow> \<forall>t \<in> set cs. all_kept t"
  using assms(2,3)
proof (induction rest arbitrary: front)
  case (Cons it rest)
  from v_settle_harmless [of it] Cons.prems(2) obtain r where
    r: "v_settle it = Inr r" "\<And>t'. r = Some t' \<Longrightarrow> keep (v_stack t') \<and> (\<forall>k \<in> set (v_children t'). harmless k)" by auto
  show ?case
  proof (cases r)
    case None
    with r Cons show ?thesis by simp
  next
    case (Some it1)
    with cleans_harmlessD [OF assms(1), of it1] r(2) have
      c: "case clean it1 of Inl e \<Rightarrow> e \<noteq> Dangling | Inr t' \<Rightarrow> all_kept t'" by simp
    show ?thesis
    proof (cases "clean it1")
      case (Inr it2)
      with c v_combine_harmless [OF assms(1) _ Cons.prems(1), of it2] have
        d: "case v_combine clean it2 front of Inl e \<Rightarrow> e \<noteq> Dangling | Inr (front', r) \<Rightarrow> \<forall>t \<in> set front'. all_kept t"
        "all_kept it2" by simp_all
      show ?thesis
      proof (cases "v_combine clean it2 front")
        case inr: (Inr fr)
        obtain front' remove where fr: "fr = (front', remove)" by (cases fr)
        with d inr have "\<forall>t \<in> set (if remove then front' else front' @ [it2]). all_kept t" by auto
        from Cons.IH [OF this] Cons.prems(2) show ?thesis using r(1) Some Inr inr fr by simp
      qed (use d r(1) Some Inr in simp)
    qed (use c r(1) Some in simp)
  qed
qed simp

lemma v_clean_tree_harmless: "cleans_harmless (v_clean_tree f)"
proof (induction f)
  case (Suc f)
  show ?case
    unfolding cleans_harmless_def
  proof (intro allI impI)
    fix t assume "\<forall>k \<in> set (v_children t). harmless k"
    from v_clean_loop_harmless [OF Suc, of "[]" "v_children t"] this
    show "case v_clean_tree (Suc f) t of Inl e \<Rightarrow> e \<noteq> Dangling
         | Inr t' \<Rightarrow> v_stack t' = v_stack t \<and> (\<forall>k \<in> set (v_children t'). all_kept k)"
      by (cases "v_clean_loop (v_clean_tree f) [] (v_children t)") auto
  qed
qed (simp add: cleans_harmless_def)

text \<open>
  A tree as the code makes it, on which the source of an assignment is gone. \<open>U\<close> has called an unwanted frame, which has
  called a frame of a contributing thread and \<open>G\<close>, with two calls; \<open>U\<close> is also below an unwanted frame of another stack. Cleaning
  the first \<open>U\<close> leaves the unwanted frame with one child in a vector for two. The second \<open>U\<close> is combined with the first, which is cleaned
  again: the vector of \<open>G\<close>, with two entries, is copied in place.
\<close>

definition own_frame :: stack_info where
  "own_frame = stack_info_clear\<lparr>si_function := ''backtrace()'' @ replicate 245 NUL, si_filename := ''StackTrace.cpp'' @ replicate 50 NUL\<rparr>"

definition dangling_tree :: vtree where
  "dangling_tree =
     V 3 stack_info_clear 2
       [V 2 (user_frame 1) 1
          [V 2 (frame_at 2) 2
             [V 1 own_frame 0 [],
              V 1 (user_frame 3) 2 [V 1 (user_frame 4) 0 [], V 1 (user_frame 5) 0 []]]],
        V 1 (frame_at 9) 1 [V 1 (user_frame 1) 0 []]]"

lemma own_frame_contributing: "contributing own_frame"
proof -
  have "cstr (si_function own_frame) = ''backtrace()''" "cstr (si_filename own_frame) = ''StackTrace.cpp''"
    using cstr_append_replicate [of "''backtrace()''" 245] cstr_append_replicate [of "''StackTrace.cpp''" 50]
    by (simp_all add: own_frame_def)
  then show ?thesis by (simp add: contributing_def contains_def)
qed

lemma plain_frame: "\<not> keep (frame_at a)" "\<not> contributing (frame_at a)" "\<not> libc_fgets (frame_at a)"
  by (simp_all add: frame_at_def stack_info_clear_def keep_def contributing_def libc_fgets_def cstr_def contains_def)

lemma user_frame_kept: "keep (user_frame a)" "\<not> contributing (user_frame a)" "\<not> libc_fgets (user_frame a)"
  using user_frame_props(1) [of a] by (simp_all add: unremarkable_def)

lemmas example_frames = own_frame_contributing plain_frame user_frame_kept user_frame_props(4)

lemma dangling_tree_faults: "tight dangling_tree \<and> v_cleanupStackTrace dangling_tree = Inl Dangling"
proof -
  have d: "ms_depth (v_value dangling_tree) = Suc (Suc (Suc (Suc (Suc 0))))"
    by (simp add: dangling_tree_def)
  show ?thesis
    unfolding v_cleanupStackTrace_def d
    by (simp add: dangling_tree_def v_settle.simps example_frames)
qed

section \<open>The whole tree\<close>

text \<open>
  Property C15: cleaning a tree in memory. It ends, within a recursion as deep as the tree. It can only fail where the source of an
  assignment is overwritten before it is read, and never on a tree below whose root every vector is tight and every unwanted frame has called at most one other.
  Otherwise it keeps the root and never deepens the tree; no frame of a contributing thread is left and no two siblings
  are equal; and it loses and invents nothing: the traces of wanted frames are the same before and after, for
  whatever is looked at in the frames as long as equal frames look the same. The result is the one in which the assignment
  copies a value.
\<close>

theorem cleanupStackTrace_tidy:
  "case v_cleanupStackTrace t of
     Inl e \<Rightarrow> e = Dangling \<and> (\<exists>k \<in> set (v_children t). \<not> (tight k \<and> thin k))
   | Inr t' \<Rightarrow> v_N t' = v_N t \<and> v_stack t' = v_stack t \<and> ms_depth (v_value t') \<le> ms_depth (v_value t)
       \<and> forest_ok {s. s \<in> child_frames (v_value t) \<and> \<not> contributing s} (ms_children (v_value t'))
       \<and> (agrees_on view (child_frames (v_value t)) \<longrightarrow>
            wanted view (ms_children (v_value t')) = wanted view (ms_children (v_value t)))
       \<and> cleanupStackTrace (v_value t) = Inr (v_value t')"
proof -
  obtain cs where cs: "cleanupStackTrace (v_value t) = Inr (MSI (v_N t) (v_stack t) cs)"
    "ms_depth (MSI (v_N t) (v_stack t) cs) \<le> ms_depth (v_value t)"
    "forest_ok {s. s \<in> child_frames (v_value t) \<and> \<not> contributing s} cs"
    "agrees_on view (child_frames (v_value t)) \<longrightarrow> wanted view cs = wanted view (ms_children (v_value t))"
    using cleanup_value_level [of "v_value t" view] unfolding v_value_sel by blast
  from v_clean_tree_follows [of "ms_depth (v_value t)" t] have
    f: "follows v_value (v_cleanupStackTrace t) (Inr (MSI (v_N t) (v_stack t) cs))"
    using cs(1) by (simp add: v_cleanupStackTrace_def cleanupStackTrace_def)
  show ?thesis
  proof (cases "v_cleanupStackTrace t")
    case (Inl e)
    have "e \<noteq> Dangling" if "\<forall>k \<in> set (v_children t). tight k \<and> thin k"
    proof -
      have "\<forall>k \<in> set (v_children t). harmless k" using that by (auto simp: harmless_def)
      with v_clean_tree_harmless [of "ms_depth (v_value t)"] Inl show ?thesis
        unfolding cleans_harmless_def v_cleanupStackTrace_def by fastforce
    qed
    with Inl f show ?thesis by (auto simp: follows_def)
  next
    case (Inr t')
    with f have v: "v_value t' = MSI (v_N t) (v_stack t) cs" by (simp add: follows_def)
    then have "v_N t' = v_N t" "v_stack t' = v_stack t" "ms_children (v_value t') = cs" by (cases t'; simp)+
    with Inr cs v show ?thesis by (simp del: ms_depth.simps v_value_sel)
  qed
qed

text \<open>A tree with an unwanted frame, whose child takes its place next to an equal frame, and the tree that fails.\<close>

definition tidy_tree :: vtree where
  "tidy_tree =
     V 3 stack_info_clear 2
       [V 2 (user_frame 1) 1 [V 2 (user_frame 2) 0 []],
        V 1 (frame_at 9) 1 [V 1 (user_frame 1) 1 [V 1 (user_frame 3) 0 []]]]"

theorem cleanupStackTrace_tidy_witness:
  "(\<exists>t'. v_cleanupStackTrace tidy_tree = Inr t' \<and> v_N t' = 3
      \<and> [1, 3] \<in> wanted si_address (ms_children (v_value t')) \<and> [9] \<notin> wanted si_address (ms_children (v_value t')))
   \<and> v_cleanupStackTrace dangling_tree = Inl Dangling
   \<and> (\<exists>k \<in> set (v_children dangling_tree). tight k \<and> \<not> thin k)"
proof -
  have frames: "child_frames (v_value tidy_tree) = {user_frame 1, user_frame 2, user_frame 3, frame_at 9}"
    by (auto simp: child_frames_def tidy_tree_def)
  have diff: "\<not> stack_eq (user_frame a) (frame_at 9)" "\<not> stack_eq (frame_at 9) (user_frame a)" if "a \<noteq> 9" for a
    using that by (simp_all add: user_frame_def frame_at_def stack_eq_def)
  have agrees: "agrees_on si_address (child_frames (v_value tidy_tree))"
    unfolding agrees_on_def frames by (simp add: example_frames diff user_frame_props(3))
  have before: "wanted si_address (ms_children (v_value tidy_tree)) = {[], [1], [1, 2], [1, 3]}"
    by (auto simp: tidy_tree_def wanted_of_below example_frames user_frame_props(3))
  have "\<forall>k \<in> set (v_children tidy_tree). tight k \<and> thin k" by (simp add: tidy_tree_def example_frames)
  with cleanupStackTrace_tidy [of tidy_tree si_address] agrees before obtain t' where
    "v_cleanupStackTrace tidy_tree = Inr t'" "v_N t' = v_N tidy_tree"
    "wanted si_address (ms_children (v_value t')) = {[], [1], [1, 2], [1, 3]}"
    by (cases "v_cleanupStackTrace tidy_tree") auto
  moreover have "\<exists>k \<in> set (v_children dangling_tree). tight k \<and> \<not> thin k"
  proof -
    have "\<forall>k \<in> set (v_children dangling_tree). tight k"
      by (simp add: dangling_tree_def)
    then show ?thesis
      using cleanupStackTrace_tidy [of dangling_tree si_address] dangling_tree_faults by auto
  qed
  ultimately show ?thesis using dangling_tree_faults by (simp add: tidy_tree_def)
qed

end
