(* ===== verification/Threads.thy ===== *)
theory Threads
  imports Static_Vector Number_Text
begin

text \<open>
  \<open>StackTraceThreads.cpp\<close>: finding the threads of the process through \<open>ps\<close> and signals
  (\<open>get_tid\<close>, \<open>activeThreads\<close>) and the registry of threads (\<open>registerThread\<close>, \<open>unregisterThread\<close>,
  \<open>registeredThreads\<close> and the clean-up at thread exit). Thread handles are words.
\<close>

section \<open>Reading the thread ids\<close>

text \<open>The characters up to the next space; without one the scan leaves the string.\<close>

definition field_of :: "cstring \<Rightarrow> (cstring \<times> cstring) result" where
  "field_of line =
     (case find_char (CHR '' '') line of
        None \<Rightarrow> Inl OutOfBounds
      | Some k \<Rightarrow> Inr (take k line, drop k line))"

text \<open>
  \<open>memcpy( buf2, field, n ); buf2[n + 1] = 0;\<close>: the character behind the field keeps its old value.
\<close>

definition put_field :: "cstring \<Rightarrow> cstring \<Rightarrow> cstring result" where
  "put_field buf2 f =
     (if length f + 1 < length buf2
      then Inr ((f @ drop (length f) buf2)[length f + 1 := NUL])
      else Inl OutOfBounds)"

definition get_tid :: "int \<Rightarrow> cstring \<Rightarrow> int result" where
  "get_tid pid line =
     bindR (field_of (skip_spaces line)) (\<lambda>(f1, rest1).
     bindR (put_field (replicate 128 NUL) f1) (\<lambda>buf2.
       if atoi buf2 \<noteq> pid then Inr (-1)
       else bindR (field_of (skip_spaces rest1)) (\<lambda>(f2, rest2).
            bindR (put_field buf2 f2) (\<lambda>buf2. Inr (atoi buf2)))))"

section \<open>The active threads\<close>

text \<open>The callback of \<open>exec2\<close>, for every line of the output of \<open>ps\<close>.\<close>

fun collect_tids :: "int \<Rightarrow> cstring list \<Rightarrow> int list \<Rightarrow> int list result" where
  "collect_tids pid [] tid = Inr tid"
| "collect_tids pid (line # lines) tid =
     bindR (get_tid pid line) (\<lambda>id.
       collect_tids pid lines (if id \<noteq> -1 \<and> length tid < 1024 then tid @ [id] else tid))"

text \<open>The calling thread is swapped with the last entry and cut off; \<open>i\<close> moves on.\<close>

function drop_self :: "int \<Rightarrow> nat \<Rightarrow> int list \<Rightarrow> int list" where
  "drop_self myid i tid =
     (if i < length tid then
        drop_self myid (Suc i)
          (if tid ! i = myid
           then take (length tid - 1) (tid[i := tid ! (length tid - 1), length tid - 1 := tid ! i])
           else tid)
      else tid)"
  by pat_completeness auto
termination
  by (relation "measure (\<lambda>(myid, i, tid). length tid - i)") auto

declare drop_self.simps [simp del]

text \<open>
  Each remaining thread is signalled and stores its handle. \<open>answer tid\<close> is the handle it stores
  within the waiting time, or \<open>None\<close>; the variable was set to the handle of the caller before.
\<close>

fun ask_threads :: "(int \<Rightarrow> 64 word option) \<Rightarrow> 64 word \<Rightarrow> int list \<Rightarrow> 64 word list" where
  "ask_threads answer thread0 [] = []"
| "ask_threads answer thread0 (t # tid) =
     (let thread_handle = (case answer t of None \<Rightarrow> thread0 | Some h \<Rightarrow> h)
      in if thread_handle \<noteq> thread0 then thread_handle # ask_threads answer thread0 tid
         else ask_threads answer thread0 tid)"

definition activeThreads ::
    "int \<Rightarrow> int \<Rightarrow> cstring list \<Rightarrow> (int \<Rightarrow> 64 word option) \<Rightarrow> 64 word \<Rightarrow> 64 word list result" where
  "activeThreads pid myid ps_lines answer thread0 =
     bindR (collect_tids pid ps_lines []) (\<lambda>tid.
       Inr (sort (ask_threads answer thread0 (drop_self myid 0 tid) @ [thread0])))"

section \<open>The registry\<close>

type_synonym registry = "64 word static_vector"

definition registry_new :: registry where
  "registry_new = sv_new 1024 0"

definition registerThread :: "64 word \<Rightarrow> registry \<Rightarrow> registry" where
  "registerThread h v =
     (let i = sv_find h v in if i = sv_size v then sv_push_back h v else v)"

definition unregisterThread :: "64 word \<Rightarrow> registry \<Rightarrow> registry" where
  "unregisterThread h v =
     (let i = sv_find h v in if i \<noteq> sv_size v then sv_swap_remove i v else v)"

definition registeredThreads :: "registry \<Rightarrow> 64 word list" where
  "registeredThreads v = sv_elems v"

text \<open>
  The life of the threads. \<open>tl_exiters\<close> are the threads whose thread-local \<open>exiter\<close> exists: only
  \<open>registerThread()\<close> without an argument, called by the thread itself, creates it.
\<close>

record thread_world =
  tl_live :: "64 word set"
  tl_exiters :: "64 word set"
  tl_registry :: registry

inductive thread_step :: "bool \<Rightarrow> thread_world \<Rightarrow> thread_world \<Rightarrow> bool" for foreign :: bool where
  spawn: "t \<notin> tl_live w \<Longrightarrow> thread_step foreign w (w\<lparr>tl_live := insert t (tl_live w)\<rparr>)"
| register_self: "t \<in> tl_live w \<Longrightarrow>
    thread_step foreign w
      (w\<lparr>tl_exiters := insert t (tl_exiters w), tl_registry := registerThread t (tl_registry w)\<rparr>)"
| register_other: "foreign \<Longrightarrow> t \<in> tl_live w \<Longrightarrow>
    thread_step foreign w (w\<lparr>tl_registry := registerThread t (tl_registry w)\<rparr>)"
| unregister: "thread_step foreign w (w\<lparr>tl_registry := unregisterThread t (tl_registry w)\<rparr>)"
| thread_exit: "t \<in> tl_live w \<Longrightarrow>
    thread_step foreign w (w\<lparr>tl_live := tl_live w - {t}, tl_exiters := tl_exiters w - {t},
      tl_registry := (if t \<in> tl_exiters w then unregisterThread t (tl_registry w) else tl_registry w)\<rparr>)"

text \<open>\<open>foreign\<close> says whether \<open>registerThread( id )\<close> is also called for other threads.\<close>

inductive thread_reachable :: "bool \<Rightarrow> 64 word \<Rightarrow> thread_world \<Rightarrow> bool" for foreign main_thread where
  "thread_reachable foreign main_thread
     \<lparr>tl_live = {main_thread}, tl_exiters = {}, tl_registry = registry_new\<rparr>"
| "thread_reachable foreign main_thread w \<Longrightarrow> thread_step foreign w w'
    \<Longrightarrow> thread_reachable foreign main_thread w'"

inductive_cases thread_stepE: "thread_step foreign w w'"

section \<open>get\_tid\<close>

lemma field_of_append: "CHR '' '' \<notin> set f \<Longrightarrow> field_of (f @ CHR '' '' # rest) = Inr (f, CHR '' '' # rest)"
  by (simp add: field_of_def find_char_notin)

lemma skip_spaces_line:
  "f \<noteq> [] \<Longrightarrow> CHR '' '' \<notin> set f \<Longrightarrow> skip_spaces (replicate a (CHR '' '') @ f @ rest) = f @ rest"
  by (induction a) (cases f; auto simp: skip_spaces_def)+

lemma dec_str_no_space: "CHR '' '' \<notin> set (dec_str n)"
  using num_str_digits [of 10 n] digit_chars_plain by fastforce

lemma NUL_stops: "stops 10 (NUL # s)"
  by (simp add: stops_def is_digit_def digit_val_def)

lemma put_field_zeros:
  assumes "length f + 1 < n"
  shows "put_field (replicate n NUL) f = Inr (f @ replicate (n - length f) NUL)"
proof -
  have "(f @ replicate (n - length f) NUL)[Suc (length f) := NUL] = f @ replicate (n - length f) NUL"
    using assms by (intro nth_equalityI) (auto simp: nth_append nth_list_update)
  with assms show ?thesis by (simp add: put_field_def)
qed
lemma digit_char_val: "digit_val 10 c = Some d \<Longrightarrow> c = digit_char d \<and> d < 10"
proof -
  assume a: "digit_val 10 c = Some d"
  then have "(of_char c :: nat) = 48 + d" "d < 10"
    by (auto simp: digit_val_def Let_def split: if_splits)
  then show ?thesis
    by (metis char_of_char digit_char_def)
qed

lemma dec_str_snoc: "0 < n \<Longrightarrow> d < 10 \<Longrightarrow> dec_str (10 * n + d) = dec_str n @ [digit_char d]"
  by (subst num_str.simps) (simp add: add.commute [of "10 * n" d])

lemma length_dec_small: "n \<le> 4194304 \<Longrightarrow> length (dec_str n) \<le> 7"
  using length_num_str [of 10 n 6] by simp

lemma put_field_second:
  assumes "length f1 \<le> 7" "length f2 \<le> 7"
  shows "\<exists>r. put_field (f1 @ replicate (128 - length f1) NUL) f2
    = Inr (f2 @ (if length f2 < length f1 then [f1 ! length f2] else []) @ NUL # r)"
proof -
  let ?b = "f1 @ replicate (128 - length f1) NUL"
  have p: "put_field ?b f2 = Inr ((f2 @ drop (length f2) ?b)[length f2 + 1 := NUL])"
    using assms by (simp add: put_field_def)
  show ?thesis
  proof (cases "length f2 < length f1")
    case True
    then have d: "drop (length f2) ?b = f1 ! length f2 # drop (Suc (length f2)) f1 @ replicate (128 - length f1) NUL"
      by (simp add: Cons_nth_drop_Suc)
    let ?t = "drop (Suc (length f2)) f1 @ replicate (128 - length f1) NUL"
    obtain x xs where xs: "?t = x # xs" using assms by (cases ?t) auto
    have "(f2 @ drop (length f2) ?b)[length f2 + 1 := NUL] = f2 @ f1 ! length f2 # NUL # xs"
      unfolding d xs by (simp add: list_update_append)
    with p True show ?thesis by simp
  next
    case False
    then have d: "drop (length f2) ?b = replicate (128 - length f2) NUL"
      by (simp add: drop_replicate)
    also have "\<dots> = NUL # NUL # replicate (126 - length f2) NUL"
    proof -
      have "128 - length f2 = Suc (Suc (126 - length f2))" using assms by simp
      then show ?thesis by simp
    qed
    finally have "(f2 @ drop (length f2) ?b)[length f2 + 1 := NUL] = f2 @ NUL # NUL # replicate (126 - length f2) NUL"
      by (simp add: list_update_append)
    with p False show ?thesis by simp
  qed
qed

lemma get_tid_line:
  fixes a b :: nat and rest :: cstring
  assumes "pid \<le> 4194304" "ppid \<le> 4194304" "0 < tid" "tid \<le> 4194304"
  defines "line \<equiv> replicate a (CHR '' '') @ dec_str ppid @ CHR '' '' # replicate b (CHR '' '')
      @ dec_str tid @ CHR '' '' # rest"
  shows "get_tid (int pid) line =
    (if ppid \<noteq> pid then Inr (-1)
     else if length (dec_str tid) < length (dec_str pid)
       then Inr (int (10 * tid + the (digit_val 10 (dec_str pid ! length (dec_str tid)))))
     else Inr (int tid))"
proof -
  note ns = dec_str_no_space
  have l: "length (dec_str ppid) \<le> 7" "length (dec_str tid) \<le> 7"
    using assms length_dec_small by simp_all
  have s1: "skip_spaces line = dec_str ppid @ CHR '' '' # replicate b (CHR '' '') @ dec_str tid @ CHR '' '' # rest"
    unfolding line_def by (rule skip_spaces_line) (simp_all add: ns)
  have "skip_spaces (replicate (Suc b) (CHR '' '') @ dec_str tid @ CHR '' '' # rest) = dec_str tid @ CHR '' '' # rest"
    by (rule skip_spaces_line) (simp_all add: ns)
  then have s2: "skip_spaces (CHR '' '' # replicate b (CHR '' '') @ dec_str tid @ CHR '' '' # rest)
      = dec_str tid @ CHR '' '' # rest" by simp
  have p1: "put_field (replicate 128 NUL) (dec_str ppid) = Inr (dec_str ppid @ replicate (128 - length (dec_str ppid)) NUL)"
    by (rule put_field_zeros) (use l in simp)
  have "replicate (128 - length (dec_str ppid)) NUL = NUL # replicate (127 - length (dec_str ppid)) NUL"
    using l(1) by (cases "128 - length (dec_str ppid)") auto
  then have a1: "atoi (dec_str ppid @ replicate (128 - length (dec_str ppid)) NUL) = int ppid"
    using atoi_dec [OF NUL_stops, of ppid] assms(2) by simp
  show ?thesis
  proof (cases "ppid = pid")
    case False
    then show ?thesis by (simp add: get_tid_def s1 field_of_append ns p1 a1)
  next
    case True
    from put_field_second [OF l] obtain r where p2:
      "put_field (dec_str ppid @ replicate (128 - length (dec_str ppid)) NUL) (dec_str tid)
        = Inr (dec_str tid @ (if length (dec_str tid) < length (dec_str ppid)
            then [dec_str ppid ! length (dec_str tid)] else []) @ NUL # r)" by blast
    have g: "get_tid (int pid) line = Inr (atoi (dec_str tid @ (if length (dec_str tid) < length (dec_str ppid)
            then [dec_str ppid ! length (dec_str tid)] else []) @ NUL # r))"
      by (simp add: True [symmetric] get_tid_def s1 s2 field_of_append ns p1 p2 a1)
    show ?thesis
    proof (cases "length (dec_str tid) < length (dec_str ppid)")
      case False
      then have "get_tid (int pid) line = Inr (atoi (dec_str tid @ NUL # r))" using g by simp
      then show ?thesis using False True atoi_dec [OF NUL_stops, of tid r] assms(4) by simp
    next
      case sh: True
      let ?c = "dec_str ppid ! length (dec_str tid)"
      have "is_digit 10 ?c" using num_str_digits [of 10 ppid] sh by simp
      then obtain d where d: "digit_val 10 ?c = Some d" by (auto simp: is_digit_def)
      from digit_char_val [OF d] have dc: "?c = digit_char d" "d < 10" by auto
      have "dec_str tid @ [?c] @ NUL # r = dec_str (10 * tid + d) @ NUL # r"
        unfolding dc(1) dec_str_snoc [OF assms(3) dc(2)] by simp
      moreover have "atoi (dec_str (10 * tid + d) @ NUL # r) = int (10 * tid + d)"
        by (rule atoi_dec [OF NUL_stops]) (use assms(4) dc(2) in simp)
      ultimately have "atoi (dec_str tid @ [?c] @ NUL # r) = int (10 * tid + d)" by (simp only:)
      then show ?thesis using True g sh d by simp
    qed
  qed
qed

text \<open>
  Reading a line of \<open>ps -T\<close>. For ids in the range of Linux the function never leaves the
  line or its buffer, and returns \<open>-1\<close> for another process. For the own process it returns the thread
  id, except when the thread id has fewer digits than the process id: then the terminator is
  written one place too far and a digit of the process id is appended.
\<close>

lemma get_tid_reads:
  fixes a b :: nat and rest :: cstring
  assumes "pid \<le> 4194304" "ppid \<le> 4194304" "0 < tid" "tid \<le> 4194304"
  defines "line \<equiv> replicate a (CHR '' '') @ dec_str ppid @ CHR '' '' # replicate b (CHR '' '')
      @ dec_str tid @ CHR '' '' # rest"
  shows "get_tid (int pid) line =
    (if ppid \<noteq> pid then Inr (-1)
     else if length (dec_str tid) < length (dec_str pid)
       then Inr (int (10 * tid + the (digit_val 10 (dec_str pid ! length (dec_str tid)))))
     else Inr (int tid))"
  unfolding line_def by (rule get_tid_line [OF assms(1-4)])

lemma digit_chars:
  "digit_char 0 = CHR ''0''" "digit_char (Suc 0) = CHR ''1''" "digit_char 2 = CHR ''2''"
  "digit_char 3 = CHR ''3''" "digit_char 6 = CHR ''6''" "digit_char 7 = CHR ''7''"
  unfolding digit_char_def by code_simp+

section \<open>activeThreads\<close>

lemma drop_self_absent: "myid \<notin> set tid \<Longrightarrow> drop_self myid i tid = tid"
proof (induction myid i tid rule: drop_self.induct)
  case (1 myid i tid)
  show ?case
  proof (cases "i < length tid")
    case True
    with 1(2) have "tid ! i \<noteq> myid" by auto
    with 1(1) [OF True] 1(2) show ?thesis by (subst drop_self.simps) auto
  qed (subst drop_self.simps, simp)
qed

lemma drop_self_spec:
  assumes "distinct tid" "\<forall>j < i. j < length tid \<longrightarrow> tid ! j \<noteq> myid"
  shows "set (drop_self myid i tid) = set tid - {myid}"
  using assms
proof (induction myid i tid rule: drop_self.induct)
  case (1 myid i tid)
  show ?case
  proof (cases "i < length tid")
    case False
    with 1(3) have "myid \<notin> set tid" by (auto simp: in_set_conv_nth)
    then show ?thesis by (simp add: drop_self_absent)
  next
    case i: True
    show ?thesis
    proof (cases "tid ! i = myid")
      case True
      let ?t = "take (length tid - 1) (tid[i := tid ! (length tid - 1)])"
      have "drop_self myid i tid = drop_self myid (Suc i) ?t"
        using i True by (subst drop_self.simps) simp
      moreover have "set ?t = set tid - {myid}"
        using svr.set_take_swap(1) [OF 1(2) i] True by simp
      moreover from this have "drop_self myid (Suc i) ?t = ?t" by (intro drop_self_absent) simp
      ultimately show ?thesis by simp
    next
      case False
      with 1(3) have "\<forall>j < Suc i. j < length tid \<longrightarrow> tid ! j \<noteq> myid" by (auto simp: less_Suc_eq)
      with 1(1) [OF i] 1(2) False i show ?thesis by (subst drop_self.simps) simp
    qed
  qed
qed

lemma set_ask_threads:
  "set (ask_threads answer thread0 tid) = {h. h \<noteq> thread0 \<and> (\<exists>t \<in> set tid. answer t = Some h)}"
  by (induction tid) (auto simp: Let_def split: option.splits)

text \<open>A line of the output of \<open>ps -T\<close>: process, thread, the padding, and the remaining columns.\<close>

record ps_row =
  ps_pid :: nat
  ps_tid :: nat
  ps_pad1 :: nat
  ps_pad2 :: nat
  ps_rest :: cstring

definition ps_line :: "ps_row \<Rightarrow> cstring" where
  "ps_line r = replicate (ps_pad1 r) (CHR '' '') @ dec_str (ps_pid r) @ CHR '' ''
     # replicate (ps_pad2 r) (CHR '' '') @ dec_str (ps_tid r) @ CHR '' '' # ps_rest r"

text \<open>The output begins with a line of titles, the first of them \<open>PID\<close>.\<close>

definition ps_header :: "nat \<Rightarrow> cstring \<Rightarrow> cstring" where
  "ps_header pad titles = replicate pad (CHR '' '') @ ''PID'' @ CHR '' '' # titles"

definition ps_output :: "nat \<Rightarrow> cstring \<Rightarrow> ps_row list \<Rightarrow> cstring list" where
  "ps_output pad titles rows = ps_header pad titles # map ps_line rows"

lemma get_tid_header:
  assumes "0 < pid"
  shows "get_tid (int pid) (ps_header pad titles) = Inr (-1)"
proof -
  have s: "skip_spaces (ps_header pad titles) = ''PID'' @ CHR '' '' # titles"
    unfolding ps_header_def by (rule skip_spaces_line) simp_all
  have f: "field_of (''PID'' @ CHR '' '' # titles) = Inr (''PID'', CHR '' '' # titles)"
    by (rule field_of_append) simp
  have p: "put_field (replicate 128 NUL) ''PID'' = Inr (''PID'' @ replicate 125 NUL)"
    using put_field_zeros [of "''PID''" 128] by simp
  have a: "atoi (''PID'' @ replicate 125 NUL) = 0"
    by (simp add: atoi_def strtol_def strtol_val_def read_sign_def is_space_def is_digit_def digit_val_def clamp_long_def LONG_MAX_def)
  show ?thesis using assms by (simp only: get_tid_def s f p a bindR_simps prod.case) simp
qed

definition ps_row_ok :: "ps_row \<Rightarrow> bool" where
  "ps_row_ok r \<longleftrightarrow> ps_pid r \<le> 4194304 \<and> 0 < ps_tid r \<and> ps_tid r \<le> 4194304
     \<and> length (dec_str (ps_pid r)) \<le> length (dec_str (ps_tid r))"

lemma collect_tids_rows:
  assumes "pid \<le> 4194304" "\<forall>r \<in> set rows. ps_row_ok r"
    "length tid + length (filter (\<lambda>r. ps_pid r = pid) rows) \<le> 1024"
  shows "collect_tids (int pid) (map ps_line rows) tid
    = Inr (tid @ map (int \<circ> ps_tid) (filter (\<lambda>r. ps_pid r = pid) rows))"
  using assms
proof (induction rows arbitrary: tid)
  case (Cons r rows)
  then have ok: "ps_row_ok r" by simp
  have g: "get_tid (int pid) (ps_line r) = (if ps_pid r \<noteq> pid then Inr (-1) else Inr (int (ps_tid r)))"
    using get_tid_line [of pid "ps_pid r" "ps_tid r" "ps_pad1 r" "ps_pad2 r" "ps_rest r"] ok Cons.prems(1)
    by (auto simp: ps_line_def ps_row_ok_def)
  show ?case
  proof (cases "ps_pid r = pid")
    case True
    with Cons.IH [of "tid @ [int (ps_tid r)]"] Cons.prems g show ?thesis by simp
  next
    case False
    with Cons.IH [of tid] Cons.prems g show ?thesis by simp
  qed
qed simp

text \<open>
  Property C33: the output of \<open>ps -T -p\<close> is a line of titles and one line for every thread. For a listing
  of at most 1024 threads of the process, each thread id at least as long as the process id,
  \<open>activeThreads\<close> returns a sorted list of exactly the calling thread and the handles that the other threads
  of the process answered with; the line of titles and the lines of other processes are ignored.
\<close>

theorem activeThreads_finds:
  assumes "0 < pid" "pid \<le> 4194304" "\<forall>r \<in> set rows. ps_row_ok r"
    "distinct (map ps_tid (filter (\<lambda>r. ps_pid r = pid) rows))"
    "length (filter (\<lambda>r. ps_pid r = pid) rows) \<le> 1024"
  shows "\<exists>ts. activeThreads (int pid) (int myid) (ps_output pad titles rows) answer thread0 = Inr ts \<and> sorted ts
    \<and> set ts = insert thread0
        {h. \<exists>r \<in> set rows. ps_pid r = pid \<and> ps_tid r \<noteq> myid \<and> answer (int (ps_tid r)) = Some h}"
proof -
  let ?own = "filter (\<lambda>r. ps_pid r = pid) rows"
  have c: "collect_tids (int pid) (ps_output pad titles rows) [] = Inr (map (int \<circ> ps_tid) ?own)"
    using collect_tids_rows [of pid rows "[]"] assms(2-5) by (simp add: ps_output_def get_tid_header [OF assms(1)])
  have "distinct (map (int \<circ> ps_tid) ?own)"
    using assms(4) by (simp add: distinct_map inj_on_def)
  then have d: "set (drop_self (int myid) 0 (map (int \<circ> ps_tid) ?own)) = set (map (int \<circ> ps_tid) ?own) - {int myid}"
    by (rule drop_self_spec) simp
  show ?thesis
    by (auto simp: activeThreads_def c set_ask_threads d)
qed

section \<open>The registry\<close>

lemma register_spec:
  assumes "sv_inv v" "distinct (sv_elems v)"
  shows "set (sv_elems (registerThread h v))
      = (if length (sv_elems v) < sv_capacity v then insert h (set (sv_elems v)) else set (sv_elems v))"
    "distinct (sv_elems (registerThread h v))" "sv_inv (registerThread h v)"
    "sv_capacity (registerThread h v) = sv_capacity v"
proof -
  have r: "registerThread h v = (if sv_find h v = length (sv_elems v) then sv_push_back h v else v)"
    using assms(1) by (simp add: registerThread_def sv_size_def)
  show "set (sv_elems (registerThread h v))
      = (if length (sv_elems v) < sv_capacity v then insert h (set (sv_elems v)) else set (sv_elems v))"
    unfolding r by (rule sv.add_new_set [OF assms(1)])
  show "distinct (sv_elems (registerThread h v))"
    unfolding r by (rule sv.add_new_distinct [OF assms])
  show "sv_inv (registerThread h v)" unfolding r by (rule sv.add_new_inv [OF assms(1)])
  show "sv_capacity (registerThread h v) = sv_capacity v" unfolding r by simp
qed

lemma unregister_spec:
  assumes "sv_inv v" "distinct (sv_elems v)"
  shows "set (sv_elems (unregisterThread h v)) = set (sv_elems v) - {h}"
    "distinct (sv_elems (unregisterThread h v))" "sv_inv (unregisterThread h v)"
    "sv_capacity (unregisterThread h v) = sv_capacity v"
proof -
  have r: "unregisterThread h v
      = (if sv_find h v \<noteq> length (sv_elems v) then sv_swap_remove (sv_find h v) v else v)"
    using assms(1) by (simp add: unregisterThread_def sv_size_def Let_def)
  show "set (sv_elems (unregisterThread h v)) = set (sv_elems v) - {h}"
    "distinct (sv_elems (unregisterThread h v))" "sv_inv (unregisterThread h v)"
    "sv_capacity (unregisterThread h v) = sv_capacity v"
    unfolding r using svr.remove_spec [OF assms, of h] by simp_all
qed

text \<open>
  Property C17: the registry is a set of at most its capacity. Registering adds the thread when it is
  missing and there is room, and silently does nothing when the registry is full;
  unregistering removes exactly the thread; no thread is ever listed twice.
\<close>

theorem registry_is_bounded_set:
  assumes "sv_inv v" "distinct (registeredThreads v)"
  shows "set (registeredThreads (registerThread h v))
      = (if length (registeredThreads v) < sv_capacity v then insert h (set (registeredThreads v))
         else set (registeredThreads v))
    \<and> set (registeredThreads (unregisterThread h v)) = set (registeredThreads v) - {h}
    \<and> distinct (registeredThreads (registerThread h v)) \<and> distinct (registeredThreads (unregisterThread h v))
    \<and> sv_inv (registerThread h v) \<and> sv_inv (unregisterThread h v)"
  using register_spec [OF assms(1), of h] unregister_spec [OF assms(1), of h] assms(2)
  by (simp add: registeredThreads_def)

lemma registry_new_inv: "sv_inv registry_new" "sv_elems registry_new = []" "sv_capacity registry_new = 1024"
  by (simp_all add: registry_new_def sv_new_def sv_capacity_def sv_elems_def sv_inv_def)

theorem registry_is_bounded_set_witness:
  "set (registeredThreads (unregisterThread 5 (sv_push_back 7 (sv_push_back 5 registry_new)))) = {7}"
proof -
  let ?v = "sv_push_back 7 (sv_push_back 5 registry_new)"
  have "sv_inv ?v" "registeredThreads ?v = [5, 7]"
    by (simp_all add: registeredThreads_def sv_inv_push_back sv_elems_push_back registry_new_inv)
  with registry_is_bounded_set [of ?v 5] show ?thesis by simp
qed

text \<open>
  Property C34: when threads only register themselves, every registered handle belongs to a live
  thread, in every reachable state: the thread-local clean-up runs before the thread is gone.
  Signals are therefore never sent to a finished thread.
\<close>

theorem registered_threads_live:
  assumes "thread_reachable False main_thread w"
  shows "set (registeredThreads (tl_registry w)) \<subseteq> tl_live w"
proof -
  have "sv_inv (tl_registry w) \<and> distinct (sv_elems (tl_registry w))
      \<and> set (sv_elems (tl_registry w)) \<subseteq> tl_exiters w \<and> tl_exiters w \<subseteq> tl_live w"
    using assms
  proof (induction rule: thread_reachable.induct)
    case 1
    then show ?case by (simp add: registry_new_inv)
  next
    case (2 w w')
    then have inv: "sv_inv (tl_registry w)" "distinct (sv_elems (tl_registry w))"
      "set (sv_elems (tl_registry w)) \<subseteq> tl_exiters w" "tl_exiters w \<subseteq> tl_live w" by auto
    from 2(2) show ?case
      by (rule thread_stepE)
        (use inv register_spec [OF inv(1,2)] unregister_spec [OF inv(1,2)] in \<open>auto split: if_splits\<close>)
  qed
  then show ?thesis by (auto simp: registeredThreads_def)
qed

theorem activeThreads_finds_witness:
  "\<exists>ts. activeThreads (int 10) (int 10)
      (ps_output 4 ''   SPID TTY          TIME CMD''
        [\<lparr>ps_pid = 10, ps_tid = 10, ps_pad1 = 4, ps_pad2 = 4, ps_rest = ''pts/0''\<rparr>,
         \<lparr>ps_pid = 10, ps_tid = 12, ps_pad1 = 4, ps_pad2 = 4, ps_rest = ''pts/0''\<rparr>])
      (\<lambda>t. if t = 12 then Some 77 else None) 50 = Inr ts
    \<and> sorted ts \<and> set ts = {50, 77}"
  using activeThreads_finds [of 10 "[\<lparr>ps_pid = 10, ps_tid = 10, ps_pad1 = 4, ps_pad2 = 4, ps_rest = ''pts/0''\<rparr>,
      \<lparr>ps_pid = 10, ps_tid = 12, ps_pad1 = 4, ps_pad2 = 4, ps_rest = ''pts/0''\<rparr>]" 10 4 "''   SPID TTY          TIME CMD''"
      "\<lambda>t. if t = 12 then Some 77 else None" 50]
    dec_str_snoc [of 1 0] dec_str_snoc [of 1 2]
  by (auto simp: ps_row_ok_def num_str.simps [of 10 "Suc 0"])

text \<open>A thread that was registered by another one is not removed when it ends.\<close>

definition stale_world :: thread_world where
  "stale_world = \<lparr>tl_live = {1}, tl_exiters = {}, tl_registry = registerThread 2 registry_new\<rparr>"

theorem registered_threads_live_witness:
  "set (registeredThreads (registerThread 1 registry_new)) \<subseteq> {1}"
proof -
  let ?w = "\<lparr>tl_live = {1}, tl_exiters = {1}, tl_registry = registerThread 1 registry_new\<rparr>"
  have "thread_reachable False 1 \<lparr>tl_live = {1}, tl_exiters = {}, tl_registry = registry_new\<rparr>"
    by (rule thread_reachable.intros(1))
  moreover have "thread_step False \<lparr>tl_live = {1}, tl_exiters = {}, tl_registry = registry_new\<rparr> ?w"
    using register_self [of 1 "\<lparr>tl_live = {1}, tl_exiters = {}, tl_registry = registry_new\<rparr>" False] by simp
  ultimately have "thread_reachable False 1 ?w" by (rule thread_reachable.intros(2))
  from registered_threads_live [OF this] show ?thesis by simp
qed

text \<open>
  The hypothesis is needed. A thread that another one registered has no clean-up of its
  own: there is a reachable state in which the registry holds the handle of a finished thread.
\<close>

lemma foreign_registration_goes_stale:
  "\<exists>w. thread_reachable True 1 w \<and> 2 \<in> set (registeredThreads (tl_registry w)) \<and> 2 \<notin> tl_live w"
proof -
  let ?w0 = "\<lparr>tl_live = {1}, tl_exiters = {}, tl_registry = registry_new\<rparr>"
  let ?w1 = "\<lparr>tl_live = {2, 1}, tl_exiters = {}, tl_registry = registry_new\<rparr>"
  let ?w2 = "\<lparr>tl_live = {2, 1}, tl_exiters = {}, tl_registry = registerThread 2 registry_new\<rparr>"
  have r: "thread_reachable True 1 ?w0" by (rule thread_reachable.intros(1))
  have "thread_step True ?w0 ?w1" using spawn [of 2 ?w0 True] by simp
  note r = thread_reachable.intros(2) [OF r this]
  have "thread_step True ?w1 ?w2" using register_other [of True 2 ?w1] by simp
  note r = thread_reachable.intros(2) [OF r this]
  have "thread_step True ?w2 stale_world"
    using thread_exit [of 2 ?w2 True] by (simp add: stale_world_def insert_Diff_if)
  note r = thread_reachable.intros(2) [OF r this]
  have "2 \<in> set (registeredThreads (tl_registry stale_world))"
    using register_spec(1) [of registry_new 2] registry_new_inv
    by (simp add: stale_world_def registeredThreads_def)
  with r show ?thesis by (intro exI [of _ stale_world]) (simp add: stale_world_def)
qed

end
