(* ===== verification/Backtrace.thy ===== *)
theory Backtrace
  imports Prelude
begin

text \<open>
  \<open>backtrace_thread\<close> of \<open>StackTrace.cpp\<close> on Linux: the call stack of another thread is obtained
  through a signal. The requesting thread holds \<open>StackTrace_mutex\<close>, resets the global counter, sends
  the signal and polls the counter for a limited time; the handler in the signalled thread writes
  the global buffer and then the counter. The model interleaves these steps.
\<close>

section \<open>The state\<close>

text \<open>Where the thread that holds the mutex is, and the thread it asks.\<close>

datatype phase =
    Unlocked
  | Locked "64 word"
  | Armed "64 word"
  | Waiting "64 word"
  | Stopped "64 word"
  | Taking "64 word" nat
  | Resetting

text \<open>
  \<open>hs_count\<close> and \<open>hs_trace\<close> are the globals \<open>global_thread_backtrace_count\<close> and
  \<open>global_thread_backtrace\<close>. A signal is first pending, then its handler runs; the flag says
  whether the running handler has already written the buffer. The last two fields record the
  answers that callers got and how often the waiting time ran out.
\<close>

record handshake =
  hs_phase :: phase
  hs_count :: int
  hs_trace :: "64 word list"
  hs_pending :: "64 word list"
  hs_running :: "(64 word \<times> bool) list"
  hs_results :: "(64 word \<times> 64 word list) list"
  hs_timeouts :: nat

definition hs_init :: handshake where
  "hs_init = \<lparr>hs_phase = Unlocked, hs_count = 0, hs_trace = replicate 1000 0, hs_pending = [],
     hs_running = [], hs_results = [], hs_timeouts = 0\<rparr>"

section \<open>The steps\<close>

datatype hs_action =
    Acquire "64 word"
  | Arm
  | Send
  | Answered
  | TimeOut
  | ReadCount
  | CopyTrace
  | Release
  | Deliver "64 word"
  | WriteTrace "64 word"
  | Publish "64 word"

text \<open>
  \<open>stack_of t\<close> is what \<open>::backtrace\<close> finds in thread \<open>t\<close>; it fills the front of the buffer and
  returns the number of entries. A step that is not possible is \<open>None\<close>.
\<close>

fun hs_step :: "(64 word \<Rightarrow> 64 word list) \<Rightarrow> hs_action \<Rightarrow> handshake \<Rightarrow> handshake option" where
  "hs_step stack_of (Acquire tid) s =
     (if hs_phase s = Unlocked then Some (s\<lparr>hs_phase := Locked tid\<rparr>) else None)"
| "hs_step stack_of Arm s =
     (case hs_phase s of Locked tid \<Rightarrow> Some (s\<lparr>hs_phase := Armed tid, hs_count := -1\<rparr>) | _ \<Rightarrow> None)"
| "hs_step stack_of Send s =
     (case hs_phase s of
        Armed tid \<Rightarrow> Some (s\<lparr>hs_phase := Waiting tid, hs_pending := hs_pending s @ [tid]\<rparr>)
      | _ \<Rightarrow> None)"
| "hs_step stack_of Answered s =
     (case hs_phase s of
        Waiting tid \<Rightarrow> if hs_count s \<noteq> -1 then Some (s\<lparr>hs_phase := Stopped tid\<rparr>) else None
      | _ \<Rightarrow> None)"
| "hs_step stack_of TimeOut s =
     (case hs_phase s of
        Waiting tid \<Rightarrow>
          if hs_count s = -1 then Some (s\<lparr>hs_phase := Stopped tid, hs_timeouts := Suc (hs_timeouts s)\<rparr>)
          else None
      | _ \<Rightarrow> None)"
| "hs_step stack_of ReadCount s =
     (case hs_phase s of
        Stopped tid \<Rightarrow> Some (s\<lparr>hs_phase := Taking tid (nat (max (hs_count s) 0))\<rparr>)
      | _ \<Rightarrow> None)"
| "hs_step stack_of CopyTrace s =
     (case hs_phase s of
        Taking tid count \<Rightarrow>
          Some (s\<lparr>hs_phase := Resetting, hs_results := hs_results s @ [(tid, take count (hs_trace s))]\<rparr>)
      | _ \<Rightarrow> None)"
| "hs_step stack_of Release s =
     (if hs_phase s = Resetting then Some (s\<lparr>hs_phase := Unlocked, hs_count := -1\<rparr>) else None)"
| "hs_step stack_of (Deliver tid) s =
     (if tid \<in> set (hs_pending s)
      then Some (s\<lparr>hs_pending := remove1 tid (hs_pending s), hs_running := hs_running s @ [(tid, False)]\<rparr>)
      else None)"
| "hs_step stack_of (WriteTrace tid) s =
     (if (tid, False) \<in> set (hs_running s)
      then Some (s\<lparr>hs_running := remove1 (tid, False) (hs_running s) @ [(tid, True)],
             hs_trace := stack_of tid @ drop (length (stack_of tid)) (hs_trace s)\<rparr>)
      else None)"
| "hs_step stack_of (Publish tid) s =
     (if (tid, True) \<in> set (hs_running s)
      then Some (s\<lparr>hs_running := remove1 (tid, True) (hs_running s),
             hs_count := int (length (stack_of tid))\<rparr>)
      else None)"

text \<open>The steps that the handler in the signalled thread makes, in their order.\<close>

definition handler_actions :: "64 word \<Rightarrow> hs_action list" where
  "handler_actions tid = [Deliver tid, WriteTrace tid, Publish tid]"

fun hs_run :: "(64 word \<Rightarrow> 64 word list) \<Rightarrow> hs_action list \<Rightarrow> handshake \<Rightarrow> handshake option" where
  "hs_run stack_of [] s = Some s"
| "hs_run stack_of (a # as) s =
     (case hs_step stack_of a s of None \<Rightarrow> None | Some s' \<Rightarrow> hs_run stack_of as s')"

inductive hs_reachable :: "(64 word \<Rightarrow> 64 word list) \<Rightarrow> handshake \<Rightarrow> bool" for stack_of where
  hs_start: "hs_reachable stack_of hs_init"
| hs_next: "hs_reachable stack_of s \<Longrightarrow> hs_step stack_of a s = Some s' \<Longrightarrow> hs_reachable stack_of s'"

section \<open>Without a timeout every answer is right\<close>

text \<open>Exactly one signal is on its way while a caller waits, and it is the one for its thread.\<close>

definition hs_answer :: "(64 word \<Rightarrow> 64 word list) \<Rightarrow> 64 word \<Rightarrow> handshake \<Rightarrow> bool" where
  "hs_answer stack_of tid s \<longleftrightarrow> hs_pending s = [] \<and> hs_running s = []
     \<and> hs_count s = int (length (stack_of tid)) \<and> take (length (stack_of tid)) (hs_trace s) = stack_of tid"

definition hs_inv :: "(64 word \<Rightarrow> 64 word list) \<Rightarrow> handshake \<Rightarrow> bool" where
  "hs_inv stack_of s \<longleftrightarrow>
     (\<forall>(tid, trace) \<in> set (hs_results s). trace = stack_of tid) \<and>
     (case hs_phase s of
        Unlocked \<Rightarrow> hs_pending s = [] \<and> hs_running s = []
      | Locked tid \<Rightarrow> hs_pending s = [] \<and> hs_running s = []
      | Armed tid \<Rightarrow> hs_pending s = [] \<and> hs_running s = [] \<and> hs_count s = -1
      | Waiting tid \<Rightarrow>
          hs_pending s = [tid] \<and> hs_running s = [] \<and> hs_count s = -1
        \<or> hs_pending s = [] \<and> hs_running s = [(tid, False)] \<and> hs_count s = -1
        \<or> hs_pending s = [] \<and> hs_running s = [(tid, True)] \<and> hs_count s = -1
          \<and> take (length (stack_of tid)) (hs_trace s) = stack_of tid
        \<or> hs_answer stack_of tid s
      | Stopped tid \<Rightarrow> hs_answer stack_of tid s
      | Taking tid n \<Rightarrow> hs_answer stack_of tid s \<and> n = length (stack_of tid)
      | Resetting \<Rightarrow> hs_pending s = [] \<and> hs_running s = [])"

lemma hs_timeouts_mono: "hs_step stack_of a s = Some s' \<Longrightarrow> hs_timeouts s \<le> hs_timeouts s'"
  by (cases a) (auto split: if_splits phase.splits)

text \<open>The steps of the caller, then those of the handler.\<close>

lemma hs_inv_caller:
  assumes "hs_inv stack_of s" "hs_step stack_of a s = Some s'" "hs_timeouts s' = hs_timeouts s"
    and "a \<in> {Arm, Send, Answered, TimeOut, ReadCount, CopyTrace, Release}"
  shows "hs_inv stack_of s'"
  using assms(4)
proof (elim insertE emptyE)
  assume [simp]: "a = Arm" show ?thesis
    using assms(1-3) by (cases "hs_phase s") (simp_all add: hs_inv_def, auto)
next
  assume [simp]: "a = Send" show ?thesis
    using assms(1-3) by (cases "hs_phase s") (simp_all add: hs_inv_def, auto)
next
  assume [simp]: "a = Answered" show ?thesis
    using assms(1-3) by (cases "hs_phase s") (simp_all add: hs_inv_def split: if_splits, auto simp: hs_answer_def)
next
  assume [simp]: "a = TimeOut" show ?thesis
    using assms(1-3) by (cases "hs_phase s") (auto split: if_splits)
next
  assume [simp]: "a = ReadCount" show ?thesis
    using assms(1-3) by (cases "hs_phase s") (simp_all add: hs_inv_def, auto simp: hs_answer_def)
next
  assume [simp]: "a = CopyTrace" show ?thesis
    using assms(1-3) by (cases "hs_phase s") (simp_all add: hs_inv_def, auto simp: hs_answer_def)
next
  assume [simp]: "a = Release" show ?thesis
    using assms(1-3) by (cases "hs_phase s") (simp_all add: hs_inv_def, auto)
qed

lemma hs_inv_signals:
  assumes "hs_inv stack_of s" "hs_pending s \<noteq> [] \<or> hs_running s \<noteq> []"
  obtains tid where "hs_phase s = Waiting tid"
    "hs_pending s = [tid] \<and> hs_running s = []
     \<or> hs_pending s = [] \<and> hs_running s = [(tid, False)]
     \<or> hs_pending s = [] \<and> hs_running s = [(tid, True)]
       \<and> take (length (stack_of tid)) (hs_trace s) = stack_of tid" "hs_count s = -1"
  using assms by (cases "hs_phase s") (auto simp: hs_inv_def hs_answer_def)

lemma hs_inv_step:
  assumes inv: "hs_inv stack_of s" and step: "hs_step stack_of a s = Some s'"
    and "hs_timeouts s' = hs_timeouts s"
  shows "hs_inv stack_of s'"
proof (cases a)
  case (Acquire tid)
  with inv step show ?thesis by (auto simp: hs_inv_def split: if_splits)
next
  case (Deliver t)
  then have t: "t \<in> set (hs_pending s)"
    and s': "s' = s\<lparr>hs_pending := remove1 t (hs_pending s), hs_running := hs_running s @ [(t, False)]\<rparr>"
    using step by (auto split: if_splits)
  then have "hs_pending s \<noteq> [] \<or> hs_running s \<noteq> []" by auto
  from hs_inv_signals [OF inv this] obtain u where "hs_phase s = Waiting u" "hs_pending s = [u]"
    "hs_running s = []" "hs_count s = -1" using t by (metis empty_iff empty_set)
  with t inv show ?thesis by (simp add: s' hs_inv_def)
next
  case (WriteTrace t)
  then have t: "(t, False) \<in> set (hs_running s)"
    and s': "s' = s\<lparr>hs_running := remove1 (t, False) (hs_running s) @ [(t, True)],
             hs_trace := stack_of t @ drop (length (stack_of t)) (hs_trace s)\<rparr>"
    using step by (auto split: if_splits)
  then have "hs_pending s \<noteq> [] \<or> hs_running s \<noteq> []" by auto
  from hs_inv_signals [OF inv this] obtain u where u: "hs_phase s = Waiting u"
    "hs_pending s = [u] \<and> hs_running s = []
     \<or> hs_pending s = [] \<and> hs_running s = [(u, False)]
     \<or> hs_pending s = [] \<and> hs_running s = [(u, True)]
       \<and> take (length (stack_of u)) (hs_trace s) = stack_of u" "hs_count s = -1" .
  from u(2) t have "hs_pending s = [] \<and> hs_running s = [(u, False)]" by auto
  with t u inv show ?thesis by (simp add: s' hs_inv_def)
next
  case (Publish t)
  then have t: "(t, True) \<in> set (hs_running s)"
    and s': "s' = s\<lparr>hs_running := remove1 (t, True) (hs_running s), hs_count := int (length (stack_of t))\<rparr>"
    using step by (auto split: if_splits)
  then have "hs_pending s \<noteq> [] \<or> hs_running s \<noteq> []" by auto
  from hs_inv_signals [OF inv this] obtain u where u: "hs_phase s = Waiting u"
    "hs_pending s = [u] \<and> hs_running s = []
     \<or> hs_pending s = [] \<and> hs_running s = [(u, False)]
     \<or> hs_pending s = [] \<and> hs_running s = [(u, True)]
       \<and> take (length (stack_of u)) (hs_trace s) = stack_of u" "hs_count s = -1" .
  from u(2) t have "hs_pending s = [] \<and> hs_running s = [(u, True)]
      \<and> take (length (stack_of u)) (hs_trace s) = stack_of u" by auto
  with t u inv show ?thesis by (simp add: s' hs_inv_def hs_answer_def)
qed (rule hs_inv_caller [OF assms]; simp)+

lemma hs_reachable_inv: "hs_reachable stack_of s \<Longrightarrow> hs_timeouts s = 0 \<Longrightarrow> hs_inv stack_of s"
proof (induction rule: hs_reachable.induct)
  case hs_start
  then show ?case by (simp add: hs_inv_def hs_init_def)
next
  case (hs_next s a s')
  with hs_timeouts_mono [of stack_of a s s'] hs_inv_step [of stack_of s a s'] show ?case by simp
qed

text \<open>
  Property C9: as long as no request has timed out, in every interleaving, each caller of
  \<open>backtrace_thread\<close> gets exactly the call stack of the thread it asked for.
\<close>

theorem backtrace_answers_correct:
  assumes "hs_reachable stack_of s" "hs_timeouts s = 0" "(tid, trace) \<in> set (hs_results s)"
  shows "trace = stack_of tid"
  using hs_reachable_inv [OF assms(1,2)] assms(3) by (auto simp: hs_inv_def)

lemma hs_run_reachable: "hs_reachable stack_of s \<Longrightarrow> hs_run stack_of as s = Some s' \<Longrightarrow> hs_reachable stack_of s'"
  by (induction "as" arbitrary: s) (auto split: option.splits intro: hs_next)

theorem backtrace_answers_correct_witness:
  "\<exists>s. hs_reachable (\<lambda>t. [t, 9]) s \<and> hs_results s = [(7, [7, 9])]"
proof -
  let ?as = "[Acquire 7, Arm, Send] @ handler_actions 7 @ [Answered, ReadCount, CopyTrace, Release]"
  obtain s where run: "hs_run (\<lambda>t. [t, 9]) ?as hs_init = Some s" and t: "hs_timeouts s = 0"
    and r: "map fst (hs_results s) = [7]"
    by (simp add: hs_init_def handler_actions_def)
  from hs_run_reachable [OF hs_start run] have reach: "hs_reachable (\<lambda>t. [t, 9]) s" .
  from r obtain trace where "hs_results s = [(7, trace)]" by (cases "hs_results s") auto
  with backtrace_answers_correct [OF reach t, of 7 trace] reach show ?thesis by auto
qed

section \<open>A late handler\<close>

text \<open>
  A caller is never stuck: from the moment it holds the mutex it gets through by its own
  steps, whatever the signalled thread does, and if that thread stays silent the answer
  is the empty stack.
\<close>

lemma backtrace_always_returns:
  assumes "hs_phase s = Locked tid"
  shows "\<exists>s'. hs_run stack_of [Arm, Send, TimeOut, ReadCount, CopyTrace, Release] s = Some s'
    \<and> hs_phase s' = Unlocked \<and> hs_results s' = hs_results s @ [(tid, [])]"
  using assms by simp

text \<open>
  The correctness of the answers does need the absence of timeouts. When a thread
  answers after its caller has given up, the next caller takes the stack of that thread for the stack of
  its own: for any two threads there is an interleaving in which asking for the second returns the
  stack of the first.
\<close>

lemma backtrace_late_handler:
  "\<exists>s. hs_reachable stack_of s \<and> hs_timeouts s = 1 \<and> hs_results s = [(t1, []), (t2, stack_of t1)]"
proof -
  let ?as = "[Acquire t1, Arm, Send, TimeOut, ReadCount, CopyTrace, Release,
    Acquire t2, Arm, Send, Deliver t1, WriteTrace t1, Publish t1, Answered, ReadCount, CopyTrace]"
  have "\<exists>s. hs_run stack_of ?as hs_init = Some s \<and> hs_timeouts s = 1
      \<and> hs_results s = [(t1, []), (t2, stack_of t1)]"
    by (simp add: hs_init_def)
  then show ?thesis using hs_run_reachable [OF hs_start] by blast
qed

end
