(* ===== verification/Signals.thy ===== *)
theory Signals
  imports CStrings
begin

text \<open>
  The signals of \<open>StackTrace.cpp\<close>: the names (\<open>signalName\<close>), the lists of signals to catch, and the
  installation and removal of handlers with the table \<open>signals_set\<close> (\<open>setSignals\<close>,
  \<open>clearSignal\<close>, \<open>clearSignals\<close>). The operating system is Linux with glibc.
\<close>

section \<open>Dispositions\<close>

text \<open>
  What a signal does. Handlers are named by the functions of the library that are installed; a
  user function is \<open>UserHandler\<close>.
\<close>

datatype disposition =
    SIG_DFL
  | SIG_IGN
  | TerminateHandler
  | CallstackHandler
  | ActiveThreadsHandler
  | StackInfoHandler
  | UserHandler nat

text \<open>The numbers of Linux; the numbers 32 and 33 are used by the C library itself.\<close>

definition SIGRTMIN :: int where "SIGRTMIN = 34"
definition SIGRTMAX :: int where "SIGRTMAX = 64"
definition SIGKILL :: int where "SIGKILL = 9"
definition SIGSTOP :: int where "SIGSTOP = 19"

text \<open>
  \<open>signal( sig, handler )\<close> of POSIX: \<open>SIGKILL\<close>, \<open>SIGSTOP\<close> and numbers that are no signals are refused
  and change nothing.
\<close>

definition catchable :: "int \<Rightarrow> bool" where
  "catchable sig \<longleftrightarrow>
     (0 < sig \<and> sig < 32 \<or> SIGRTMIN \<le> sig \<and> sig \<le> SIGRTMAX) \<and> sig \<noteq> SIGKILL \<and> sig \<noteq> SIGSTOP"

definition os_signal :: "int \<Rightarrow> disposition \<Rightarrow> (int \<Rightarrow> disposition) \<Rightarrow> (int \<Rightarrow> disposition)" where
  "os_signal sig h d = (if catchable sig then d(sig := h) else d)"

definition get_thread_callstack_signal :: int where
  "get_thread_callstack_signal =
     (if SIGRTMIN \<le> 39 \<and> 39 \<le> SIGRTMAX then 39 else min (SIGRTMIN + 4) SIGRTMAX)"

section \<open>Names and lists\<close>

text \<open>
  The table of names is filled on the first call, each name copied into 64 characters;
  \<open>strsignal\<close> is the function of the C library.
\<close>

definition signal_names :: "(int \<Rightarrow> cstring option) \<Rightarrow> cstring list" where
  "signal_names strsignal = map (\<lambda>i. copy_ptr (strsignal (int i + 1)) 64) [0..<128]"

definition signalName :: "(int \<Rightarrow> cstring option) \<Rightarrow> int \<Rightarrow> cstring option" where
  "signalName strsignal sig =
     (let valid = 0 < sig \<and> sig \<le> 128
      in if valid then Some (signal_names strsignal ! nat (sig - 1)) else None)"

definition allSignalsToCatch :: "int list" where
  "allSignalsToCatch =
     filter (\<lambda>i. \<not> (i = SIGKILL \<or> i = SIGSTOP)) [1..31]
     @ filter (\<lambda>i. \<not> (i = SIGKILL \<or> i = SIGSTOP)) [SIGRTMIN..SIGRTMAX]"

text \<open>\<open>erase( x, y )\<close>: \<open>std::remove\<close> and \<open>erase\<close> of the rest.\<close>

definition erase_value :: "'a list \<Rightarrow> 'a \<Rightarrow> 'a list" where
  "erase_value x y = filter (\<lambda>z. z \<noteq> y) x"

definition SIGWINCH :: int where "SIGWINCH = 28"
definition SIGCONT :: int where "SIGCONT = 18"
definition SIGCHLD :: int where "SIGCHLD = 17"
definition SIGALRM :: int where "SIGALRM = 14"
definition SIGVTALRM :: int where "SIGVTALRM = 26"
definition SIGPROF :: int where "SIGPROF = 27"

lemmas signal_numbers = SIGRTMIN_def SIGRTMAX_def SIGKILL_def SIGSTOP_def SIGWINCH_def SIGCONT_def
  SIGCHLD_def SIGALRM_def SIGVTALRM_def SIGPROF_def

definition defaultSignalsToCatch :: "int list" where
  "defaultSignalsToCatch =
     erase_value (erase_value (erase_value (erase_value (erase_value (erase_value
       allSignalsToCatch SIGWINCH) SIGCONT) SIGCHLD) SIGALRM) SIGVTALRM) SIGPROF"

section \<open>Handlers\<close>

text \<open>\<open>sg_set\<close> is the table \<open>signals_set[256]\<close>.\<close>

record signal_state =
  sg_disp :: "int \<Rightarrow> disposition"
  sg_set :: "bool list"

definition signal_state0 :: "(int \<Rightarrow> disposition) \<Rightarrow> signal_state" where
  "signal_state0 d = \<lparr>sg_disp = d, sg_set = replicate 256 False\<rparr>"

text \<open>\<open>signal( sig, handler ); signals_set[sig] = flag;\<close>\<close>

definition assign_signal :: "disposition \<Rightarrow> bool \<Rightarrow> int \<Rightarrow> signal_state \<Rightarrow> signal_state result" where
  "assign_signal handler flag sig s =
     (let s1 = s\<lparr>sg_disp := os_signal sig handler (sg_disp s)\<rparr>
      in if 0 \<le> sig \<and> sig < int (length (sg_set s1))
         then Inr (s1\<lparr>sg_set := (sg_set s1)[nat sig := flag]\<rparr>)
         else Inl OutOfBounds)"

definition clearSignal :: "int \<Rightarrow> signal_state \<Rightarrow> signal_state result" where
  "clearSignal sig s =
     (if 0 \<le> sig \<and> sig < int (length (sg_set s))
      then (if sg_set s ! nat sig then assign_signal SIG_DFL False sig s else Inr s)
      else Inl OutOfBounds)"

fun clearSignals_of :: "int list \<Rightarrow> signal_state \<Rightarrow> signal_state result" where
  "clearSignals_of [] s = Inr s"
| "clearSignals_of (sig # signals) s =
     bindR (assign_signal SIG_DFL False sig s) (clearSignals_of signals)"

text \<open>\<open>clearSignals()\<close> walks over the whole table from index \<open>i\<close> on.\<close>

function clear_from :: "nat \<Rightarrow> signal_state \<Rightarrow> signal_state" where
  "clear_from i s =
     (if i < length (sg_set s)
      then clear_from (Suc i)
        (if sg_set s ! i
         then s\<lparr>sg_disp := os_signal (int i) SIG_DFL (sg_disp s), sg_set := (sg_set s)[i := False]\<rparr>
         else s)
      else s)"
  by pat_completeness auto
termination
  by (relation "measure (\<lambda>(i, s). length (sg_set s) - i)") auto

declare clear_from.simps [simp del]

definition clearSignals :: "signal_state \<Rightarrow> signal_state" where
  "clearSignals s = clear_from 0 s"

fun setSignals :: "int list \<Rightarrow> disposition \<Rightarrow> signal_state \<Rightarrow> signal_state result" where
  "setSignals [] handler s = Inr s"
| "setSignals (sig # signals) handler s =
     bindR (assign_signal handler True sig s) (setSignals signals handler)"

section \<open>Properties\<close>

text \<open>
  The name of a signal is a terminated array of 64 characters with the name of the
  C library, cut with three dots when it is too long; numbers outside 1 to 128 have none.
\<close>

lemma signalName_spec:
  "signalName strsignal sig =
     (if 0 < sig \<and> sig \<le> 128 then Some (copy_ptr (strsignal sig) 64) else None)
   \<and> (\<forall>name. strsignal sig = Some name \<and> 0 < sig \<and> sig \<le> 128 \<longrightarrow>
        (\<exists>a. signalName strsignal sig = Some a \<and> length a = 64 \<and> terminated a \<and> cstr a = clipped (cstr name) 64))"
proof (intro conjI allI impI)
  show eq: "signalName strsignal sig =
     (if 0 < sig \<and> sig \<le> 128 then Some (copy_ptr (strsignal sig) 64) else None)"
    by (auto simp: signalName_def signal_names_def)
  fix name assume "strsignal sig = Some name \<and> 0 < sig \<and> sig \<le> 128"
  with copy_ptr_secure [of 64 name] eq
  show "\<exists>a. signalName strsignal sig = Some a \<and> length a = 64 \<and> terminated a \<and> cstr a = clipped (cstr name) 64"
    by auto
qed

lemma signalName_spec_witness:
  "cstr (the (signalName (\<lambda>_. Some ''Aborted'') 6)) = ''Aborted''"
  using signalName_spec [of "\<lambda>_. Some ''Aborted''" 6] by (auto simp: clipped_def cstr_def)

lemma set_allSignals: "sig \<in> set allSignalsToCatch \<longleftrightarrow> catchable sig"
  unfolding allSignalsToCatch_def set_append set_filter set_upto
  by (auto simp: catchable_def signal_numbers)

text \<open>
  \<open>allSignalsToCatch\<close> lists, in ascending order and once, exactly the signals that can be
  caught, and the default list is the same without the six signals a program lives with;
  every one of them has an entry in the table of handlers.
\<close>

lemma signal_lists:
  "sorted allSignalsToCatch \<and> distinct allSignalsToCatch \<and> set allSignalsToCatch = {sig. catchable sig}
   \<and> sorted defaultSignalsToCatch \<and> distinct defaultSignalsToCatch
   \<and> set defaultSignalsToCatch = {sig. catchable sig} - {SIGWINCH, SIGCONT, SIGCHLD, SIGALRM, SIGVTALRM, SIGPROF}
   \<and> set allSignalsToCatch \<subseteq> {0<..<256}"
proof -
  have s: "sorted allSignalsToCatch" "distinct allSignalsToCatch"
    by (auto simp: allSignalsToCatch_def sorted_append signal_numbers sorted_wrt_filter)
  show ?thesis
    using s by (auto simp: defaultSignalsToCatch_def erase_value_def sorted_wrt_filter set_allSignals
        catchable_def signal_numbers)
qed

section \<open>Installing and removing handlers\<close>

lemma assign_signal_ok:
  "assign_signal h f sig s =
    (if 0 \<le> sig \<and> sig < int (length (sg_set s))
     then Inr (s\<lparr>sg_disp := os_signal sig h (sg_disp s), sg_set := (sg_set s)[nat sig := f]\<rparr>)
     else Inl OutOfBounds)"
  by (simp add: assign_signal_def Let_def)

text \<open>The dispositions and the table after a list of assignments.\<close>

definition disp_after :: "int list \<Rightarrow> disposition \<Rightarrow> (int \<Rightarrow> disposition) \<Rightarrow> (int \<Rightarrow> disposition)" where
  "disp_after signals h d = (\<lambda>sig. if sig \<in> set signals \<and> catchable sig then h else d sig)"

definition set_after :: "int list \<Rightarrow> bool \<Rightarrow> bool list \<Rightarrow> bool list" where
  "set_after signals f t = map (\<lambda>i. if int i \<in> set signals then f else t ! i) [0..<length t]"

lemma length_set_after [simp]: "length (set_after signals f t) = length t"
  by (simp add: set_after_def)

lemma nth_set_after [simp]: "i < length t \<Longrightarrow> set_after signals f t ! i = (if int i \<in> set signals then f else t ! i)"
  by (simp add: set_after_def)

lemma set_after_Cons:
  assumes "0 \<le> sig"
  shows "set_after signals f (t[nat sig := f]) = set_after (sig # signals) f t"
  using assms by (intro nth_equalityI) (auto simp: nth_list_update)

lemma disp_after_Cons: "disp_after signals h (os_signal sig h d) = disp_after (sig # signals) h d"
  by (auto simp: disp_after_def os_signal_def)

lemma disp_after_Nil [simp]: "disp_after [] h d = d"
  by (simp add: disp_after_def)

lemma set_after_Nil [simp]: "set_after [] f t = t"
  by (intro nth_equalityI) simp_all

lemma setSignals_eq:
  "setSignals signals h s =
    (if \<forall>sig \<in> set signals. 0 \<le> sig \<and> sig < int (length (sg_set s))
     then Inr (s\<lparr>sg_disp := disp_after signals h (sg_disp s), sg_set := set_after signals True (sg_set s)\<rparr>)
     else Inl OutOfBounds)"
  by (induction signals arbitrary: s)
     (auto simp: assign_signal_ok disp_after_Cons set_after_Cons)

lemma clearSignals_of_eq:
  "clearSignals_of signals s =
    (if \<forall>sig \<in> set signals. 0 \<le> sig \<and> sig < int (length (sg_set s))
     then Inr (s\<lparr>sg_disp := disp_after signals SIG_DFL (sg_disp s), sg_set := set_after signals False (sg_set s)\<rparr>)
     else Inl OutOfBounds)"
  by (induction signals arbitrary: s)
     (auto simp: assign_signal_ok disp_after_Cons set_after_Cons)

lemma clear_from_eq:
  "sg_set (clear_from i s) = map (\<lambda>j. if i \<le> j then False else sg_set s ! j) [0..<length (sg_set s)]
   \<and> sg_disp (clear_from i s) = (\<lambda>sig. if int i \<le> sig \<and> sig < int (length (sg_set s)) \<and> sg_set s ! nat sig
        \<and> catchable sig then SIG_DFL else sg_disp s sig)"
proof (induction i s rule: clear_from.induct)
  case (1 i s)
  show ?case
  proof (cases "i < length (sg_set s)")
    case False
    then show ?thesis
      by (subst (1 2) clear_from.simps) (auto simp: fun_eq_iff intro: nth_equalityI)
  next
    case True
    let ?s = "if sg_set s ! i
         then s\<lparr>sg_disp := os_signal (int i) SIG_DFL (sg_disp s), sg_set := (sg_set s)[i := False]\<rparr>
         else s"
    have c: "clear_from i s = clear_from (Suc i) ?s"
      using True by (subst clear_from.simps) simp
    note ih = 1 [OF True]
    have "sg_set (clear_from (Suc i) ?s) = map (\<lambda>j. if i \<le> j then False else sg_set s ! j) [0..<length (sg_set s)]"
      using ih True by (auto simp: nth_list_update le_Suc_eq not_less_eq_eq intro!: nth_equalityI dest: le_antisym)
    moreover have "sg_disp (clear_from (Suc i) ?s) = (\<lambda>sig. if int i \<le> sig \<and> sig < int (length (sg_set s))
        \<and> sg_set s ! nat sig \<and> catchable sig then SIG_DFL else sg_disp s sig)"
    proof
      fix sig
      consider "sig = int i" | "sig \<noteq> int i" by blast
      then show "sg_disp (clear_from (Suc i) ?s) sig = (if int i \<le> sig \<and> sig < int (length (sg_set s))
        \<and> sg_set s ! nat sig \<and> catchable sig then SIG_DFL else sg_disp s sig)"
        using ih True by cases (auto simp: os_signal_def nth_list_update)
    qed
    ultimately show ?thesis unfolding c by blast
  qed
qed

lemma clearSignals_spec:
  "sg_set (clearSignals s) = replicate (length (sg_set s)) False"
  "sg_disp (clearSignals s) = (\<lambda>sig. if 0 \<le> sig \<and> sig < int (length (sg_set s)) \<and> sg_set s ! nat sig
     \<and> catchable sig then SIG_DFL else sg_disp s sig)"
  using clear_from_eq [of 0 s] by (auto simp: clearSignals_def map_replicate_const)

text \<open>
  Property C28: installing a handler fails exactly on a number outside the table, and then has changed
  nothing the caller can rely on; otherwise the listed signals that exist get the handler, the others
  keep what they had, and removing all handlers afterwards puts the listed signals to their default action and
  no other signal: signals the library did not touch keep the handlers of the program.
\<close>

theorem set_and_clear_signals:
  "(\<not> returns (setSignals signals h (signal_state0 d)) \<longleftrightarrow> (\<exists>sig \<in> set signals. sig < 0 \<or> 256 \<le> sig))
   \<and> (\<forall>s. setSignals signals h (signal_state0 d) = Inr s \<longrightarrow>
        (\<forall>sig. sg_disp s sig = (if sig \<in> set signals \<and> catchable sig then h else d sig))
        \<and> sg_disp (clearSignals s) = (\<lambda>sig. if sig \<in> set signals \<and> catchable sig then SIG_DFL else d sig)
        \<and> sg_set (clearSignals s) = replicate 256 False)"
proof (intro conjI allI impI)
  show "\<not> returns (setSignals signals h (signal_state0 d)) \<longleftrightarrow> (\<exists>sig \<in> set signals. sig < 0 \<or> 256 \<le> sig)"
    by (auto simp: setSignals_eq signal_state0_def not_le not_less)
  fix s assume s: "setSignals signals h (signal_state0 d) = Inr s"
  then have "s = \<lparr>sg_disp = disp_after signals h d, sg_set = set_after signals True (replicate 256 False)\<rparr>"
    by (auto simp: setSignals_eq signal_state0_def split: if_splits)
  note s' = this
  show "sg_disp s sig = (if sig \<in> set signals \<and> catchable sig then h else d sig)" for sig
    by (simp add: s' disp_after_def)
  show "sg_set (clearSignals s) = replicate 256 False"
    by (simp add: clearSignals_spec s')
  have range: "catchable sig \<Longrightarrow> 0 \<le> sig \<and> sig < 256" for sig
    by (auto simp: catchable_def signal_numbers)
  show "sg_disp (clearSignals s) = (\<lambda>sig. if sig \<in> set signals \<and> catchable sig then SIG_DFL else d sig)"
  proof
    fix sig
    have "catchable sig \<Longrightarrow> set_after signals True (replicate 256 False) ! nat sig = (sig \<in> set signals)"
    proof -
      assume c: "catchable sig"
      then have "nat sig < 256" using range [of sig] by linarith
      then show ?thesis using range [OF c] by simp
    qed
    then show "sg_disp (clearSignals s) sig = (if sig \<in> set signals \<and> catchable sig then SIG_DFL else d sig)"
      using range [of sig] by (auto simp: clearSignals_spec s' disp_after_def)
  qed
qed

theorem set_and_clear_signals_witness:
  "\<exists>s. setSignals [6, 11] TerminateHandler (signal_state0 (\<lambda>_. SIG_IGN)) = Inr s \<and> sg_disp s 11 = TerminateHandler
    \<and> sg_disp (clearSignals s) 11 = SIG_DFL \<and> sg_disp (clearSignals s) 15 = SIG_IGN"
proof -
  obtain s where s: "setSignals [6, 11] TerminateHandler (signal_state0 (\<lambda>_. SIG_IGN)) = Inr s"
    by (simp add: setSignals_eq signal_state0_def)
  with set_and_clear_signals [of "[6, 11]" TerminateHandler "\<lambda>_. SIG_IGN"]
  show ?thesis by (auto simp: catchable_def signal_numbers)
qed

end
