(* ===== verification/Exec.thy ===== *)
theory Exec
  imports Static_Vector Signals
begin

text \<open>
  Running a command: \<open>exec2\<close> of \<open>Utilities.hpp\<close>, which feeds the output of a command to a callback line
  by line while \<open>SIGCHLD\<close> is ignored, \<open>exec\<close> of \<open>Utilities.cpp\<close>, which returns the output, and
  \<open>exec2\<close> of \<open>StackTrace.cpp\<close>, which stores the lines in a fixed array.
\<close>

section \<open>exec2\<close>

text \<open>
  \<open>fgets( buffer, 0x2000, pipe )\<close> reads up to and including a newline, but at most 8191 characters.
\<close>

definition fgets_length :: "cstring \<Rightarrow> nat" where
  "fgets_length out =
     min 8191 (case find_char (CHR 0x0A) out of None \<Rightarrow> length out | Some k \<Rightarrow> Suc k)"

function fgets_chunks :: "cstring \<Rightarrow> cstring list" where
  "fgets_chunks out =
     (if out = [] then [] else take (fgets_length out) out # fgets_chunks (drop (fgets_length out) out))"
  by pat_completeness auto
termination
  by (relation "measure length") (auto simp: fgets_length_def split: option.splits)

declare fgets_chunks.simps [simp del]

text \<open>The callback gets a C string, and only when the buffer does not start with a NUL.\<close>

fun feed_lines :: "(cstring \<Rightarrow> 'a \<Rightarrow> 'a result) \<Rightarrow> cstring list \<Rightarrow> 'a \<Rightarrow> 'a result" where
  "feed_lines callback [] x = Inr x"
| "feed_lines callback (buffer # bs) x =
     (if cstr buffer \<noteq> [] then bindR (callback (cstr buffer) x) (feed_lines callback bs)
      else feed_lines callback bs x)"

text \<open>
  \<open>popen cmd\<close> is the output of the command, the value of \<open>pclose\<close> and whether \<open>errno\<close> is \<open>ECHILD\<close>
  behind it, or \<open>None\<close> when no process could be started. The state is what the callback
  collects and the dispositions of the signals.
\<close>

definition exec2 ::
    "(cstring \<Rightarrow> (cstring \<times> int \<times> bool) option) \<Rightarrow> cstring \<Rightarrow> (cstring \<Rightarrow> 'a \<Rightarrow> 'a result)
      \<Rightarrow> 'a \<Rightarrow> (int \<Rightarrow> disposition) \<Rightarrow> ((int \<times> 'a) \<times> (int \<Rightarrow> disposition)) result" where
  "exec2 popen cmd callback x d =
     (let sig = d SIGCHLD; d1 = os_signal SIGCHLD SIG_IGN d
      in case popen cmd of
           None \<Rightarrow> Inr ((-1, x), d1)
         | Some (out, code, echild) \<Rightarrow>
             bindR (feed_lines callback (fgets_chunks out) x)
               (\<lambda>y. Inr ((if echild then 0 else code, y), os_signal SIGCHLD sig d1)))"

section \<open>exec\<close>

definition append_line :: "cstring \<Rightarrow> cstring \<Rightarrow> cstring result" where
  "append_line line result_text = Inr (result_text @ line)"

definition exec ::
    "(cstring \<Rightarrow> (cstring \<times> int \<times> bool) option) \<Rightarrow> cstring \<Rightarrow> (int \<Rightarrow> disposition)
      \<Rightarrow> ((int \<times> cstring) \<times> (int \<Rightarrow> disposition)) result" where
  "exec popen cmd d = exec2 popen (cstr cmd) append_line [] d"

section \<open>Capturing the output\<close>

text \<open>A line becomes an array of 512 characters; its newline, when it has one there, becomes the end.\<close>

definition capture_row :: "cstring \<Rightarrow> cstring result" where
  "capture_row line =
     (let N = min (length line) 512; row = take N line @ replicate (512 - N) NUL
      in if N = 0 then Inl OutOfBounds
         else if row ! (N - 1) = CHR 0x0A then Inr (row[N - 1 := NUL])
         else Inr row)"

text \<open>Lines that do not fit the vector are dropped.\<close>

definition capture_line :: "cstring \<Rightarrow> cstring static_vector \<Rightarrow> cstring static_vector result" where
  "capture_line line out =
     (let k = sv_size out
      in if k = sv_capacity out then Inr out
         else bindR (sv_resize (k + 1) (replicate 512 NUL) out) (\<lambda>out1.
              bindR (capture_row line) (\<lambda>row. Inr (out1\<lparr>d_data := (d_data out1)[k := row]\<rparr>))))"

definition exec2_into ::
    "(cstring \<Rightarrow> (cstring \<times> int \<times> bool) option) \<Rightarrow> cstring \<Rightarrow> cstring static_vector \<Rightarrow> (int \<Rightarrow> disposition)
      \<Rightarrow> (cstring static_vector \<times> (int \<Rightarrow> disposition)) result" where
  "exec2_into popen cmd out d =
     bindR (exec2 popen cmd capture_line (sv_clear out) d) (\<lambda>((code, out'), d'). Inr (out', d'))"

section \<open>The lines are the output\<close>

lemma concat_fgets_chunks: "concat (fgets_chunks out) = out"
  by (induction out rule: fgets_chunks.induct) (subst fgets_chunks.simps, auto)

lemma fgets_chunks_nonempty: "c \<in> set (fgets_chunks out) \<Longrightarrow> c \<noteq> []"
proof (induction out rule: fgets_chunks.induct)
  case (1 out)
  then show ?case
    by (subst (asm) (2) fgets_chunks.simps)
       (auto split: if_splits simp: fgets_length_def min_def split: option.splits)
qed

lemma fgets_chunks_no_NUL: "NUL \<notin> set out \<Longrightarrow> c \<in> set (fgets_chunks out) \<Longrightarrow> NUL \<notin> set c"
  by (metis concat_fgets_chunks UN_I set_concat)

lemma SIGCHLD_catchable: "catchable SIGCHLD"
  by (simp add: catchable_def signal_numbers)

lemma exec2_disposition:
  "os_signal SIGCHLD (d SIGCHLD) (os_signal SIGCHLD h d) = d"
  by (simp add: os_signal_def SIGCHLD_catchable)

lemma feed_append_line:
  "\<forall>c \<in> set cs. NUL \<notin> set c \<and> c \<noteq> [] \<Longrightarrow> feed_lines append_line cs x = Inr (x @ concat cs)"
  by (induction cs arbitrary: x) (auto simp: append_line_def cstr_eq_self)

lemma exec_result:
  "(\<forall>out code echild. popen (cstr cmd) = Some (out, code, echild) \<and> NUL \<notin> set out \<longrightarrow>
      exec popen cmd d = Inr ((if echild then 0 else code, out), d))
   \<and> (popen (cstr cmd) = None \<longrightarrow> exec popen cmd d = Inr ((-1, []), d(SIGCHLD := SIG_IGN)))"
proof (intro conjI allI impI)
  fix out code echild assume p: "popen (cstr cmd) = Some (out, code, echild) \<and> NUL \<notin> set out"
  then have "feed_lines append_line (fgets_chunks out) [] = Inr ([] @ concat (fgets_chunks out))"
    by (intro feed_append_line) (auto dest: fgets_chunks_nonempty fgets_chunks_no_NUL)
  with p show "exec popen cmd d = Inr ((if echild then 0 else code, out), d)"
    by (simp add: exec_def exec2_def concat_fgets_chunks exec2_disposition)
next
  assume "popen (cstr cmd) = None"
  then show "exec popen cmd d = Inr ((-1, []), d(SIGCHLD := SIG_IGN))"
    by (simp add: exec_def exec2_def os_signal_def SIGCHLD_catchable)
qed

text \<open>
  Property C32: when the command can be started, \<open>exec\<close> returns its complete output, however long
  the lines are, and leaves the signal dispositions as they were; when it cannot, the code is \<open>-1\<close>,
  the output empty, and \<open>SIGCHLD\<close> stays ignored for the rest of the program.
\<close>

theorem exec_output:
  "(\<forall>out code echild. popen (cstr cmd) = Some (out, code, echild) \<and> NUL \<notin> set out \<longrightarrow>
      exec popen cmd d = Inr ((if echild then 0 else code, out), d))
   \<and> (popen (cstr cmd) = None \<longrightarrow> exec popen cmd d = Inr ((-1, []), d(SIGCHLD := SIG_IGN)))"
  by (rule exec_result)

theorem exec_output_witness:
  "exec (\<lambda>_. Some (''hello'', 3, True)) ''echo hello'' (\<lambda>_. SIG_DFL) = Inr ((0, ''hello''), \<lambda>_. SIG_DFL)
   \<and> exec (\<lambda>_. None) ''x'' (\<lambda>_. SIG_DFL) = Inr ((-1, []), (\<lambda>_. SIG_DFL)(SIGCHLD := SIG_IGN))"
  using exec_output [of "\<lambda>_. Some (''hello'', 3, True)" "''echo hello''" "\<lambda>_. SIG_DFL", THEN conjunct1,
      THEN spec [of _ "''hello''"], THEN spec [of _ 3], THEN spec [of _ True]]
    exec_output [of "\<lambda>_. None" "''x''" "\<lambda>_. SIG_DFL"] by simp

section \<open>The captured lines\<close>

definition chomp :: "cstring \<Rightarrow> cstring" where
  "chomp line = (if line \<noteq> [] \<and> last line = CHR 0x0A then butlast line else line)"

definition captured :: "cstring \<Rightarrow> cstring" where
  "captured line = take 512 (chomp line @ replicate 512 NUL)"

text \<open>In a chunk of \<open>fgets\<close> a newline is the last character.\<close>

definition line_like :: "cstring \<Rightarrow> bool" where
  "line_like line \<longleftrightarrow> line \<noteq> [] \<and> CHR 0x0A \<notin> set (butlast line) \<and> NUL \<notin> set line"

lemma fgets_head_line: "out \<noteq> [] \<Longrightarrow> CHR 0x0A \<notin> set (butlast (take (fgets_length out) out))"
proof -
  assume out: "out \<noteq> []"
  show ?thesis
  proof (cases "find_char (CHR 0x0A) out")
    case None
    then have "CHR 0x0A \<notin> set out" by simp
    then show ?thesis by (meson in_set_butlastD in_set_takeD)
  next
    case (Some k)
    from find_char_SomeD [OF Some] have k: "k < length out" "CHR 0x0A \<notin> set (take k out)" by auto
    have "butlast (take (fgets_length out) out) = take (fgets_length out - 1) out"
      using k(1) by (intro butlast_take) (simp add: fgets_length_def Some)
    moreover have "fgets_length out - 1 \<le> k" by (simp add: fgets_length_def Some)
    ultimately show ?thesis using k(2) set_take_subset_set_take by fastforce
  qed
qed

lemma fgets_chunks_lines: "NUL \<notin> set out \<Longrightarrow> c \<in> set (fgets_chunks out) \<Longrightarrow> line_like c"
proof (induction out rule: fgets_chunks.induct)
  case (1 out)
  show ?case
  proof (cases "out = []")
    case True
    with 1(3) show ?thesis by (simp add: fgets_chunks.simps [of "[]"])
  next
    case False
    have pos: "0 < fgets_length out" using False by (auto simp: fgets_length_def split: option.splits)
    from 1(3) False consider "c = take (fgets_length out) out"
      | "c \<in> set (fgets_chunks (drop (fgets_length out) out))"
      by (auto simp: fgets_chunks.simps [of out])
    then show ?thesis
    proof cases
      case 1
      with fgets_head_line [OF False] pos False \<open>NUL \<notin> set out\<close> show ?thesis
        by (auto simp: line_like_def dest: in_set_takeD)
    next
      case 2
      with "1.IH" [OF False] \<open>NUL \<notin> set out\<close> show ?thesis by (auto dest: in_set_dropD)
    qed
  qed
qed

lemma capture_row_line:
  assumes "line_like line"
  shows "capture_row line = Inr (captured line)"
proof -
  from assms obtain u c where l: "line = u @ [c]" and u: "CHR 0x0A \<notin> set u"
    by (cases line rule: rev_cases) (auto simp: line_like_def)
  consider "length line \<le> 512" | "512 < length line" by linarith
  then show ?thesis
  proof cases
    case 1
    then have n: "min (length line) 512 = Suc (length u)" using l by simp
    let ?r = "replicate (512 - Suc (length u)) NUL"
    have "NUL # ?r = replicate (512 - length u) NUL"
      using 1 l by (metis Suc_diff_Suc length_append_singleton less_eq_Suc_le replicate_Suc)
    moreover have "take (512 - Suc (length u)) (replicate 512 NUL) = ?r"
      "take (512 - length u) (replicate 512 NUL) = replicate (512 - length u) NUL"
      by simp_all
    ultimately show ?thesis
      using 1 unfolding capture_row_def n Let_def captured_def chomp_def l
      by (simp add: nth_append list_update_append)
  next
    case 2
    then have n: "min (length line) 512 = 512" by simp
    have "line ! 511 = u ! 511" "511 < length u" using 2 l by (auto simp: nth_append)
    then have "line ! 511 \<noteq> CHR 0x0A" using u by (metis nth_mem)
    moreover have "take 512 (chomp line @ replicate 512 NUL) = take 512 line"
      using 2 by (auto simp: chomp_def l)
    ultimately show ?thesis
      unfolding capture_row_def n Let_def captured_def using 2 by simp
  qed
qed

lemma capture_line_spec:
  assumes "sv_inv v" "line_like line"
  shows "\<exists>v'. capture_line line v = Inr v' \<and> sv_inv v' \<and> sv_capacity v' = sv_capacity v
    \<and> sv_elems v' = take (sv_capacity v) (sv_elems v @ [captured line])"
proof (cases "d_size v = sv_capacity v")
  case True
  with assms(1) show ?thesis by (simp add: capture_line_def sv_size_def)
next
  case False
  then have room: "d_size v < sv_capacity v" using assms(1) by (simp add: sv_inv_def sv_capacity_def)
  with sv_resize_spec [OF assms(1), of "d_size v + 1" "replicate 512 NUL"] obtain v1
    where v1: "sv_resize (d_size v + 1) (replicate 512 NUL) v = Inr v1" "sv_inv v1" "sv_capacity v1 = sv_capacity v"
      "sv_elems v1 = sv_elems v @ [replicate 512 NUL]"
    using assms(1) by auto
  let ?v = "v1\<lparr>d_data := (d_data v1)[d_size v := captured line]\<rparr>"
  have "sv_elems ?v = (sv_elems v1)[d_size v := captured line]"
    by (simp add: sv_elems_def take_update_swap)
  also have "\<dots> = sv_elems v @ [captured line]"
    using assms(1) unfolding v1(4) by (simp add: list_update_append)
  finally have "sv_elems ?v = sv_elems v @ [captured line]" .
  moreover have "capture_line line v = Inr ?v"
    using False v1(1) by (simp add: capture_line_def sv_size_def Let_def capture_row_line [OF assms(2)])
  moreover have "sv_inv ?v" "sv_capacity ?v = sv_capacity v"
    using v1(2,3) by (simp_all add: sv_inv_def sv_capacity_def)
  ultimately show ?thesis using room assms(1) by simp
qed

lemma take_take_append: "take n (take n xs @ ys) = take n (xs @ ys)"
  by (cases "n \<le> length xs") simp_all

lemma feed_capture:
  assumes "\<forall>l \<in> set ls. line_like l" "sv_inv v"
  shows "\<exists>v'. feed_lines capture_line ls v = Inr v' \<and> sv_inv v' \<and> sv_capacity v' = sv_capacity v
    \<and> sv_elems v' = take (sv_capacity v) (sv_elems v @ map captured ls)"
  using assms
proof (induction ls arbitrary: v)
  case Nil
  then show ?case by (auto simp: sv_inv_def sv_elems_def sv_capacity_def)
next
  case (Cons l ls)
  then have l: "cstr l = l" "l \<noteq> []" by (auto simp: line_like_def cstr_eq_self)
  from capture_line_spec [of v l] Cons.prems obtain v1 where v1: "capture_line l v = Inr v1" "sv_inv v1"
    "sv_capacity v1 = sv_capacity v" "sv_elems v1 = take (sv_capacity v) (sv_elems v @ [captured l])" by auto
  from Cons.IH [OF _ v1(2)] Cons.prems(1) obtain v' where v': "feed_lines capture_line ls v1 = Inr v'"
    "sv_inv v'" "sv_capacity v' = sv_capacity v1"
    "sv_elems v' = take (sv_capacity v1) (sv_elems v1 @ map captured ls)" by auto
  have "length (sv_elems v) \<le> sv_capacity v" by (rule sv.elems_bounded [OF Cons.prems(2)])
  then have "sv_elems v' = take (sv_capacity v) (sv_elems v @ map captured (l # ls))"
    unfolding v'(4) v1(3,4) take_take_append by simp
  with l v1 v' show ?case by auto
qed

lemma exec2_into_captures:
  assumes "popen cmd = Some (out, code, echild)" "NUL \<notin> set out" "sv_inv v"
  shows "\<exists>v'. exec2_into popen cmd v d = Inr (v', d) \<and> sv_inv v' \<and> sv_capacity v' = sv_capacity v
    \<and> sv_elems v' = take (sv_capacity v) (map captured (fgets_chunks out))"
proof -
  have v: "sv_inv (sv_clear v)" "sv_elems (sv_clear v) = []" "sv_capacity (sv_clear v) = sv_capacity v"
    by (simp_all add: sv_clear_def sv_inv_def sv_elems_def sv_capacity_def)
  have lines: "\<forall>l \<in> set (fgets_chunks out). line_like l"
    using fgets_chunks_lines [OF assms(2)] by blast
  from feed_capture [OF this v(1)] obtain v' where v': "feed_lines capture_line (fgets_chunks out) (sv_clear v) = Inr v'"
    "sv_inv v'" "sv_capacity v' = sv_capacity v" "sv_elems v' = take (sv_capacity v) (map captured (fgets_chunks out))"
    unfolding v(2,3) by auto
  with assms(1) show ?thesis
    by (simp add: exec2_into_def exec2_def exec2_disposition)
qed

lemma terminated_captured:
  assumes "line_like l"
  shows "terminated (captured l) \<longleftrightarrow> length (chomp l) < 512"
proof -
  have "NUL \<notin> set (chomp l)" using assms by (auto simp: line_like_def chomp_def dest: in_set_butlastD)
  then show ?thesis by (auto simp: captured_def terminated_def dest: in_set_takeD)
qed

text \<open>The chunks of an output whose lines are short are its lines.\<close>

lemma fgets_chunks_concat:
  assumes "\<forall>l \<in> set ls. CHR 0x0A \<notin> set l \<and> length l < 8191"
  shows "fgets_chunks (concat (map (\<lambda>l. l @ [CHR 0x0A]) ls)) = map (\<lambda>l. l @ [CHR 0x0A]) ls"
  using assms
proof (induction ls)
  case (Cons l ls)
  let ?o = "concat (map (\<lambda>l. l @ [CHR 0x0A]) (l # ls))"
  have "find_char (CHR 0x0A) ?o = Some (length l)"
    using Cons.prems find_char_notin [of "CHR 0x0A" l] by simp
  then have "fgets_length ?o = Suc (length l)" using Cons.prems by (simp add: fgets_length_def)
  moreover have "take (Suc (length l)) ?o = l @ [CHR 0x0A]"
    "drop (Suc (length l)) ?o = concat (map (\<lambda>l. l @ [CHR 0x0A]) ls)" by simp_all
  moreover have "?o \<noteq> []" by simp
  ultimately have "fgets_chunks ?o = (l @ [CHR 0x0A]) # fgets_chunks (concat (map (\<lambda>l. l @ [CHR 0x0A]) ls))"
    by (subst fgets_chunks.simps) (simp only: if_False)
  with Cons show ?case by simp
qed (simp add: fgets_chunks.simps)

text \<open>
  Capturing a command never faults and keeps as many of the first lines as fit the vector:
  each as an array of 512 characters without its newline. A line of 512 or more characters
  fills its array to the end, so that the array is not terminated.
\<close>

lemma exec2_into_lines:
  assumes "popen cmd = Some (out, code, echild)" "NUL \<notin> set out" "sv_inv v"
  shows "\<exists>v'. exec2_into popen cmd v d = Inr (v', d) \<and> sv_inv v' \<and> sv_capacity v' = sv_capacity v
    \<and> sv_elems v' = take (sv_capacity v) (map captured (fgets_chunks out))
    \<and> (\<forall>l \<in> set (fgets_chunks out). terminated (captured l) \<longleftrightarrow> length (chomp l) < 512)"
  using exec2_into_captures [of popen cmd, OF assms] terminated_captured fgets_chunks_lines [OF assms(2)]
  by meson

end
