(* ===== verification/Symbols.thy ===== *)
theory Symbols
  imports Exec Stack_Info
begin

text \<open>
  The symbol table of the executable: the name of the executable (\<open>getExecutableName\<close>), the
  output of \<open>nm\<close> (\<open>getSymbolData\<close>), its cache (\<open>getSymbols\<close>, \<open>clearSymbols\<close>), the search for the symbol of
  an address (\<open>getDataFromGlobalSymbols\<close>), and \<open>findfirst\<close> of \<open>Utilities.cpp\<close>, which uses the same halving.
\<close>

section \<open>The executable\<close>

text \<open>\<open>readlink\<close> of \<open>/proc/self/exe\<close>: the path, or \<open>None\<close> when the call fails.\<close>

definition getExecutableName :: "cstring option \<Rightarrow> cstring result" where
  "getExecutableName readlink =
     (case readlink of
        None \<Rightarrow> Inr (replicate 1000 NUL)
      | Some path \<Rightarrow>
          if length path < 65536 then Inr (copy_ptr (Some (path @ replicate (65536 - length path) NUL)) 1000)
          else Inl OutOfBounds)"

definition getExecutable :: "cstring option \<Rightarrow> cstring result" where
  "getExecutable readlink = bindR (getExecutableName readlink) (\<lambda>exe. Inr (cstr exe))"

section \<open>Reading the symbols\<close>

record symbols_struct =
  sym_type :: char
  sym_address :: "64 word"
  sym_obj :: cstring
  sym_objPath :: cstring

text \<open>\<open>strtoul( a, nullptr, 16 )\<close>: a value out of range saturates, a negative one wraps.\<close>

definition strtoul16 :: "cstring \<Rightarrow> 64 word" where
  "strtoul16 a =
     (let v = strtol_val 16 a in if 18446744073709551615 < \<bar>v\<bar> then -1 else word_of_int v)"

text \<open>The characters in front of the first occurrence of \<open>c\<close>, and those behind it.\<close>

definition cut_at :: "char \<Rightarrow> cstring \<Rightarrow> (cstring \<times> cstring) option" where
  "cut_at c s = (case find_char c s of None \<Rightarrow> None | Some k \<Rightarrow> Some (take k s, drop (Suc k) s))"

text \<open>The callback for a line of the output of \<open>nm\<close>.\<close>

definition process_nm_line :: "cstring \<Rightarrow> symbols_struct list \<Rightarrow> symbols_struct list result" where
  "process_nm_line line data =
     (if line \<noteq> [] \<and> hd line = CHR '' '' then Inr data
      else case cut_at (CHR '' '') line of
             None \<Rightarrow> Inr data
           | Some (a, b1) \<Rightarrow>
               (case cut_at (CHR '' '') b1 of
                  None \<Rightarrow> Inr data
                | Some (b, c1) \<Rightarrow>
                    let c = (case cut_at (CHR 0x0A) c1 of None \<Rightarrow> c1 | Some (c, _) \<Rightarrow> c);
                        (obj, objPath) = copy_path (Some c) 56 56
                    in Inr (data @ [\<lparr>sym_type = (case b of [] \<Rightarrow> NUL | x # _ \<Rightarrow> x), sym_address = strtoul16 a,
                              sym_obj = obj, sym_objPath = objPath\<rparr>])))"

definition nm_command :: "cstring \<Rightarrow> cstring result" where
  "nm_command exe =
     (let cmd = ''nm -n --demangle '' @ cstr exe
      in if length cmd < 1024 then Inr cmd else Inl OutOfBounds)"

definition getSymbolData ::
    "(cstring \<Rightarrow> (cstring \<times> int \<times> bool) option) \<Rightarrow> cstring \<Rightarrow> (int \<Rightarrow> disposition)
      \<Rightarrow> (symbols_struct list \<times> (int \<Rightarrow> disposition)) result" where
  "getSymbolData popen exe d =
     bindR (nm_command exe) (\<lambda>cmd.
     bindR (exec2 popen cmd process_nm_line [] d) (\<lambda>((code, data), d'). Inr (data, d')))"

section \<open>The cache\<close>

record symbols_cache =
  sc_loaded :: bool
  sc_data :: "symbols_struct list"

text \<open>
  \<open>load\<close> stands for a call of \<open>getSymbolData\<close>, which goes through the signal dispositions.
\<close>

type_synonym symbol_loader =
  "(int \<Rightarrow> disposition) \<Rightarrow> (symbols_struct list \<times> (int \<Rightarrow> disposition)) result"

definition load_symbols ::
    "symbol_loader \<Rightarrow> symbols_cache \<times> (int \<Rightarrow> disposition) \<Rightarrow> (symbols_cache \<times> (int \<Rightarrow> disposition)) result" where
  "load_symbols load = (\<lambda>(cache, d).
     if \<not> sc_loaded cache then bindR (load d) (\<lambda>(data, d'). Inr (\<lparr>sc_loaded = True, sc_data = data\<rparr>, d'))
     else Inr (cache, d))"

definition getSymbols ::
    "symbol_loader \<Rightarrow> symbols_cache \<times> (int \<Rightarrow> disposition)
      \<Rightarrow> (symbols_struct list \<times> symbols_cache \<times> (int \<Rightarrow> disposition)) result" where
  "getSymbols load st = bindR (load_symbols load st) (\<lambda>st'. Inr (sc_data (fst st'), st'))"

definition clearSymbols :: "symbols_cache \<Rightarrow> symbols_cache" where
  "clearSymbols cache = (if sc_loaded cache then \<lparr>sc_loaded = False, sc_data = []\<rparr> else cache)"

section \<open>Halving\<close>

text \<open>
  \<open>while ( ( upper - lower ) != 1 )\<close>; \<open>None\<close> is a loop that never ends. \<open>ge i\<close> says that the entry at
  \<open>i\<close> is not smaller than what is searched.
\<close>

partial_function (option) halve :: "(nat \<Rightarrow> bool) \<Rightarrow> nat \<Rightarrow> nat \<Rightarrow> (nat \<times> nat) option" where
  "halve ge lower upper =
     (if upper - lower = 1 then Some (lower, upper)
      else let mid = (upper + lower) div 2
           in if ge mid then halve ge lower mid else halve ge mid upper)"

declare halve.simps [code]

definition getDataFromGlobalSymbols ::
    "symbol_loader \<Rightarrow> cstring \<Rightarrow> stack_info \<Rightarrow> symbols_cache \<times> (int \<Rightarrow> disposition)
      \<Rightarrow> (stack_info \<times> symbols_cache \<times> (int \<Rightarrow> disposition)) result" where
  "getDataFromGlobalSymbols load exe info st =
     bindR (load_symbols load st) (\<lambda>st'.
       let data = sc_data (fst st')
       in if data = [] then Inr (info, st')
          else case halve (\<lambda>i. si_address info \<le> sym_address (data ! i)) 0 (length data - 1) of
                 None \<Rightarrow> Inl Diverges
               | Some (lower, upper) \<Rightarrow>
                   if 0 < upper
                   then Inr (info\<lparr>si_object := copy_array (sym_obj (data ! lower)) 56,
                                  si_objectPath := copy_array (sym_objPath (data ! lower)) 48\<rparr>, st')
                   else let (obj, objPath) = copy_path (Some exe) 56 48
                        in Inr (info\<lparr>si_object := obj, si_objectPath := objPath\<rparr>, st'))"

definition findfirst :: "'a::linorder list \<Rightarrow> 'a \<Rightarrow> nat result" where
  "findfirst X Y =
     (if X = [] then Inr 0
      else let lower = 0; upper = length X - 1
           in if Y \<le> X ! lower then Inr lower
              else if X ! upper < Y then Inr upper
              else case halve (\<lambda>i. Y \<le> X ! i) lower upper of
                     None \<Rightarrow> Inl Diverges
                   | Some (lower', upper') \<Rightarrow> Inr upper')"

subsection \<open>What the loop computes\<close>

lemma halve_returns:
  assumes "lower < upper"
  shows "\<exists>l. halve ge lower upper = Some (l, Suc l) \<and> lower \<le> l \<and> l < upper
    \<and> (l = lower \<or> \<not> ge l) \<and> (Suc l = upper \<or> ge (Suc l))"
  using assms
proof (induction "upper - lower" arbitrary: lower upper rule: less_induct)
  case less
  show ?case
  proof (cases "upper - lower = 1")
    case True
    then have "upper = Suc lower" by simp
    then show ?thesis by (subst halve.simps) simp
  next
    case False
    let ?m = "(upper + lower) div 2"
    have m: "lower < ?m" "?m < upper" using False less.prems by auto
    show ?thesis
    proof (cases "ge ?m")
      case True
      have "?m - lower < upper - lower" using m by linarith
      from less.hyps [OF this m(1)] obtain l where
        "halve ge lower ?m = Some (l, Suc l)" "lower \<le> l" "l < ?m" "l = lower \<or> \<not> ge l" "Suc l = ?m \<or> ge (Suc l)"
        by blast
      with True False m show ?thesis by (subst halve.simps) auto
    next
      case nge: False
      have "upper - ?m < upper - lower" using m by linarith
      from less.hyps [OF this m(2)] obtain l where
        "halve ge ?m upper = Some (l, Suc l)" "?m \<le> l" "l < upper" "l = ?m \<or> \<not> ge l" "Suc l = upper \<or> ge (Suc l)"
        by blast
      with nge False m show ?thesis by (subst halve.simps) auto
    qed
  qed
qed

lemma halve_cong:
  assumes "lower < upper" "\<And>i. lower < i \<Longrightarrow> i < upper \<Longrightarrow> ge i = ge' i"
  shows "halve ge lower upper = halve ge' lower upper"
  using assms
proof (induction "upper - lower" arbitrary: lower upper rule: less_induct)
  case less
  let ?m = "(upper + lower) div 2"
  show ?case
  proof (cases "upper - lower = 1")
    case True
    then show ?thesis by (subst (1 2) halve.simps) simp
  next
    case False
    then have m: "lower < ?m" "?m < upper" using less.prems(1) by auto
    have "?m - lower < upper - lower" "upper - ?m < upper - lower" using m by linarith+
    then have "halve ge lower ?m = halve ge' lower ?m" "halve ge ?m upper = halve ge' ?m upper"
      using less.hyps m less.prems(2) by auto
    with False m less.prems(2) [of ?m] show ?thesis by (subst (1 2) halve.simps) (simp add: Let_def)
  qed
qed

lemma halve_some_neq: "halve ge lower upper = Some r \<Longrightarrow> lower \<noteq> upper"
proof (rule halve.raw_induct [where P = "\<lambda>ge lower upper r. lower \<noteq> upper"])
  fix halve' ge and lower upper :: nat and y
  assume ih: "\<And>ge lower upper y. halve' ge lower upper = Some y \<Longrightarrow> lower \<noteq> upper"
    and step: "(if upper - lower = 1 then Some (lower, upper)
      else let mid = (upper + lower) div 2
           in if ge mid then halve' ge lower mid else halve' ge mid upper) = Some y"
  show "lower \<noteq> upper"
    using step ih [of ge lower "(upper + lower) div 2" y] ih [of ge "(upper + lower) div 2" upper y]
    by (auto simp: Let_def split: if_splits)
qed

lemma halve_equal_diverges: "halve ge n n = None"
  using halve_some_neq [of ge n n] by (cases "halve ge n n") auto

section \<open>Properties\<close>

lemma cut_at_append: "c \<notin> set u \<Longrightarrow> cut_at c (u @ c # v) = Some (u, v)"
  by (simp add: cut_at_def find_char_notin)

lemma strtoul16_hex:
  fixes w :: "64 word"
  shows "strtoul16 (replicate k (CHR ''0'') @ hex_str (unat w)) = w"
proof -
  have lt: "unat w < 18446744073709551616" using unsigned_less [of w] by simp
  let ?u = "replicate k (CHR ''0'') @ hex_str (unat w)"
  have zero: "is_digit 16 (CHR ''0'')" by (simp add: is_digit_def digit_val_def)
  have d: "\<forall>c \<in> set ?u. is_digit 16 c" using num_str_digits [of 16 "unat w"] zero by auto
  obtain c v where u: "?u = c # v" by (cases ?u) auto
  then have c: "is_digit 16 c" using d by simp
  have "fst (read_digits 16 0 ?u) = unat w" by (simp add: read_digits_zeros read_digits_num_str_0)
  then have v: "strtol_val 16 ?u = int (unat w)"
    unfolding strtol_val_def u read_sign_digit [OF c order_refl] Let_def prod.case if_False
    using skip_0x_digits [of ?u] d u by simp
  have "int (unat w) \<le> 18446744073709551615" using lt by linarith
  then show ?thesis unfolding strtoul16_def v by simp
qed

text \<open>
  A line of \<open>nm\<close> for a defined symbol becomes one symbol with its 64-bit address, its type
  and its name, split at the last separator; the lines of undefined symbols are ignored.
\<close>

lemma nm_symbols:
  fixes w :: "64 word"
  assumes "CHR 0x0A \<notin> set c" "t \<noteq> CHR '' ''"
  shows "process_nm_line (replicate k (CHR ''0'') @ hex_str (unat w) @ CHR '' '' # t # CHR '' '' # c @ [CHR 0x0A]) data
      = Inr (data @ [\<lparr>sym_type = t, sym_address = w,
           sym_obj = fst (copy_path (Some c) 56 56), sym_objPath = snd (copy_path (Some c) 56 56)\<rparr>])
    \<and> process_nm_line (CHR '' '' # rest) data = Inr data"
proof -
  let ?h = "replicate k (CHR ''0'') @ hex_str (unat w)"
  have "is_digit 16 (CHR ''0'')" "\<not> is_digit 16 (CHR '' '')" by (simp_all add: is_digit_def digit_val_def)
  moreover have "\<forall>c \<in> set (hex_str (unat w)). is_digit 16 c" by (rule num_str_digits) simp_all
  ultimately have ns: "CHR '' '' \<notin> set ?h" by auto
  obtain x xs where h: "?h = x # xs" by (cases ?h) auto
  let ?l = "?h @ CHR '' '' # t # CHR '' '' # c @ [CHR 0x0A]"
  have hx: "\<not> (?l \<noteq> [] \<and> hd ?l = CHR '' '')" using ns h by auto
  have 1: "cut_at (CHR '' '') ?l = Some (?h, t # CHR '' '' # c @ [CHR 0x0A])"
    by (rule cut_at_append [OF ns])
  have 2: "cut_at (CHR '' '') (t # CHR '' '' # c @ [CHR 0x0A]) = Some ([t], c @ [CHR 0x0A])"
    using cut_at_append [of "CHR '' ''" "[t]"] assms(2) by simp
  have 3: "cut_at (CHR 0x0A) (c @ [CHR 0x0A]) = Some (c, [])"
    by (rule cut_at_append [OF assms(1)])
  have "process_nm_line ?l data = Inr (data @ [\<lparr>sym_type = t, sym_address = w,
           sym_obj = fst (copy_path (Some c) 56 56), sym_objPath = snd (copy_path (Some c) 56 56)\<rparr>])"
    unfolding process_nm_line_def if_not_P [OF hx] 1 2 option.case prod.case 3 Let_def strtoul16_hex
    by (simp split: prod.split)
  then show ?thesis by (simp add: process_nm_line_def)
qed

text \<open>
  The path of the executable is cut to 1000 characters, so the command line of \<open>nm\<close>
  always fits its buffer, whatever the link says.
\<close>

lemma nm_command_fits:
  assumes "\<And>path. readlink = Some path \<Longrightarrow> length path < 65536"
  shows "\<exists>exe cmd. getExecutableName readlink = Inr exe \<and> length exe = 1000 \<and> terminated exe
    \<and> nm_command exe = Inr cmd \<and> length cmd < 1024"
proof -
  have "\<exists>exe. getExecutableName readlink = Inr exe \<and> length exe = 1000 \<and> terminated exe"
  proof (cases readlink)
    case None
    then show ?thesis by (simp add: getExecutableName_def terminated_def)
  next
    case (Some path)
    with assms copy_ptr_secure(1,2) [of 1000 "path @ replicate (65536 - length path) NUL"] show ?thesis
      by (simp add: getExecutableName_def)
  qed
  then obtain exe where exe: "getExecutableName readlink = Inr exe" "length exe = 1000" "terminated exe" by blast
  with length_cstr_less [of exe] have "length (cstr exe) < 1000" by simp
  with exe show ?thesis by (simp add: nm_command_def)
qed

lemma nm_command_fits_witness:
  "\<exists>exe cmd. getExecutableName (Some ''/usr/bin/prog'') = Inr exe \<and> length exe = 1000 \<and> terminated exe
    \<and> nm_command exe = Inr cmd \<and> length cmd < 1024"
  by (rule nm_command_fits) simp

text \<open>
  The position of an address among the sorted addresses of the symbols: the number of symbols
  below it.
\<close>

lemma halve_cut:
  assumes "sorted as" "2 \<le> length as"
  shows "\<exists>l. halve (\<lambda>i. a \<le> as ! i) 0 (length as - 1) = Some (l, Suc l)
    \<and> l = min (length (takeWhile (\<lambda>x. x < a) as) - 1) (length as - 2)"
proof -
  let ?k = "length (takeWhile (\<lambda>x. x < a) as)"
  have below: "as ! i < a" if "i < ?k" for i
    using that nth_mem [of i "takeWhile (\<lambda>x. x < a) as"] by (auto simp: takeWhile_nth dest: set_takeWhileD)
  have above: "a \<le> as ! i" if "?k \<le> i" "i < length as" for i
  proof -
    have "a \<le> as ! ?k" using nth_length_takeWhile [of "\<lambda>x. x < a" as] that by (simp add: not_less)
    also have "as ! ?k \<le> as ! i" using that by (intro sorted_nth_mono assms(1)) simp_all
    finally show ?thesis .
  qed
  have "0 < length as - 1" using assms(2) by simp
  from halve_returns [OF this, of "\<lambda>i. a \<le> as ! i"] obtain l where l:
    "halve (\<lambda>i. a \<le> as ! i) 0 (length as - 1) = Some (l, Suc l)" "l < length as - 1"
    "l = 0 \<or> \<not> a \<le> as ! l" "Suc l = length as - 1 \<or> a \<le> as ! Suc l" by blast
  have "l = 0 \<or> l < ?k" using l(2,3) above [of l] by (cases "l < ?k") auto
  moreover have "Suc l = length as - 1 \<or> ?k \<le> Suc l" using l(4) below [of "Suc l"] by (cases "?k \<le> Suc l") auto
  ultimately have "l = min (?k - 1) (length as - 2)" using l(2) by (auto simp: min_def)
  with l(1) show ?thesis by blast
qed

text \<open>
  The row of a sorted table that the search takes: the last symbol strictly below the address as long
  as a symbol at or above the address follows it; the first one when no symbol is below; and the last
  but one, not the last, for an address above the whole table.
\<close>

lemma symbol_row:
  assumes "sorted as" "2 \<le> length as"
  shows "min (length (takeWhile (\<lambda>x. x < a) as) - 1) (length as - 2)
    = (if a \<le> hd as then 0 else if last as < a then length as - 2 else length (takeWhile (\<lambda>x. x < a) as) - 1)"
proof -
  have lh: "hd as \<in> set as" "last as \<in> set as" using assms(2) by (auto intro: hd_in_set last_in_set)
  consider "a \<le> hd as" | "hd as < a" "last as < a" | "hd as < a" "a \<le> last as" by fastforce
  then show ?thesis
  proof cases
    case 1
    then have "takeWhile (\<lambda>x. x < a) as = []" using assms(2) by (cases as) auto
    with 1 show ?thesis by simp
  next
    case 2
    have "x \<le> last as" if "x \<in> set as" for x
    proof -
      from that obtain i where i: "i < length as" "x = as ! i" by (auto simp: in_set_conv_nth)
      have "as ! i \<le> as ! (length as - 1)" by (rule sorted_nth_mono [OF assms(1)]) (use i in auto)
      moreover have "last as = as ! (length as - 1)" using assms(2) by (intro last_conv_nth) auto
      ultimately show ?thesis using i by simp
    qed
    with 2 have "\<forall>x \<in> set as. x < a" by fastforce
    then have e: "takeWhile (\<lambda>x. x < a) as = as" by (simp add: takeWhile_eq_all_conv)
    show ?thesis unfolding e using 2 by auto
  next
    case 3
    have "length (takeWhile (\<lambda>x. x < a) as) < length as"
      using 3(2) lh(2) length_takeWhile_le [of "\<lambda>x. x < a" as] takeWhile_eq_all_conv [of "\<lambda>x. x < a" as]
        takeWhile_eq_take [of "\<lambda>x. x < a" as]
      by (metis le_neq_implies_less linorder_not_le order_refl take_all)
    with 3 show ?thesis by auto
  qed
qed

lemma symbol_lookup_row:
  assumes "sorted (map sym_address (sc_data cache))" "sc_loaded cache"
  shows "getDataFromGlobalSymbols load exe info (cache, d) =
    (let syms = sc_data cache
     in if length syms = 0 then Inr (info, cache, d)
        else if length syms = 1 then Inl Diverges
        else let l = min (length (takeWhile (\<lambda>x. x < si_address info) (map sym_address syms)) - 1) (length syms - 2)
             in Inr (info\<lparr>si_object := copy_array (sym_obj (syms ! l)) 56,
                          si_objectPath := copy_array (sym_objPath (syms ! l)) 48\<rparr>, cache, d))"
proof -
  obtain syms where syms: "sc_data cache = syms" by simp
  consider "syms = []" | s where "syms = [s]" | "2 \<le> length syms"
    by (cases syms rule: remdups_adj.cases) auto
  then show ?thesis
  proof cases
    case 3
    let ?as = "map sym_address syms"
    have 2: "2 \<le> length ?as" using 3 by simp
    have "sorted ?as" using assms(1) syms by simp
    from halve_cut [OF this 2, of "si_address info"] obtain l where
      l: "halve (\<lambda>i. si_address info \<le> ?as ! i) 0 (length syms - 1) = Some (l, Suc l)"
        "l = min (length (takeWhile (\<lambda>x. x < si_address info) ?as) - 1) (length syms - 2)"
      by auto
    have "halve (\<lambda>i. si_address info \<le> sym_address (syms ! i)) 0 (length syms - 1)
        = halve (\<lambda>i. si_address info \<le> ?as ! i) 0 (length syms - 1)"
      by (rule halve_cong) (use 3 in auto)
    with l 3 syms assms(2) show ?thesis
      by (auto simp: getDataFromGlobalSymbols_def load_symbols_def Let_def)
  qed (use syms assms(2) in \<open>simp_all add: getDataFromGlobalSymbols_def load_symbols_def halve_equal_diverges\<close>)
qed

text \<open>
  Property C20: the symbol of an address in a sorted table of at least two symbols. The search returns.
  Between the first and the last symbol it finds the last symbol strictly below the address; an address
  that no symbol is below gets the first symbol, and an address above the last symbol gets the last but
  one, so the last symbol of the table is never the answer. With exactly one symbol the search never
  returns; without symbols the frame is left as it is.
\<close>

theorem symbol_lookup:
  assumes "sorted (map sym_address (sc_data cache))" "sc_loaded cache"
  shows "getDataFromGlobalSymbols load exe info (cache, d) =
    (let syms = sc_data cache; a = si_address info
     in if length syms = 0 then Inr (info, cache, d)
        else if length syms = 1 then Inl Diverges
        else let row = (if a \<le> sym_address (hd syms) then 0
                        else if sym_address (last syms) < a then length syms - 2
                        else length (takeWhile (\<lambda>s. sym_address s < a) syms) - 1)
             in Inr (info\<lparr>si_object := copy_array (sym_obj (syms ! row)) 56,
                          si_objectPath := copy_array (sym_objPath (syms ! row)) 48\<rparr>, cache, d))"
proof (cases "2 \<le> length (sc_data cache)")
  case True
  then have "sc_data cache \<noteq> []" by auto
  with True symbol_row [OF assms(1), of "si_address info"] symbol_lookup_row [OF assms, of load exe info d]
  show ?thesis by (simp add: Let_def takeWhile_map o_def hd_map last_map)
next
  case False
  then have "length (sc_data cache) = 0 \<or> length (sc_data cache) = 1" by linarith
  with symbol_lookup_row [OF assms, of load exe info d] show ?thesis by (auto simp: Let_def)
qed

theorem symbol_lookup_witness:
  "let S = (\<lambda>a x. \<lparr>sym_type = CHR ''T'', sym_address = a, sym_obj = [x], sym_objPath = []\<rparr>);
       one = \<lparr>sc_loaded = True, sc_data = [S 16 (CHR ''f'')]\<rparr>;
       three = \<lparr>sc_loaded = True, sc_data = [S 16 (CHR ''f''), S 32 (CHR ''g''), S 48 (CHR ''h'')]\<rparr>;
       info = (\<lambda>a. stack_info_clear\<lparr>si_address := a\<rparr>)
   in getDataFromGlobalSymbols (\<lambda>_. Inl Diverges) [] (info 17) (one, \<lambda>_. SIG_DFL) = Inl Diverges
    \<and> getDataFromGlobalSymbols (\<lambda>_. Inl Diverges) [] (info 17) (three, \<lambda>_. SIG_DFL)
      = Inr ((info 17)\<lparr>si_object := copy_array ''f'' 56, si_objectPath := copy_array [] 48\<rparr>, three, \<lambda>_. SIG_DFL)
    \<and> getDataFromGlobalSymbols (\<lambda>_. Inl Diverges) [] (info 49) (three, \<lambda>_. SIG_DFL)
      = Inr ((info 49)\<lparr>si_object := copy_array ''g'' 56, si_objectPath := copy_array [] 48\<rparr>, three, \<lambda>_. SIG_DFL)"
proof -
  define S where "S = (\<lambda>a x. \<lparr>sym_type = CHR ''T'', sym_address = a, sym_obj = [x], sym_objPath = []\<rparr>)"
  let ?one = "\<lparr>sc_loaded = True, sc_data = [S 16 (CHR ''f'')]\<rparr>"
  let ?three = "\<lparr>sc_loaded = True, sc_data = [S 16 (CHR ''f''), S 32 (CHR ''g''), S 48 (CHR ''h'')]\<rparr>"
  note lookup = symbol_lookup [where load = "\<lambda>_. Inl Diverges" and exe = "[]" and d = "\<lambda>_. SIG_DFL"]
  note facts = lookup [of ?one "stack_info_clear\<lparr>si_address := 17\<rparr>"]
    lookup [of ?three "stack_info_clear\<lparr>si_address := 17\<rparr>"] lookup [of ?three "stack_info_clear\<lparr>si_address := 49\<rparr>"]
  show ?thesis unfolding Let_def S_def [symmetric] using facts by (simp add: S_def Let_def)
qed

text \<open>The cache: the symbols are read once, until they are cleared.\<close>

lemma getSymbols_loaded:
  assumes "getSymbols load st = Inr (data, st')"
  shows "sc_loaded (fst st') \<and> sc_data (fst st') = data"
proof -
  obtain cache d where st: "st = (cache, d)" by (cases st)
  from assms have *: "load_symbols load (cache, d) = Inr st'" "data = sc_data (fst st')"
    unfolding getSymbols_def st bindR_Inr_iff by auto
  show ?thesis
  proof (cases "sc_loaded cache")
    case True
    with * show ?thesis by (auto simp: load_symbols_def dest: sym)
  next
    case False
    with * show ?thesis by (cases "load d") (auto simp: load_symbols_def)
  qed
qed

lemma getSymbols_loads_once:
  assumes "getSymbols load st = Inr (data, st')"
  shows "getSymbols load' st' = Inr (data, st')"
proof (cases st')
  case (Pair cache d)
  with getSymbols_loaded [OF assms] have "sc_loaded cache" "sc_data cache = data" by simp_all
  with Pair show ?thesis by (simp add: getSymbols_def load_symbols_def)
qed

lemma getSymbols_reloads:
  assumes "getSymbols load st = Inr (data, st')" "load' d = Inr (data', d')"
  shows "getSymbols load' (clearSymbols (fst st'), d) = Inr (data', \<lparr>sc_loaded = True, sc_data = data'\<rparr>, d')"
  using getSymbols_loaded [OF assms(1)] assms(2)
  by (simp add: getSymbols_def load_symbols_def clearSymbols_def)

text \<open>
  \<open>findfirst\<close> on a sorted vector returns the position of the first entry that is not smaller, and the last
  position when there is none. Its loop is only entered with distinct bounds.
\<close>

lemma findfirst_spec:
  assumes "sorted X" "X \<noteq> []"
  shows "findfirst X Y = Inr (min (length (takeWhile (\<lambda>x. x < Y) X)) (length X - 1))"
proof -
  let ?k = "length (takeWhile (\<lambda>x. x < Y) X)"
  have hd: "X ! 0 < Y \<longleftrightarrow> ?k \<noteq> 0" using assms(2) by (cases X) auto
  show ?thesis
  proof (cases "Y \<le> X ! 0 \<or> X ! (length X - 1) < Y")
    case True
    moreover have "?k = length X" if "X ! (length X - 1) < Y"
    proof -
      have "x < Y" if x: "x \<in> set X" for x
      proof -
        from x obtain i where i: "i < length X" "x = X ! i" by (auto simp: in_set_conv_nth)
        then have "x \<le> X ! (length X - 1)" using sorted_nth_mono [OF assms(1), of i "length X - 1"] by simp
        with \<open>X ! (length X - 1) < Y\<close> show ?thesis by simp
      qed
      then show ?thesis by (simp add: takeWhile_eq_all_conv [THEN iffD2])
    qed
    ultimately show ?thesis using hd assms(2) by (auto simp: findfirst_def Let_def not_less)
  next
    case False
    have n: "2 \<le> length X" using False assms(2) by (cases X rule: remdups_adj.cases) auto
    have k: "?k < length X"
    proof (rule ccontr)
      assume "\<not> ?k < length X"
      then have "takeWhile (\<lambda>x. x < Y) X = X" using length_takeWhile_le [of "\<lambda>x. x < Y" X]
        by (metis le_less_trans not_le_imp_less takeWhile_eq_take take_all)
      with assms(2) have "X ! (length X - 1) < Y"
        by (metis last_conv_nth last_in_set set_takeWhileD)
      with False show False by simp
    qed
    from halve_cut [OF assms(1) n, of Y] obtain l where
      "halve (\<lambda>i. Y \<le> X ! i) 0 (length X - 1) = Some (l, Suc l)" "l = min (?k - 1) (length X - 2)" by blast
    with False hd k n assms(2) show ?thesis by (auto simp: findfirst_def Let_def)
  qed
qed

end
