(* ===== verification/Resolve.thy ===== *)
theory Resolve
  imports Symbols Function_Names Multi_Stack "HOL-Library.Multiset"
begin

text \<open>
  From addresses to frames, on Linux: the object and the function of an address (\<open>getStackInfo\<close>), the
  file and the line from \<open>addr2line\<close> (\<open>getFileAndLineObject\<close>, \<open>getFileAndLine\<close>), the frames of many call
  stacks (\<open>generateStacks\<close>) and the tree that counts them (\<open>generateMultiStack\<close>,
  \<open>getAllCallStacks\<close>). \<open>dladdr\<close>, the demangler and the commands are parameters, collected in the record
  \<open>platform\<close>; the state is the cache of symbols and the signal dispositions.
\<close>

section \<open>The platform\<close>

record dl_info =
  dli_fname :: cstring
  dli_fbase :: "64 word"
  dli_sname :: "cstring option"

text \<open>
  \<open>pf_demangle\<close> is the name when the status of \<open>__cxa_demangle\<close> is 0; \<open>pf_exe\<close> is the
  static array behind \<open>getExecutable2\<close>; \<open>pf_addr2line\<close> is the macro \<open>ADDR2LINE\<close> of the build.
\<close>

record platform =
  pf_popen :: "cstring \<Rightarrow> (cstring \<times> int \<times> bool) option"
  pf_addr2line :: cstring
  pf_dladdr :: "64 word \<Rightarrow> dl_info option"
  pf_demangle :: "cstring \<Rightarrow> cstring option"
  pf_exe :: cstring

type_synonym resolver_state = "symbols_cache \<times> (int \<Rightarrow> disposition)"

section \<open>addr2line\<close>

text \<open>\<open>N += sprintf( \&cmd[N], ... )\<close> into the 4096 characters of \<open>cmd\<close>.\<close>

definition sprintf_cmd :: "cstring \<Rightarrow> cstring \<Rightarrow> cstring result" where
  "sprintf_cmd cmd text_added =
     (if length cmd + length text_added < 4096 then Inr (cmd @ text_added) else Inl OutOfBounds)"

fun add_addresses :: "cstring \<Rightarrow> stack_info list \<Rightarrow> cstring result" where
  "add_addresses cmd [] = Inr cmd"
| "add_addresses cmd (s # ss) =
     (if length cmd < 4096 - 32
      then bindR (sprintf_cmd cmd ('' '' @ hex_str (unat (si_address s)) @ '' '' @ hex_str (unat (si_address2 s))))
             (\<lambda>cmd'. add_addresses cmd' ss)
      else Inr cmd)"

definition addr2line_command :: "cstring \<Rightarrow> stack_info list \<Rightarrow> cstring result" where
  "addr2line_command ADDR2LINE info =
     (let s = hd info
      in bindR (sprintf_cmd []
             (if cstr (si_objectPath s) = []
              then ADDR2LINE @ '' -C -e '' @ cstr (si_object s) @ '' -f''
              else ADDR2LINE @ '' -C -e '' @ cstr (si_objectPath s) @ ''/'' @ cstr (si_object s) @ '' -f''))
           (\<lambda>cmd. bindR (add_addresses cmd info) (\<lambda>cmd. sprintf_cmd cmd '' 2> /dev/null'')))"

definition unknown_row :: "cstring \<Rightarrow> bool" where
  "unknown_row row \<longleftrightarrow> row ! 0 = CHR ''?'' \<and> row ! 1 = CHR ''?''"

text \<open>\<open>function.empty()\<close> of a \<open>std::array\<close> tells whether its size is zero.\<close>

definition array_empty :: "cstring \<Rightarrow> bool" where
  "array_empty a \<longleftrightarrow> length a = 0"

text \<open>
  The second row of a pair. The search for the colon stops only at a colon, so a row without one is
  left behind; the line number starts behind it.
\<close>

definition file_line :: "cstring \<Rightarrow> stack_info \<Rightarrow> stack_info result" where
  "file_line buf info =
     (if buf ! 0 \<noteq> CHR ''?'' \<and> buf ! 0 \<noteq> NUL
      then case find_char (CHR '':'') buf of
             None \<Rightarrow> Inl OutOfBounds
           | Some j \<Rightarrow>
               if Suc j = length buf then Inl OutOfBounds
               else let (name, path) = copy_path (Some (buf[j := NUL])) 64 64
                    in Inr (info\<lparr>si_filename := name, si_filenamePath := path,
                                 si_line := word_of_int (atoi (drop (Suc j) buf))\<rparr>)
      else Inr info)"

definition apply_rows :: "cstring list \<Rightarrow> stack_info \<Rightarrow> stack_info result" where
  "apply_rows rows info =
     (let (tmp1, tmp2) = (if unknown_row (rows ! 0) then (rows ! 2, rows ! 3) else (rows ! 0, rows ! 1))
      in if unknown_row tmp1 then Inr info
         else bindR
           (if array_empty (si_function info)
            then bindR (cleanupFunctionName tmp1) (\<lambda>t. Inr (info\<lparr>si_function := copy_ptr (Some t) 256\<rparr>))
            else Inr info)
           (file_line tmp2))"

text \<open>The pointers of the batch are the indices of the frames in the array.\<close>

fun add_results :: "cstring list \<Rightarrow> nat list \<Rightarrow> stack_info list \<Rightarrow> stack_info list result" where
  "add_results outp [] info = Inr info"
| "add_results outp (p # ps) info =
     bindR (apply_rows (take 4 outp) (info ! p)) (\<lambda>s. add_results (drop 4 outp) ps (info[p := s]))"

definition getFileAndLineObject ::
    "platform \<Rightarrow> nat static_vector \<Rightarrow> stack_info list \<Rightarrow> (int \<Rightarrow> disposition)
      \<Rightarrow> (stack_info list \<times> (int \<Rightarrow> disposition)) result" where
  "getFileAndLineObject pf batch info d =
     (if sv_empty batch then Inr (info, d)
      else let ps = sv_elems batch
           in bindR (addr2line_command (pf_addr2line pf) (map ((!) info) ps)) (\<lambda>cmd.
              bindR (exec2_into (pf_popen pf) cmd (sv_new (4 * 256) (replicate 512 NUL)) d) (\<lambda>(outp, d').
                if sv_size outp \<noteq> 4 * sv_size batch then Inr (info, d')
                else bindR (add_results (sv_elems outp) ps info) (\<lambda>info'. Inr (info', d')))))"

section \<open>Grouping by object\<close>

definition info_hash :: "stack_info \<Rightarrow> 64 word" where
  "info_hash s = objHash (si_object s) (si_objectPath s)"

text \<open>The loop that collects the objects of the next frames, until 256 different ones are found.\<close>

function collect_objects ::
    "stack_info list \<Rightarrow> nat \<Rightarrow> nat \<Rightarrow> 64 word static_vector \<Rightarrow> nat \<times> 64 word static_vector" where
  "collect_objects info N N2 objectHash =
     (if N2 < N \<and> sv_size objectHash < sv_capacity objectHash
      then collect_objects info N (Suc N2) (sv_insert (info_hash (info ! N2)) objectHash)
      else (N2, objectHash))"
  by pat_completeness auto
termination
  by (relation "measure (\<lambda>(info, N, N2, h). N - N2)") auto

declare collect_objects.simps [simp del]

text \<open>The frames \<open>i\<close> to \<open>N2\<close> of one object; a full batch is processed at once.\<close>

function object_frames ::
    "platform \<Rightarrow> 64 word \<Rightarrow> nat \<Rightarrow> nat \<Rightarrow> nat static_vector \<Rightarrow> stack_info list \<Rightarrow> (int \<Rightarrow> disposition)
      \<Rightarrow> (stack_info list \<times> (int \<Rightarrow> disposition)) result" where
  "object_frames pf hash N2 i batch info d =
     (if i < N2
      then let batch1 = (if info_hash (info ! i) = hash then sv_push_back i batch else batch)
           in case (if sv_capacity batch1 = sv_size batch1
                    then bindR (getFileAndLineObject pf batch1 info d) (\<lambda>(info', d'). Inr (sv_clear batch1, info', d'))
                    else Inr (batch1, info, d)) of
                Inl e \<Rightarrow> Inl e
              | Inr (batch2, info', d') \<Rightarrow> object_frames pf hash N2 (Suc i) batch2 info' d'
      else getFileAndLineObject pf batch info d)"
  by pat_completeness auto
termination
  by (relation "measure (\<lambda>(pf, h, N2, i, b, info, d). N2 - i)") auto

declare object_frames.simps [simp del]

fun each_object ::
    "platform \<Rightarrow> 64 word list \<Rightarrow> nat \<Rightarrow> nat \<Rightarrow> stack_info list \<Rightarrow> (int \<Rightarrow> disposition)
      \<Rightarrow> (stack_info list \<times> (int \<Rightarrow> disposition)) result" where
  "each_object pf [] i0 N2 info d = Inr (info, d)"
| "each_object pf (hash # hs) i0 N2 info d =
     bindR (object_frames pf hash N2 i0 (sv_new 256 0) info d)
       (\<lambda>(info', d'). each_object pf hs i0 N2 info' d')"

lemma collect_objects_le: "N2 \<le> fst (collect_objects info N N2 h)"
  by (induction info N N2 h rule: collect_objects.induct) (subst collect_objects.simps, auto)

lemma collect_objects_progress:
  assumes "i0 < N"
  shows "i0 < fst (collect_objects info N i0 (sv_new 256 0))"
proof -
  have "collect_objects info N i0 (sv_new 256 0)
      = collect_objects info N (Suc i0) (sv_insert (info_hash (info ! i0)) (sv_new 256 0))"
    using assms by (subst collect_objects.simps) (simp add: sv_size_def sv_capacity_def sv_new_def)
  with collect_objects_le [of "Suc i0" info N "sv_insert (info_hash (info ! i0)) (sv_new 256 0)"] show ?thesis by simp
qed

function getFileAndLine ::
    "platform \<Rightarrow> nat \<Rightarrow> nat \<Rightarrow> stack_info list \<Rightarrow> (int \<Rightarrow> disposition)
      \<Rightarrow> (stack_info list \<times> (int \<Rightarrow> disposition)) result" where
  "getFileAndLine pf N i0 info d =
     (if i0 < N
      then case each_object pf (sv_elems (snd (collect_objects info N i0 (sv_new 256 0)))) i0
                  (fst (collect_objects info N i0 (sv_new 256 0))) info d of
             Inl e \<Rightarrow> Inl e
           | Inr (info', d') \<Rightarrow> getFileAndLine pf N (fst (collect_objects info N i0 (sv_new 256 0))) info' d'
      else Inr (info, d))"
  by pat_completeness auto
termination
proof (relation "measure (\<lambda>(pf, N, i0, info, d). N - i0)")
  fix pf :: platform and N i0 :: nat and info info' :: "stack_info list" and d d' :: "int \<Rightarrow> disposition" and y
  assume "i0 < N"
  with collect_objects_progress [OF this, of info]
  show "((pf, N, fst (collect_objects info N i0 (sv_new 256 0)), info', d'), pf, N, i0, info, d)
      \<in> measure (\<lambda>(pf, N, i0, info, d). N - i0)" by auto
qed simp

declare getFileAndLine.simps [simp del]

section \<open>One address\<close>

text \<open>The name of the function: demangled when that succeeds, the plain name otherwise.\<close>

definition set_demangled :: "platform \<Rightarrow> cstring option \<Rightarrow> stack_info \<Rightarrow> stack_info result" where
  "set_demangled pf sname info =
     (case Option.bind sname (pf_demangle pf) of
        Some demangled \<Rightarrow>
          bindR (cleanupFunctionName (demangled @ [NUL]))
            (\<lambda>name. Inr (info\<lparr>si_function := copy_ptr (Some name) 256\<rparr>))
      | None \<Rightarrow>
          if sname \<noteq> None then Inr (info\<lparr>si_function := copy_ptr sname 256\<rparr>) else Inr info)"

definition set_plain :: "cstring option \<Rightarrow> stack_info \<Rightarrow> stack_info result" where
  "set_plain sname info =
     (if sname \<noteq> None \<and> si_function info ! 0 = NUL
      then bindR (cleanupFunctionName (copy_ptr sname 4096))
             (\<lambda>tmp. Inr (info\<lparr>si_function := copy_array tmp 256\<rparr>))
      else Inr info)"

definition getStackInfo :: "platform \<Rightarrow> stack_info \<Rightarrow> resolver_state \<Rightarrow> (stack_info \<times> resolver_state) result" where
  "getStackInfo pf info st =
     (case pf_dladdr pf (si_address info) of
        None \<Rightarrow> getDataFromGlobalSymbols (getSymbolData (pf_popen pf) (pf_exe pf)) (pf_exe pf) info st
      | Some dlinfo \<Rightarrow>
          bindR (subtractAddress (si_address info) (dli_fbase dlinfo)) (\<lambda>address2.
          let (obj, objPath) = copy_path (Some (dli_fname dlinfo)) 56 48;
              info = info\<lparr>si_address2 := address2, si_object := obj, si_objectPath := objPath\<rparr>
          in bindR (set_demangled pf (dli_sname dlinfo) info) (\<lambda>info.
             bindR (set_plain (dli_sname dlinfo) info) (\<lambda>info. Inr (info, st)))))"

fun each_address :: "platform \<Rightarrow> 64 word list \<Rightarrow> resolver_state \<Rightarrow> (stack_info list \<times> resolver_state) result" where
  "each_address pf [] st = Inr ([], st)"
| "each_address pf (a # as) st =
     bindR (getStackInfo pf (stack_info_clear\<lparr>si_address := a\<rparr>) st) (\<lambda>(info, st').
     bindR (each_address pf as st') (\<lambda>(infos, st''). Inr (info # infos, st'')))"

definition SIGINT :: int where "SIGINT = 2"

text \<open>The handler of \<open>SIGINT\<close> is replaced while the frames are resolved.\<close>

definition getStackInfo2 :: "platform \<Rightarrow> 64 word list \<Rightarrow> resolver_state \<Rightarrow> (stack_info list \<times> resolver_state) result" where
  "getStackInfo2 pf address = (\<lambda>(cache, d).
     let prev_handler = d SIGINT in
     bindR (each_address pf address (cache, os_signal SIGINT StackInfoHandler d)) (\<lambda>(info, cache', d').
     bindR (getFileAndLine pf (length address) 0 info d') (\<lambda>(info', d'').
       Inr (info', cache', os_signal SIGINT prev_handler d''))))"

definition getStackInfo_one :: "platform \<Rightarrow> 64 word \<Rightarrow> resolver_state \<Rightarrow> (stack_info \<times> resolver_state) result" where
  "getStackInfo_one pf address st =
     bindR (getStackInfo2 pf [address] st) (\<lambda>(info, st'). Inr (info ! 0, st'))"

definition getStackInfo_many ::
    "platform \<Rightarrow> 64 word list \<Rightarrow> resolver_state \<Rightarrow> (stack_info list \<times> resolver_state) result" where
  "getStackInfo_many pf address st = getStackInfo2 pf address st"

section \<open>Call stacks\<close>

text \<open>
  \<open>backtrace_thread tid buffer\<close> is the count and the buffer behind the call; \<open>resize_vec\<close> is
  \<open>std::vector::resize\<close>.
\<close>

type_synonym 'tid backtracer = "'tid \<Rightarrow> 64 word list \<Rightarrow> nat \<times> 64 word list"

definition resize_vec :: "'a \<Rightarrow> nat \<Rightarrow> 'a list \<Rightarrow> 'a list" where
  "resize_vec x n xs = take n xs @ replicate (n - length xs) x"

definition backtrace :: "'tid backtracer \<Rightarrow> 'tid \<Rightarrow> 64 word list" where
  "backtrace backtrace_thread tid =
     (let (count, trace) = backtrace_thread tid (replicate 1000 0) in resize_vec 0 count trace)"

definition backtraceAll :: "'tid backtracer \<Rightarrow> 'tid list \<Rightarrow> 64 word list list" where
  "backtraceAll backtrace_thread threads =
     map (\<lambda>tid. let (count, trace) = backtrace_thread tid (resize_vec 0 1000 []) in resize_vec 0 count trace) threads"

definition getCallStack ::
    "platform \<Rightarrow> 'tid backtracer \<Rightarrow> 'tid \<Rightarrow> resolver_state \<Rightarrow> (stack_info list \<times> resolver_state) result" where
  "getCallStack pf backtrace_thread tid st =
     (let (count, trace) = backtrace_thread tid (replicate 1000 0)
      in getStackInfo2 pf (take count trace) st)"

text \<open>\<open>find\<close> is -1 when the address is not there.\<close>

fun find_from :: "nat \<Rightarrow> 64 word list \<Rightarrow> 64 word \<Rightarrow> int" where
  "find_from i [] x = -1"
| "find_from i (y # ys) x = (if y = x then int i else find_from (Suc i) ys x)"

definition collect_addresses :: "64 word list list \<Rightarrow> 64 word list" where
  "collect_addresses trace =
     fold (\<lambda>tmp. fold (\<lambda>ptr addresses. if find_from 0 addresses ptr = -1 then addresses @ [ptr] else addresses) tmp)
       trace []"

definition generateStacks ::
    "platform \<Rightarrow> 64 word list list \<Rightarrow> resolver_state \<Rightarrow> (stack_info list list \<times> resolver_state) result" where
  "generateStacks pf trace st =
     (let addresses = collect_addresses trace
      in bindR (getStackInfo_many pf addresses st) (\<lambda>(stack_data, st').
           Inr (map (map (\<lambda>ptr. stack_data ! nat (find_from 0 addresses ptr))) trace, st')))"

definition generateMultiStack ::
    "platform \<Rightarrow> 64 word list list \<Rightarrow> resolver_state \<Rightarrow> (multi_stack_info \<times> resolver_state) result" where
  "generateMultiStack pf trace st =
     bindR (generateStacks pf trace st) (\<lambda>(stack, st').
       Inr (fold (\<lambda>tmp. ms_add (length tmp) tmp) stack
              (case ms_empty_tree of MSI n s cs \<Rightarrow> MSI (int (length stack)) s cs), st'))"

definition generateMultiStack_threads ::
    "platform \<Rightarrow> 'tid backtracer \<Rightarrow> 'tid list \<Rightarrow> resolver_state \<Rightarrow> (multi_stack_info \<times> resolver_state) result" where
  "generateMultiStack_threads pf backtrace_thread threads st =
     generateMultiStack pf (map (backtrace backtrace_thread) threads) st"

text \<open>\<open>threads\<close> is what \<open>registeredThreads()\<close> returns.\<close>

definition getAllCallStacks ::
    "platform \<Rightarrow> 'tid backtracer \<Rightarrow> 'tid list \<Rightarrow> resolver_state \<Rightarrow> (multi_stack_info \<times> resolver_state) result" where
  "getAllCallStacks pf backtrace_thread threads st =
     generateMultiStack_threads pf backtrace_thread threads st"

section \<open>The order in which the frames are looked up\<close>

text \<open>One batch of frames, and a sequence of batches, as the specification of the grouping loops.\<close>

definition lookup_batch ::
    "platform \<Rightarrow> nat list \<Rightarrow> stack_info list \<Rightarrow> (int \<Rightarrow> disposition)
      \<Rightarrow> (stack_info list \<times> (int \<Rightarrow> disposition)) result" where
  "lookup_batch pf ps info d =
     (if ps = [] then Inr (info, d)
      else bindR (addr2line_command (pf_addr2line pf) (map ((!) info) ps)) (\<lambda>cmd.
           bindR (exec2_into (pf_popen pf) cmd (sv_new (4 * 256) (replicate 512 NUL)) d) (\<lambda>(outp, d').
             if sv_size outp \<noteq> 4 * length ps then Inr (info, d')
             else bindR (add_results (sv_elems outp) ps info) (\<lambda>info'. Inr (info', d')))))"

fun lookup_batches ::
    "platform \<Rightarrow> nat list list \<Rightarrow> stack_info list \<Rightarrow> (int \<Rightarrow> disposition)
      \<Rightarrow> (stack_info list \<times> (int \<Rightarrow> disposition)) result" where
  "lookup_batches pf [] info d = Inr (info, d)"
| "lookup_batches pf (b # bs) info d =
     bindR (lookup_batch pf b info d) (\<lambda>(info', d'). lookup_batches pf bs info' d')"

lemma lookup_batches_append:
  "lookup_batches pf (bs @ cs) info d = bindR (lookup_batches pf bs info d) (\<lambda>(info', d'). lookup_batches pf cs info' d')"
proof (induction bs arbitrary: info d)
  case (Cons b bs)
  then show ?case by (cases "lookup_batch pf b info d") auto
qed simp

lemma getFileAndLineObject_batch:
  assumes "sv_inv v"
  shows "getFileAndLineObject pf v info d = lookup_batch pf (sv_elems v) info d"
proof -
  have "length (sv_elems v) = d_size v" using assms by simp
  then have "sv_elems v = [] \<longleftrightarrow> sv_empty v" "length (sv_elems v) = sv_size v"
    by (auto simp: sv_empty_def sv_size_def)
  then show ?thesis by (simp add: getFileAndLineObject_def lookup_batch_def Let_def)
qed

lemma file_line_keeps:
  "file_line buf s = Inr s' \<Longrightarrow> info_hash s' = info_hash s \<and> si_function s' = si_function s
    \<and> si_address s' = si_address s \<and> si_address2 s' = si_address2 s
    \<and> si_object s' = si_object s \<and> si_objectPath s' = si_objectPath s"
  by (auto simp: file_line_def Let_def info_hash_def split: if_splits option.splits prod.splits)

lemma apply_rows_keeps:
  assumes "apply_rows rows s = Inr s'"
  shows "info_hash s' = info_hash s \<and> si_address s' = si_address s \<and> si_address2 s' = si_address2 s
    \<and> si_object s' = si_object s \<and> si_objectPath s' = si_objectPath s"
  using assms
  by (auto simp: apply_rows_def bindR_Inr_iff info_hash_def dest!: file_line_keeps split: if_splits prod.splits)

text \<open>What no row of an answer changes is the same in all frames afterwards.\<close>

definition untouched :: "(stack_info \<Rightarrow> 'b) \<Rightarrow> bool" where
  "untouched f \<longleftrightarrow> (\<forall>rows s s'. apply_rows rows s = Inr s' \<longrightarrow> f s' = f s)"

lemma untouched_fields [intro, simp]: "untouched info_hash" "untouched si_address"
  using apply_rows_keeps by (auto simp: untouched_def)

lemma add_results_untouched:
  assumes "add_results outp ps info = Inr info'" "\<forall>p \<in> set ps. p < length info" "untouched f"
  shows "map f info' = map f info"
  using assms(1,2)
proof (induction ps arbitrary: outp info)
  case (Cons p ps)
  then obtain s where s: "apply_rows (take 4 outp) (info ! p) = Inr s"
    "add_results (drop 4 outp) ps (info[p := s]) = Inr info'" by (auto simp: bindR_Inr_iff)
  with Cons have "map f info' = map f (info[p := s])" by simp
  also have "\<dots> = map f info"
    using s(1) assms(3) Cons.prems(2) by (simp add: untouched_def map_update list_update_same_conv)
  finally show ?case .
qed simp

lemma lookup_batch_untouched:
  assumes "lookup_batch pf ps info d = Inr (info', d')" "\<forall>p \<in> set ps. p < length info" "untouched f"
  shows "map f info' = map f info"
proof (cases "ps = []")
  case True
  with assms(1) show ?thesis by (simp add: lookup_batch_def)
next
  case False
  with assms show ?thesis
    by (auto simp: lookup_batch_def bindR_Inr_iff dest: add_results_untouched split: if_splits)
qed

lemma lookup_batches_untouched:
  assumes "lookup_batches pf bs info d = Inr (info', d')" "\<forall>p \<in> set (concat bs). p < length info" "untouched f"
  shows "map f info' = map f info"
  using assms(1,2)
proof (induction bs arbitrary: info d)
  case (Cons b bs)
  then obtain i1 d1 where 1: "lookup_batch pf b info d = Inr (i1, d1)" "lookup_batches pf bs i1 d1 = Inr (info', d')"
    by (auto simp: bindR_Inr_iff)
  have h: "map f i1 = map f info"
    using lookup_batch_untouched [OF 1(1) _ assms(3)] Cons.prems(2) by auto
  then have "length i1 = length info" by (metis length_map)
  with Cons.IH [OF 1(2)] Cons.prems(2) h show ?case by auto
qed simp

lemmas lookup_batch_keeps = lookup_batch_untouched [OF _ _ untouched_fields(1)]
lemmas lookup_batches_keeps = lookup_batches_untouched [OF _ _ untouched_fields(1)]

text \<open>Frames of one object, in batches of at most 256.\<close>

definition batches_ok :: "64 word list \<Rightarrow> nat list list \<Rightarrow> bool" where
  "batches_ok hs bs \<longleftrightarrow>
     (\<forall>b \<in> set bs. b \<noteq> [] \<and> length b \<le> 256 \<and> (\<forall>i \<in> set b. \<forall>j \<in> set b. hs ! i = hs ! j))"

lemma batches_ok_append [simp]: "batches_ok hs (bs @ cs) \<longleftrightarrow> batches_ok hs bs \<and> batches_ok hs cs"
  by (auto simp: batches_ok_def)

lemma batches_ok_Nil [simp]: "batches_ok hs []"
  by (simp add: batches_ok_def)

lemma push_room:
  assumes "sv_inv v" "d_size v < sv_capacity v"
  shows "sv_elems (sv_push_back x v) = sv_elems v @ [x]" "d_size (sv_push_back x v) = Suc (d_size v)"
    "sv_inv (sv_push_back x v)" "sv_capacity (sv_push_back x v) = sv_capacity v"
  using assms sv.elems_push [OF assms(1), of x] sv.inv_push [OF assms(1), of x]
  by (simp_all add: sv_push_back_def sv_capacity_def)

lemma object_frames_batches:
  assumes "sv_inv v" "sv_capacity v = 256" "d_size v < 256" "N2 \<le> length hs" "\<forall>j \<in> set (sv_elems v). hs ! j = h \<and> j < length hs"
  shows "\<exists>bs. concat bs = sv_elems v @ filter (\<lambda>j. hs ! j = h) [i..<N2] \<and> batches_ok hs bs
    \<and> (\<forall>info d. map info_hash info = hs \<longrightarrow> object_frames pf h N2 i v info d = lookup_batches pf bs info d)"
  using assms
proof (induction "N2 - i" arbitrary: i v)
  case 0
  then have i: "\<not> i < N2" by simp
  let ?bs = "if sv_elems v = [] then [] else [sv_elems v]"
  have "lookup_batches pf ?bs info d = object_frames pf h N2 i v info d" for info d
    using i 0(2) by (subst object_frames.simps)
      (cases "lookup_batch pf (sv_elems v) info d", auto simp: getFileAndLineObject_batch lookup_batch_def)
  moreover have "concat ?bs = sv_elems v @ filter (\<lambda>j. hs ! j = h) [i..<N2]" using i by simp
  moreover have "batches_ok hs ?bs" using 0(2-6) by (auto simp: batches_ok_def)
  ultimately show ?case by metis
next
  case (Suc k)
  then have i: "i < N2" "k = N2 - Suc i" "i < length hs" by auto
  have upt: "[i..<N2] = i # [Suc i..<N2]" using i(1) by (rule upt_conv_Cons)
  show ?case
  proof (cases "hs ! i = h")
    case False
    have "object_frames pf h N2 i v info d = object_frames pf h N2 (Suc i) v info d" if "map info_hash info = hs" for info d
      using that i False Suc.prems(1-3) by (subst object_frames.simps) (auto simp: sv_size_def)
    moreover from Suc.hyps(1) [OF i(2) Suc.prems] obtain bs where
      "concat bs = sv_elems v @ filter (\<lambda>j. hs ! j = h) [Suc i..<N2]" "batches_ok hs bs"
      "\<forall>info d. map info_hash info = hs \<longrightarrow> object_frames pf h N2 (Suc i) v info d = lookup_batches pf bs info d"
      by blast
    ultimately show ?thesis using upt False by (intro exI [of _ bs]) simp
  next
    case True
    let ?v = "sv_push_back i v"
    note v = push_room [OF Suc.prems(1), of i, unfolded Suc.prems(2), OF Suc.prems(3)]
    have vs: "\<forall>j \<in> set (sv_elems ?v). hs ! j = h \<and> j < length hs"
      using v(1) True i Suc.prems(5) by auto
    show ?thesis
    proof (cases "d_size ?v = 256")
      case False
      then have lt: "d_size ?v < 256" using v(2) Suc.prems(3) by simp
      have "object_frames pf h N2 i v info d = object_frames pf h N2 (Suc i) ?v info d" if "map info_hash info = hs" for info d
        using that i True False v(4) by (subst object_frames.simps) (auto simp: sv_size_def)
      moreover from Suc.hyps(1) [OF i(2) v(3) v(4) lt Suc.prems(4) vs] obtain bs where
        "concat bs = sv_elems ?v @ filter (\<lambda>j. hs ! j = h) [Suc i..<N2]" "batches_ok hs bs"
        "\<forall>info d. map info_hash info = hs \<longrightarrow> object_frames pf h N2 (Suc i) ?v info d = lookup_batches pf bs info d"
        by blast
      ultimately show ?thesis using upt True v(1) by (intro exI [of _ bs]) simp
    next
      case full: True
      have clr: "sv_inv (sv_clear ?v)" "sv_capacity (sv_clear ?v) = 256" "d_size (sv_clear ?v) < 256"
        "sv_elems (sv_clear ?v) = []"
        using v(3,4) by (simp_all add: sv_clear_def sv_inv_def sv_capacity_def sv_elems_def)
      from Suc.hyps(1) [OF i(2) clr(1-3) Suc.prems(4)] clr(4) obtain bs where
        bs: "concat bs = filter (\<lambda>j. hs ! j = h) [Suc i..<N2]" "batches_ok hs bs"
        "\<forall>info d. map info_hash info = hs \<longrightarrow> object_frames pf h N2 (Suc i) (sv_clear ?v) info d = lookup_batches pf bs info d"
        by auto
      let ?bs = "sv_elems ?v # bs"
      have "object_frames pf h N2 i v info d = lookup_batches pf ?bs info d" if hs: "map info_hash info = hs" for info d
      proof (cases "lookup_batch pf (sv_elems ?v) info d")
        case (Inl e)
        then show ?thesis using hs i True full v(3,4)
          by (subst object_frames.simps) (auto simp: sv_size_def getFileAndLineObject_batch)
      next
        case (Inr r)
        obtain info' d' where r: "r = (info', d')" by (cases r)
        have 1: "lookup_batch pf (sv_elems ?v) info d = Inr (info', d')" using Inr r by simp
        have len: "length info = length hs" using hs by auto
        then have key: "info_hash (info ! i) = h" using hs i(3) True by (metis nth_map)
        have hs': "map info_hash info' = hs"
          using lookup_batch_keeps [OF 1] vs hs len by auto
        have "object_frames pf h N2 i v info d = object_frames pf h N2 (Suc i) (sv_clear ?v) info' d'"
          using key i(1) full v(4) 1
          by (subst object_frames.simps) (simp add: sv_size_def getFileAndLineObject_batch [OF v(3)])
        also have "\<dots> = lookup_batches pf bs info' d'" using bs(3) hs' by blast
        finally show ?thesis using 1 by simp
      qed
      moreover have "concat ?bs = sv_elems v @ filter (\<lambda>j. hs ! j = h) [i..<N2]"
        using bs(1) v(1) upt True by simp
      moreover have "length (sv_elems ?v) = 256" using full length_sv_elems [OF v(3)] by simp
      moreover have "batches_ok hs [sv_elems ?v]"
        unfolding batches_ok_def using vs v(1) calculation(3) by simp
      then have "batches_ok hs ?bs" using bs(2) batches_ok_append [of hs "[sv_elems ?v]" bs] by simp
      ultimately show ?thesis by (intro exI [of _ ?bs]) simp
    qed
  qed
qed

lemma each_object_batches:
  assumes "N2 \<le> length hs"
  shows "\<exists>bs. concat bs = concat (map (\<lambda>h. filter (\<lambda>j. hs ! j = h) [i0..<N2]) os) \<and> batches_ok hs bs
    \<and> (\<forall>info d. map info_hash info = hs \<longrightarrow> each_object pf os i0 N2 info d = lookup_batches pf bs info d)"
proof (induction os)
  case Nil
  show ?case by (intro exI [of _ "[]"]) simp
next
  case (Cons h os)
  then obtain cs where cs: "concat cs = concat (map (\<lambda>h. filter (\<lambda>j. hs ! j = h) [i0..<N2]) os)" "batches_ok hs cs"
    "\<And>info d. map info_hash info = hs \<Longrightarrow> each_object pf os i0 N2 info d = lookup_batches pf cs info d" by blast
  have "sv_inv (sv_new 256 0 :: nat static_vector)" "sv_capacity (sv_new 256 0 :: nat static_vector) = 256"
    "d_size (sv_new 256 0 :: nat static_vector) < 256" "sv_elems (sv_new 256 0 :: nat static_vector) = []"
    by simp_all (simp add: sv_new_def)
  from object_frames_batches [OF this(1-3) assms, of h i0 pf] this(4) obtain bs where
    bs: "concat bs = filter (\<lambda>j. hs ! j = h) [i0..<N2]" "batches_ok hs bs"
    "\<And>info d. map info_hash info = hs \<Longrightarrow> object_frames pf h N2 i0 (sv_new 256 0) info d = lookup_batches pf bs info d"
    by auto
  have "each_object pf (h # os) i0 N2 info d = lookup_batches pf (bs @ cs) info d" if hs: "map info_hash info = hs" for info d
  proof (cases "lookup_batches pf bs info d")
    case (Inl e)
    then show ?thesis by (simp add: bs(3) [OF hs] lookup_batches_append)
  next
    case (Inr r)
    obtain info' d' where r: "r = (info', d')" by (cases r)
    have "length info = length hs" using hs by auto
    moreover have "set (concat bs) \<subseteq> {..<length hs}" using bs(1) assms by auto
    ultimately have "map info_hash info' = hs"
      using lookup_batches_keeps [OF Inr [unfolded r]] hs by auto
    with Inr r show ?thesis by (simp add: bs(3) [OF hs] lookup_batches_append cs(3))
  qed
  moreover have "concat (bs @ cs) = concat (map (\<lambda>h. filter (\<lambda>j. hs ! j = h) [i0..<N2]) (h # os))"
    using bs(1) cs(1) by simp
  moreover have "batches_ok hs (bs @ cs)" using bs(2) cs(2) by simp
  ultimately show ?case by (intro exI [of _ "bs @ cs"]) simp
qed

text \<open>Splitting a list by the values of a function loses and repeats nothing.\<close>

lemma mset_split_by:
  "distinct os \<Longrightarrow> \<forall>x \<in> set xs. f x \<in> set os \<Longrightarrow> mset (concat (map (\<lambda>h. filter (\<lambda>x. f x = h) xs) os)) = mset xs"
proof (induction os arbitrary: xs)
  case (Cons h os)
  let ?ys = "filter (\<lambda>x. f x \<noteq> h) xs"
  have e: "map (\<lambda>h. filter (\<lambda>x. f x = h) xs) os = map (\<lambda>h. filter (\<lambda>x. f x = h) ?ys) os"
    using Cons.prems(1) by (intro map_cong) (auto intro!: filter_cong)
  have "mset (concat (map (\<lambda>h. filter (\<lambda>x. f x = h) xs) os)) = mset ?ys"
    unfolding e using Cons.prems by (intro Cons.IH) auto
  then show ?case using multiset_partition [of "mset xs" "\<lambda>x. f x = h"] by (simp add: mset_filter)
qed simp

lemma sv_insert_adds:
  assumes "sv_inv v" "distinct (sv_elems v)" "d_size v < sv_capacity v"
  shows "sv_inv (sv_insert x v)" "distinct (sv_elems (sv_insert x v))" "sv_capacity (sv_insert x v) = sv_capacity v"
    "set (sv_elems (sv_insert x v)) = insert x (set (sv_elems v))"
  using assms sv.add_new_set [OF assms(1), of x] sv.add_new_distinct [OF assms(1,2), of x]
  by (auto simp: sv_insert_def sv_sort_simps sv.inv_push split: if_splits)

lemma collect_objects_spec:
  assumes "sv_inv v" "distinct (sv_elems v)" "set (sv_elems v) = (\<lambda>j. info_hash (info ! j)) ` {i0..<N2}" "i0 \<le> N2" "N2 \<le> N"
    "collect_objects info N N2 v = (M, w)"
  shows "distinct (sv_elems w) \<and> set (sv_elems w) = (\<lambda>j. info_hash (info ! j)) ` {i0..<M} \<and> N2 \<le> M \<and> M \<le> N"
  using assms
proof (induction info N N2 v rule: collect_objects.induct)
  case (1 info N N2 v)
  show ?case
  proof (cases "N2 < N \<and> sv_size v < sv_capacity v")
    case False
    with 1 show ?thesis by (auto simp: collect_objects.simps [of info N N2 v])
  next
    case True
    then have "d_size v < sv_capacity v" by (simp add: sv_size_def)
    note ins = sv_insert_adds [OF 1(2,3) this, of "info_hash (info ! N2)"]
    have "{i0..<Suc N2} = insert N2 {i0..<N2}" using 1(5) by auto
    then have "set (sv_elems (sv_insert (info_hash (info ! N2)) v)) = (\<lambda>j. info_hash (info ! j)) ` {i0..<Suc N2}"
      using ins(4) 1(4) by simp
    from 1(1) [OF True ins(1,2) this] 1(5,7) True show ?thesis
      by (auto simp: collect_objects.simps [of info N N2 v])
  qed
qed

lemma collect_objects_cong:
  "map info_hash info = map info_hash info' \<Longrightarrow> N \<le> length info \<Longrightarrow>
   collect_objects info N N2 v = collect_objects info' N N2 v"
proof (induction info N N2 v rule: collect_objects.induct)
  case (1 info N N2 v)
  have l: "length info = length info'" using 1(2) by (metis length_map)
  show ?case
  proof (cases "N2 < N \<and> sv_size v < sv_capacity v")
    case True
    then have "info_hash (info ! N2) = info_hash (info' ! N2)"
      using 1(2,3) l by (metis less_le_trans nth_map)
    with 1 True show ?thesis
      by (simp add: collect_objects.simps [of info N N2 v] collect_objects.simps [of info' N N2 v])
  next
    case False
    then show ?thesis by (auto simp: collect_objects.simps [of info N N2 v] collect_objects.simps [of info' N N2 v])
  qed
qed

lemma getFileAndLine_batches:
  assumes "N = length hs" "i0 \<le> N"
  shows "\<exists>bs. mset (concat bs) = mset [i0..<N] \<and> batches_ok hs bs
    \<and> (\<forall>info d. map info_hash info = hs \<longrightarrow> getFileAndLine pf N i0 info d = lookup_batches pf bs info d)"
  using assms
proof (induction "N - i0" arbitrary: i0 rule: less_induct)
  case less
  show ?case
  proof (cases "\<exists>info. map info_hash info = hs")
    case False
    show ?thesis
      using False by (intro exI [of _ "map (\<lambda>i. [i]) [i0..<N]"]) (auto simp: batches_ok_def concat_map_singleton)
  next
    case True
    then obtain info0 where info0: "map info_hash info0 = hs" by blast
    show ?thesis
    proof (cases "i0 < N")
      case False
      then have "\<forall>info d. getFileAndLine pf N i0 info d = Inr (info, d)" by (simp add: getFileAndLine.simps)
      with False show ?thesis by (intro exI [of _ "[]"]) simp
    next
      case i0: True
      obtain M w where M: "collect_objects info0 N i0 (sv_new 256 0) = (M, w)" by fastforce
      have len: "length info0 = N" using info0 less.prems(1) by auto
      have M_all: "collect_objects info N i0 (sv_new 256 0) = (M, w)" if "map info_hash info = hs" for info
        using collect_objects_cong [of info info0 N i0] that info0 less.prems(1) M by auto
      have w: "distinct (sv_elems w)" "set (sv_elems w) = (\<lambda>j. info_hash (info0 ! j)) ` {i0..<M}" "M \<le> N"
        using collect_objects_spec [OF _ _ _ order_refl less.prems(2) M] by (simp_all add: sv_new_def sv_inv_def sv_elems_def)
      have lt: "i0 < M" using collect_objects_progress [OF i0, of info0] M by simp
      have Mle: "M \<le> length hs" using w(3) less.prems(1) by simp
      from each_object_batches [OF Mle, of i0 "sv_elems w" pf] obtain bs where
        bs: "concat bs = concat (map (\<lambda>h. filter (\<lambda>j. hs ! j = h) [i0..<M]) (sv_elems w))" "batches_ok hs bs"
        "\<And>info d. map info_hash info = hs \<Longrightarrow> each_object pf (sv_elems w) i0 M info d = lookup_batches pf bs info d"
        by blast
      have "hs ! j \<in> set (sv_elems w)" if "j \<in> set [i0..<M]" for j
      proof -
        have "hs ! j = map info_hash info0 ! j" by (simp only: info0)
        also have "\<dots> = info_hash (info0 ! j)" using that w(3) len by (intro nth_map) simp
        finally have "hs ! j = info_hash (info0 ! j)" .
        then show ?thesis using that w(2) by auto
      qed
      then have m: "mset (concat bs) = mset [i0..<M]"
        unfolding bs(1) by (intro mset_split_by w(1)) blast
      have "N - M < N - i0" using lt i0 by linarith
      from less.hyps [OF this less.prems(1) w(3)] obtain cs where
        cs: "mset (concat cs) = mset [M..<N]" "batches_ok hs cs"
        "\<And>info d. map info_hash info = hs \<Longrightarrow> getFileAndLine pf N M info d = lookup_batches pf cs info d" by blast
      have "getFileAndLine pf N i0 info d = lookup_batches pf (bs @ cs) info d" if hs: "map info_hash info = hs" for info d
      proof (cases "lookup_batches pf bs info d")
        case (Inl e)
        then show ?thesis
          using i0 by (simp add: getFileAndLine.simps [of pf N i0] M_all [OF hs] bs(3) [OF hs] lookup_batches_append)
      next
        case (Inr r)
        obtain info' d' where r: "r = (info', d')" by (cases r)
        have "set (concat bs) = set [i0..<M]" using m by (metis set_mset_mset)
        then have "map info_hash info' = hs"
          using lookup_batches_keeps [OF Inr [unfolded r]] hs Mle by auto
        with Inr r show ?thesis
          using i0 by (simp add: getFileAndLine.simps [of pf N i0] M_all [OF hs] bs(3) [OF hs] lookup_batches_append cs(3))
      qed
      moreover have "[i0..<N] = [i0..<M] @ [M..<N]" using lt w(3) by (metis le_Suc_ex less_imp_le upt_add_eq_append)
      then have "mset (concat (bs @ cs)) = mset [i0..<N]" using m cs(1) by simp
      ultimately show ?thesis using bs(2) cs(2) by (intro exI [of _ "bs @ cs"]) simp
    qed
  qed
qed

text \<open>
  Property C12: every frame is looked up exactly once. Whatever the number of frames and of objects,
  the grouping loops are the look-up of a sequence of batches that together hold every index once;
  a batch is not empty, holds at most 256 frames and only frames of one object.
\<close>

theorem getFileAndLine_each_once:
  "\<exists>bs. mset (concat bs) = mset [0..<length info] \<and> batches_ok (map info_hash info) bs
    \<and> getFileAndLine pf (length info) 0 info d = lookup_batches pf bs info d"
  using getFileAndLine_batches [of "length info" "map info_hash info" 0 pf] by auto

section \<open>What addr2line says\<close>

text \<open>
  A C string ends at its NUL: what follows in the array plays no part in a copy.
\<close>

lemma stripPath_loop_junk:
  "NUL \<notin> set u \<Longrightarrow> stripPath_loop (u @ NUL # r) (v @ NUL # r) = stripPath_loop u v @ NUL # r"
proof (induction u arbitrary: v)
  case (Cons c u)
  then show ?case using Cons.IH [of u] Cons.IH [of v] by simp
qed simp

lemma stripPath_loop_suffix: "suffix (stripPath_loop u v) u \<or> stripPath_loop u v = v"
proof (induction u arbitrary: v)
  case (Cons c u)
  from Cons.IH [of u] Cons.IH [of v] show ?case by (auto simp: suffix_Cons)
qed simp

lemma copy_n_junk: "n1 \<le> length f \<Longrightarrow> copy_n (f @ r) n1 n2 = copy_n f n1 n2"
  by (simp add: copy_n_def memcpy0_def)

lemma copy_path_junk:
  assumes "NUL \<notin> set f"
  shows "copy_path (Some (f @ NUL # r)) n2 n3 = copy_path (Some f) n2 n3"
proof -
  let ?p = "stripPath_loop f f"
  have p: "stripPath_loop (f @ NUL # r) (f @ NUL # r) = ?p @ NUL # r" by (rule stripPath_loop_junk [OF assms])
  have sf: "suffix ?p f" using stripPath_loop_suffix [of f f] by auto
  then have "NUL \<notin> set ?p" using assms set_mono_suffix by blast
  then have "strlen2 (?p @ NUL # r) = length ?p" "strlen2 ?p = length ?p"
    by (simp_all add: strlen2_eq cstr_append_NUL cstr_eq_self)
  moreover have "length (?p @ NUL # r) = length (f @ NUL # r) \<longleftrightarrow> length ?p = length f"
    "copy_n (f @ NUL # r) (length (f @ NUL # r) - Suc (length (?p @ NUL # r))) n3 = copy_n f (length f - Suc (length ?p)) n3"
    by (simp_all add: copy_n_junk)
  ultimately show ?thesis
    by (simp add: copy_path_def stripPath_def p copy_ptr_def strlen2_ptr_def copy_n_junk Let_def del: length_append)
qed

text \<open>
  For an address, \<open>addr2line -f\<close> prints the name of the function and the location, each on a line of its
  own, and question marks when it does not know; a frame has two addresses.
\<close>

record reply =
  rp_name :: cstring
  rp_location :: "(cstring \<times> nat) option"
  rp_name2 :: cstring
  rp_location2 :: "(cstring \<times> nat) option"

definition location_text :: "(cstring \<times> nat) option \<Rightarrow> cstring" where
  "location_text l = (case l of None \<Rightarrow> ''??:0'' | Some (file, n) \<Rightarrow> file @ '':'' @ dec_str n)"

definition reply_rows :: "reply \<Rightarrow> cstring list" where
  "reply_rows r = [rp_name r, location_text (rp_location r), rp_name2 r, location_text (rp_location2 r)]"

definition name_ok :: "cstring \<Rightarrow> bool" where
  "name_ok name \<longleftrightarrow> 2 \<le> length name \<and> length name < 512 \<and> CHR 0x0A \<notin> set name \<and> NUL \<notin> set name"

definition location_ok :: "(cstring \<times> nat) option \<Rightarrow> bool" where
  "location_ok l = (case l of None \<Rightarrow> True
     | Some (file, n) \<Rightarrow> file \<noteq> [] \<and> hd file \<noteq> CHR ''?'' \<and> length file < 500 \<and> n < 2147483648
         \<and> CHR '':'' \<notin> set file \<and> CHR 0x0A \<notin> set file \<and> NUL \<notin> set file)"

definition reply_ok :: "reply \<Rightarrow> bool" where
  "reply_ok r \<longleftrightarrow> name_ok (rp_name r) \<and> location_ok (rp_location r) \<and> name_ok (rp_name2 r) \<and> location_ok (rp_location2 r)"

text \<open>The location of the frame: of its first address, or of its second when the first is unknown.\<close>

definition unknown_name :: "cstring \<Rightarrow> bool" where
  "unknown_name name \<longleftrightarrow> take 2 name = ''??''"

definition located :: "reply \<Rightarrow> stack_info \<Rightarrow> stack_info" where
  "located r s =
     (case (if unknown_name (rp_name r) then if unknown_name (rp_name2 r) then None else rp_location2 r
            else rp_location r) of
        None \<Rightarrow> s
      | Some (file, n) \<Rightarrow>
          s\<lparr>si_filename := fst (copy_path (Some file) 64 64), si_filenamePath := snd (copy_path (Some file) 64 64),
            si_line := of_nat n\<rparr>)"

definition padded :: "cstring \<Rightarrow> cstring" where
  "padded l = l @ replicate (512 - length l) NUL"

lemma captured_line: "length l < 512 \<Longrightarrow> captured (l @ [CHR 0x0A]) = padded l"
  by (simp add: captured_def chomp_def padded_def)

lemma unknown_row_padded: "name_ok l \<Longrightarrow> unknown_row (padded l) \<longleftrightarrow> unknown_name l"
  by (cases l; cases "tl l") (auto simp: name_ok_def unknown_row_def unknown_name_def padded_def)

lemma location_line:
  assumes "location_ok l"
  shows "length (location_text l) < 512" "CHR 0x0A \<notin> set (location_text l)" "NUL \<notin> set (location_text l)"
proof -
  have "length (location_text l) < 512 \<and> CHR 0x0A \<notin> set (location_text l) \<and> NUL \<notin> set (location_text l)"
  proof (cases l)
    case (Some x)
    obtain f n where x: "x = (f, n)" by (cases x)
    have "length (dec_str n) \<le> Suc 9"
      using assms Some x by (intro length_num_str) (simp_all add: location_ok_def)
    moreover have "CHR 0x0A \<notin> set (dec_str n)" "NUL \<notin> set (dec_str n)"
      using num_str_digits [of 10 n] by (auto simp: is_digit_def digit_val_def)
    ultimately show ?thesis using assms Some x by (auto simp: location_ok_def location_text_def)
  qed (simp add: location_text_def)
  then show "length (location_text l) < 512" "CHR 0x0A \<notin> set (location_text l)" "NUL \<notin> set (location_text l)" by auto
qed

lemma file_line_padded:
  assumes "location_ok l"
  shows "file_line (padded (location_text l)) s = Inr (case l of None \<Rightarrow> s
    | Some (file, n) \<Rightarrow> s\<lparr>si_filename := fst (copy_path (Some file) 64 64),
        si_filenamePath := snd (copy_path (Some file) 64 64), si_line := of_nat n\<rparr>)"
proof (cases l)
  case None
  then show ?thesis by (simp add: file_line_def location_text_def padded_def)
next
  case (Some x)
  obtain f n where x: "x = (f, n)" by (cases x)
  have ok: "f \<noteq> []" "hd f \<noteq> CHR ''?''" "n < 2147483648" "CHR '':'' \<notin> set f" "NUL \<notin> set f"
    using assms Some x by (auto simp: location_ok_def)
  obtain m where m: "padded (location_text l) = f @ CHR '':'' # dec_str n @ replicate (Suc m) NUL"
  proof -
    have "512 - length (location_text l) = Suc (511 - length (location_text l))" using location_line(1) [OF assms] by simp
    then show thesis using Some x that [of "511 - length (location_text l)"] by (simp add: padded_def location_text_def)
  qed
  let ?b = "f @ CHR '':'' # dec_str n @ replicate (Suc m) NUL"
  have hd: "?b ! 0 \<noteq> CHR ''?'' \<and> ?b ! 0 \<noteq> NUL" using ok(1,2,5) by (cases f) auto
  have fc: "find_char (CHR '':'') ?b = Some (length f)" by (rule find_char_notin [OF ok(4)])
  have ne: "Suc (length f) \<noteq> length ?b" by simp
  have upd: "?b[length f := NUL] = f @ NUL # dec_str n @ replicate (Suc m) NUL" by (simp add: list_update_append)
  have "stops 10 (replicate (Suc m) NUL)" by (simp add: stops_def is_digit_def digit_val_def)
  from atoi_dec [OF this ok(3)] have at: "atoi (drop (Suc (length f)) ?b) = int n" by simp
  show ?thesis
    unfolding m file_line_def if_P [OF hd] fc option.case if_not_P [OF ne] upd at copy_path_junk [OF ok(5)] Let_def
    by (simp add: Some x split: prod.split)
qed

lemma apply_rows_located:
  assumes "reply_ok r" "length (si_function s) = 256"
  shows "apply_rows (map padded (reply_rows r)) s = Inr (located r s)"
proof -
  have ok: "name_ok (rp_name r)" "name_ok (rp_name2 r)" "location_ok (rp_location r)" "location_ok (rp_location2 r)"
    using assms(1) by (auto simp: reply_ok_def)
  have ne: "\<not> array_empty (si_function s)" using assms(2) by (simp add: array_empty_def)
  have rows: "map padded (reply_rows r) ! 0 = padded (rp_name r)" "map padded (reply_rows r) ! 1 = padded (location_text (rp_location r))"
    "map padded (reply_rows r) ! 2 = padded (rp_name2 r)" "map padded (reply_rows r) ! 3 = padded (location_text (rp_location2 r))"
    by (simp_all add: reply_rows_def numeral_eq_Suc)
  show ?thesis
    unfolding apply_rows_def rows unknown_row_padded [OF ok(1)] located_def
    by (auto simp: unknown_row_padded [OF ok(1)] unknown_row_padded [OF ok(2)] ne file_line_padded ok)
qed

lemma length_reply_rows [simp]: "length (reply_rows r) = 4"
  by (simp add: reply_rows_def)

lemma add_results_located:
  assumes "distinct ps" "\<forall>p \<in> set ps. p < length info" "length rs = length ps" "\<forall>r \<in> set rs. reply_ok r"
    "\<forall>s \<in> set info. length (si_function s) = 256"
  shows "\<exists>info'. add_results (map padded (concat (map reply_rows rs))) ps info = Inr info' \<and> length info' = length info
    \<and> (\<forall>k < length ps. info' ! (ps ! k) = located (rs ! k) (info ! (ps ! k)))
    \<and> (\<forall>i < length info. i \<notin> set ps \<longrightarrow> info' ! i = info ! i)"
  using assms
proof (induction ps arbitrary: rs info)
  case (Cons p ps)
  then obtain r rs' where rs: "rs = r # rs'" by (cases rs) auto
  let ?i = "info[p := located r (info ! p)]"
  have p: "p < length info" using Cons.prems(2) by simp
  have "length (si_function (located r (info ! p))) = length (si_function (info ! p))"
    by (auto simp: located_def split: option.splits)
  then have "\<forall>s \<in> set ?i. length (si_function s) = 256"
    using Cons.prems(5) p by (metis in_set_conv_nth length_list_update nth_list_update)
  from Cons.IH [of ?i rs', OF _ _ _ _ this] Cons.prems(1-4) obtain info' where
    i': "add_results (map padded (concat (map reply_rows rs'))) ps ?i = Inr info'" "length info' = length info"
    "\<forall>k < length ps. info' ! (ps ! k) = located (rs' ! k) (?i ! (ps ! k))"
    "\<forall>i < length info. i \<notin> set ps \<longrightarrow> info' ! i = ?i ! i" unfolding rs by auto
  have "apply_rows (map padded (reply_rows r)) (info ! p) = Inr (located r (info ! p))"
    using Cons.prems(4,5) p rs by (intro apply_rows_located) auto
  then have "add_results (map padded (concat (map reply_rows rs))) (p # ps) info = Inr info'"
    using i'(1) by (simp add: rs)
  moreover have "info' ! ((p # ps) ! k) = located (rs ! k) (info ! ((p # ps) ! k))" if "k < length (p # ps)" for k
  proof (cases k)
    case 0
    with Cons.prems(1) i'(4) p rs show ?thesis by simp
  next
    case (Suc j)
    with that have "ps ! j \<in> set ps" by simp
    then have "ps ! j \<noteq> p" using Cons.prems(1) by auto
    with Suc that i'(3) rs show ?thesis by simp
  qed
  moreover have "\<forall>i < length info. i \<notin> set (p # ps) \<longrightarrow> info' ! i = info ! i" using i'(4) by simp
  ultimately show ?case using i'(2) by blast
qed simp

lemma reply_row_line:
  assumes "reply_ok r" "l \<in> set (reply_rows r)"
  shows "length l < 512 \<and> CHR 0x0A \<notin> set l \<and> NUL \<notin> set l"
  using assms location_line [of "rp_location r"] location_line [of "rp_location2 r"]
  by (auto simp: reply_rows_def reply_ok_def name_ok_def)

text \<open>
  Property C11: the answer of \<open>addr2line\<close> reaches the right frames. When the command fits its buffer and
  the tool answers with two lines for each of the two addresses of every frame, each frame of the
  batch gets the file, the directory and the line of its own addresses, the second address where the first is
  unknown; frames that are not in the batch and the names of the functions are left alone, and so
  are the signals.
\<close>

theorem addr2line_answers:
  assumes "sv_inv v" "d_size v \<le> 256" "distinct (sv_elems v)" "\<forall>p \<in> set (sv_elems v). p < length info"
    "\<forall>s \<in> set info. length (si_function s) = 256"
    "addr2line_command (pf_addr2line pf) (map ((!) info) (sv_elems v)) = Inr cmd"
    "length rs = length (sv_elems v)" "\<forall>r \<in> set rs. reply_ok r"
    "pf_popen pf cmd = Some (concat (map (\<lambda>l. l @ [CHR 0x0A]) (concat (map reply_rows rs))), code, echild)"
  shows "\<exists>info'. getFileAndLineObject pf v info d = Inr (info', d) \<and> length info' = length info
    \<and> (\<forall>k < length (sv_elems v). info' ! (sv_elems v ! k) = located (rs ! k) (info ! (sv_elems v ! k)))
    \<and> (\<forall>i < length info. i \<notin> set (sv_elems v) \<longrightarrow> info' ! i = info ! i)"
proof (cases "sv_elems v = []")
  case True
  then show ?thesis by (simp add: getFileAndLineObject_batch [OF assms(1)] lookup_batch_def)
next
  case False
  let ?ls = "concat (map reply_rows rs)"
  let ?out = "concat (map (\<lambda>l. l @ [CHR 0x0A]) ?ls)"
  have line: "length l < 512 \<and> CHR 0x0A \<notin> set l \<and> NUL \<notin> set l" if "l \<in> set ?ls" for l
    using that assms(8) reply_row_line by auto
  have chunks: "fgets_chunks ?out = map (\<lambda>l. l @ [CHR 0x0A]) ?ls"
  proof (rule fgets_chunks_concat, rule ballI)
    fix l assume "l \<in> set ?ls"
    from line [OF this] show "CHR 0x0A \<notin> set l \<and> length l < 8191" by simp
  qed
  have cap: "map captured (fgets_chunks ?out) = map padded ?ls"
    unfolding chunks using line captured_line by auto
  have nul: "NUL \<notin> set ?out"
  proof
    assume "NUL \<in> set ?out"
    then obtain l where "l \<in> set ?ls" "NUL \<in> set (l @ [CHR 0x0A])"
      unfolding set_concat set_map by blast
    with line [of l] show False by simp
  qed
  have len: "length (map padded ?ls) = 4 * length (sv_elems v)"
    using assms(7) by (simp add: length_concat comp_def sum_list_triv)
  have fits: "length (map padded ?ls) \<le> 4 * 256" using len assms(1,2) by simp
  from exec2_into_captures [of "pf_popen pf" cmd ?out code echild "sv_new (4 * 256) (replicate 512 NUL)" d, OF assms(9) nul]
  obtain o1 where o1: "exec2_into (pf_popen pf) cmd (sv_new (4 * 256) (replicate 512 NUL)) d = Inr (o1, d)"
    "sv_inv o1" "sv_elems o1 = take (4 * 256) (map padded ?ls)" unfolding cap by auto
  have el: "sv_elems o1 = map padded ?ls" unfolding o1(3) using fits by (rule take_all)
  then have "sv_size o1 = 4 * length (sv_elems v)" using len length_sv_elems [OF o1(2)] by (simp add: sv_size_def)
  moreover from add_results_located [OF assms(3,4,7,8,5)] obtain info' where
    "add_results (map padded ?ls) (sv_elems v) info = Inr info'" "length info' = length info"
    "\<forall>k < length (sv_elems v). info' ! (sv_elems v ! k) = located (rs ! k) (info ! (sv_elems v ! k))"
    "\<forall>i < length info. i \<notin> set (sv_elems v) \<longrightarrow> info' ! i = info ! i" by blast
  ultimately show ?thesis
    using False assms(6) o1(1) el by (simp add: getFileAndLineObject_batch [OF assms(1)] lookup_batch_def)
qed

definition example_platform :: platform where
  "example_platform = \<lparr>
     pf_popen = (\<lambda>_. Some (''main'' @ [CHR 0x0A] @ ''a.cpp:'' @ dec_str 12 @ [CHR 0x0A] @
                          ''main'' @ [CHR 0x0A] @ ''??:0'' @ [CHR 0x0A], 0, False)),
     pf_addr2line = ''addr2line'', pf_dladdr = (\<lambda>_. None), pf_demangle = (\<lambda>_. None), pf_exe = ''prog''\<rparr>"

theorem addr2line_answers_witness:
  "\<exists>info'. getFileAndLineObject example_platform (sv_push_back 0 (sv_new 256 0)) [stack_info_clear] (\<lambda>_. SIG_DFL)
      = Inr (info', \<lambda>_. SIG_DFL) \<and> map si_line info' = [12] \<and> map si_function info' = [replicate 256 NUL]"
proof -
  let ?v = "sv_push_back 0 (sv_new 256 0) :: nat static_vector"
  let ?r = "\<lparr>rp_name = ''main'', rp_location = Some (''a.cpp'', 12), rp_name2 = ''main'', rp_location2 = None\<rparr>"
  have "d_size (sv_new 256 (0 :: nat)) < sv_capacity (sv_new 256 (0 :: nat))" by simp (simp add: sv_new_def)
  note v = push_room [OF sv_inv_new(1) this, of 0]
  have "d_size (sv_new 256 (0 :: nat)) = 0" by (simp add: sv_new_def)
  with v have v: "sv_inv ?v" "sv_elems ?v = [0]" "d_size ?v \<le> 256" by simp_all
  have c: "cstr (replicate n NUL) = []" for n by (cases n) (simp_all add: cstr_def)
  have "hex_str 0 = ''0''" by (simp add: num_str.simps digit_char_0)
  then obtain cmd where cmd: "addr2line_command (pf_addr2line example_platform) (map ((!) [stack_info_clear]) (sv_elems ?v)) = Inr cmd"
    by (simp add: v addr2line_command_def example_platform_def stack_info_clear_def c sprintf_cmd_def)
  have ok: "\<forall>r \<in> set [?r]. reply_ok r" by (simp add: reply_ok_def name_ok_def location_ok_def)
  have out: "pf_popen example_platform cmd
      = Some (concat (map (\<lambda>l. l @ [CHR 0x0A]) (concat (map reply_rows [?r]))), 0, False)"
    by (simp add: example_platform_def reply_rows_def location_text_def)
  from addr2line_answers [OF v(1,3) _ _ _ cmd _ ok out, of "\<lambda>_. SIG_DFL"] v(2)
  obtain info' where i: "getFileAndLineObject example_platform ?v [stack_info_clear] (\<lambda>_. SIG_DFL) = Inr (info', \<lambda>_. SIG_DFL)"
    "length info' = 1" "info' ! 0 = located ?r stack_info_clear"
    by (auto simp: stack_info_clear_def)
  then have "info' = [located ?r stack_info_clear]" by (cases info') auto
  with i(1) show ?thesis by (simp add: located_def unknown_name_def stack_info_clear_def)
qed

section \<open>The stacks of many threads\<close>

lemma find_from_spec: "find_from i ys x = (if x \<in> set ys then int (i + index_of x ys) else -1)"
  by (induction i ys x rule: find_from.induct) auto

lemma fold_collect:
  "distinct acc \<Longrightarrow>
   (let r = fold (\<lambda>ptr addresses. if find_from 0 addresses ptr = -1 then addresses @ [ptr] else addresses) tmp acc
    in distinct r \<and> set r = set acc \<union> set tmp)"
proof (induction tmp arbitrary: acc)
  case (Cons a tmp)
  then show ?case by (cases "a \<in> set acc") (auto simp: find_from_spec Let_def)
qed simp

lemma collect_addresses_spec:
  "distinct (collect_addresses trace) \<and> set (collect_addresses trace) = set (concat trace)"
proof -
  have "distinct acc \<Longrightarrow>
    (let r = fold (\<lambda>tmp. fold (\<lambda>ptr addresses. if find_from 0 addresses ptr = -1 then addresses @ [ptr] else addresses) tmp)
       trace acc in distinct r \<and> set r = set acc \<union> set (concat trace))" for acc
  proof (induction trace arbitrary: acc)
    case (Cons tmp trace)
    with fold_collect [OF Cons.prems, of tmp] show ?case by (auto simp: Let_def)
  qed simp
  from this [of "[]"] show ?thesis by (simp add: collect_addresses_def Let_def)
qed

lemma set_function_address:
  "set_demangled pf sname info = Inr info' \<Longrightarrow> si_address info' = si_address info"
  "set_plain sname info = Inr info' \<Longrightarrow> si_address info' = si_address info"
  by (auto simp: set_demangled_def set_plain_def bindR_Inr_iff split: option.splits if_splits)

lemma getStackInfo_address:
  assumes "getStackInfo pf info st = Inr (info', st')"
  shows "si_address info' = si_address info"
proof (cases "pf_dladdr pf (si_address info)")
  case None
  with assms have "getDataFromGlobalSymbols (getSymbolData (pf_popen pf) (pf_exe pf)) (pf_exe pf) info st = Inr (info', st')"
    by (simp add: getStackInfo_def)
  then show ?thesis
    unfolding getDataFromGlobalSymbols_def bindR_Inr_iff
    by (auto simp: Let_def split: if_splits option.splits prod.splits)
next
  case (Some dl)
  moreover obtain obj objPath where "copy_path (Some (dli_fname dl)) 56 48 = (obj, objPath)" by fastforce
  ultimately show ?thesis
    using assms unfolding getStackInfo_def
    by (auto simp: bindR_Inr_iff Let_def dest!: set_function_address)
qed

lemma each_address_addresses: "each_address pf as st = Inr (info, st') \<Longrightarrow> map si_address info = as"
proof (induction as arbitrary: st info)
  case (Cons a as)
  then obtain i1 st1 rest where 1: "getStackInfo pf (stack_info_clear\<lparr>si_address := a\<rparr>) st = Inr (i1, st1)"
    "each_address pf as st1 = Inr (rest, st')" "info = i1 # rest"
    by (auto simp: bindR_Inr_iff)
  from getStackInfo_address [OF 1(1)] Cons.IH [OF 1(2)] 1(3) show ?case by simp
qed simp

lemma SIGINT_catchable: "catchable SIGINT"
  by (simp add: catchable_def SIGINT_def signal_numbers)

lemma getStackInfo2_addresses:
  assumes "getStackInfo2 pf as (cache, d) = Inr (info, cache', d')"
  shows "map si_address info = as \<and> d' SIGINT = d SIGINT"
proof -
  from assms obtain i1 d1 d2 where 1: "each_address pf as (cache, os_signal SIGINT StackInfoHandler d) = Inr (i1, cache', d1)"
    "getFileAndLine pf (length as) 0 i1 d1 = Inr (info, d2)" "d' = os_signal SIGINT (d SIGINT) d2"
    by (auto simp: getStackInfo2_def bindR_Inr_iff Let_def)
  have a: "map si_address i1 = as" by (rule each_address_addresses [OF 1(1)])
  then have len: "length i1 = length as" by auto
  from getFileAndLine_batches [of "length as" "map info_hash i1" 0 pf] len obtain bs where
    bs: "mset (concat bs) = mset [0..<length as]" "getFileAndLine pf (length as) 0 i1 d1 = lookup_batches pf bs i1 d1" by auto
  have "set (concat bs) = set [0..<length as]" using bs(1) by (metis set_mset_mset)
  then have "map si_address info = map si_address i1"
    using 1(2) bs(2) len by (intro lookup_batches_untouched [of pf bs i1 d1 info d2]) auto
  with a 1(3) SIGINT_catchable show ?thesis by (simp add: os_signal_def)
qed

text \<open>
  The frames of the stacks are a function of the addresses: equal addresses in different stacks share
  one look-up.
\<close>

lemma generateStacks_frames:
  assumes "generateStacks pf trace (cache, d) = Inr (stacks, cache', d')"
  shows "\<exists>F. stacks = map (map F) trace \<and> (\<forall>a \<in> set (concat trace). si_address (F a) = a) \<and> d' SIGINT = d SIGINT"
proof -
  let ?as = "collect_addresses trace"
  from assms obtain data where 1: "getStackInfo2 pf ?as (cache, d) = Inr (data, cache', d')"
    "stacks = map (map (\<lambda>ptr. data ! nat (find_from 0 ?as ptr))) trace"
    by (auto simp: generateStacks_def getStackInfo_many_def bindR_Inr_iff Let_def)
  let ?F = "\<lambda>ptr. data ! nat (find_from 0 ?as ptr)"
  from getStackInfo2_addresses [OF 1(1)] have a: "map si_address data = ?as" "d' SIGINT = d SIGINT" by auto
  have "si_address (?F x) = x" if "x \<in> set (concat trace)" for x
  proof -
    have x: "x \<in> set ?as" using that collect_addresses_spec [of trace] by simp
    have "length data = length ?as" using a(1) by (metis length_map)
    with index_of_nth [OF x] have "si_address (data ! index_of x ?as) = map si_address data ! index_of x ?as" by simp
    also have "\<dots> = x" using index_of_nth [OF x] by (simp only: a(1))
    finally show ?thesis using x by (simp add: find_from_spec)
  qed
  with 1(2) a(2) show ?thesis by blast
qed

subsection \<open>The buffer of the command\<close>

definition address_text :: "stack_info \<Rightarrow> cstring" where
  "address_text s = '' '' @ hex_str (unat (si_address s)) @ '' '' @ hex_str (unat (si_address2 s))"

lemma length_address_text: "length (address_text s) \<le> 34"
proof -
  have "length (hex_str (unat w)) \<le> Suc 15" for w :: "64 word"
  proof (rule length_num_str)
    have "unat w < 2 ^ LENGTH(64)" by (rule unsigned_less)
    then show "unat w < 16 ^ Suc 15" by simp
  qed simp
  from this [of "si_address s"] this [of "si_address2 s"] show ?thesis by (simp add: address_text_def)
qed

lemma add_addresses_fits:
  "length cmd + 34 * length ss \<le> 4064 \<Longrightarrow> add_addresses cmd ss = Inr (cmd @ concat (map address_text ss))"
proof (induction ss arbitrary: cmd)
  case (Cons s ss)
  have l: "length (address_text s) \<le> 34" by (rule length_address_text)
  have "length cmd < 4096 - 32" "length cmd + length (address_text s) < 4096"
    "length (cmd @ address_text s) + 34 * length ss \<le> 4064" using Cons.prems l by simp_all
  then show ?case using Cons.IH [of "cmd @ address_text s"] by (simp add: sprintf_cmd_def address_text_def)
qed simp

lemma addr2line_command_fits:
  assumes "length ADDR2LINE \<le> 64" "length (cstr (si_object (hd ss))) < 56" "length (cstr (si_objectPath (hd ss))) < 48"
    "length ss \<le> 114"
  shows "\<exists>cmd. addr2line_command ADDR2LINE ss = Inr (cmd @ concat (map address_text ss) @ '' 2> /dev/null'')"
proof -
  define c where "c = (if cstr (si_objectPath (hd ss)) = []
              then ADDR2LINE @ '' -C -e '' @ cstr (si_object (hd ss)) @ '' -f''
              else ADDR2LINE @ '' -C -e '' @ cstr (si_objectPath (hd ss)) @ ''/'' @ cstr (si_object (hd ss)) @ '' -f'')"
  have l: "length c \<le> 178" using assms by (simp add: c_def)
  have "sum_list (map (length \<circ> address_text) ss) \<le> 34 * length ss"
    by (induction ss) (auto intro: add_mono length_address_text)
  then have t: "length (concat (map address_text ss)) \<le> 34 * length ss" by (simp add: length_concat)
  have a: "add_addresses c ss = Inr (c @ concat (map address_text ss))"
    using l assms(4) by (intro add_addresses_fits) simp
  have s1: "sprintf_cmd [] c = Inr c" using l by (simp add: sprintf_cmd_def)
  have s2: "sprintf_cmd (c @ concat (map address_text ss)) '' 2> /dev/null''
      = Inr ((c @ concat (map address_text ss)) @ '' 2> /dev/null'')"
    using l t assms(4) by (simp add: sprintf_cmd_def)
  have "addr2line_command ADDR2LINE ss = Inr (c @ concat (map address_text ss) @ '' 2> /dev/null'')"
    unfolding addr2line_command_def Let_def c_def [symmetric] s1 bindR_simps a s2 by simp
  then show ?thesis by blast
qed

lemma add_addresses_replicate:
  assumes "length (address_text s) = 34" "length cmd + 34 * k < 4064 + 34" "length cmd + 34 * k < 4096"
  shows "add_addresses cmd (replicate (k + m) s) = add_addresses (cmd @ concat (replicate k (address_text s))) (replicate m s)"
  using assms(2,3)
proof (induction k arbitrary: cmd)
  case (Suc k)
  then have "length cmd < 4096 - 32" "length cmd + length (address_text s) < 4096" using assms(1) by simp_all
  then show ?case
    using Suc.IH [of "cmd @ address_text s"] Suc.prems assms(1) by (simp add: sprintf_cmd_def address_text_def)
qed simp

lemma length_num_str_ge: "2 \<le> base \<Longrightarrow> base ^ k \<le> n \<Longrightarrow> Suc k \<le> length (num_str base n)"
proof (induction k arbitrary: n)
  case 0
  show ?case using num_str_nonempty [of base n] by (cases "num_str base n") auto
next
  case (Suc k)
  have "base * 1 \<le> base * base ^ k" using Suc.prems(1) by (intro mult_le_mono2) simp
  with Suc.prems(2) have n: "base \<le> n" by (simp only: power_Suc mult_1_right)
  have "base ^ k = base ^ Suc k div base" using Suc.prems(1) by simp
  also have "\<dots> \<le> n div base" by (rule div_le_mono [OF Suc.prems(2)])
  finally have "Suc k \<le> length (num_str base (n div base))" by (rule Suc.IH [OF Suc.prems(1)])
  with n Suc.prems(1) show ?case by (subst num_str.simps) simp
qed

text \<open>
  The guard of the loop leaves 32 characters, which is less than the text of one more frame and the
  redirection: a deep recursion in an object at high addresses overflows the buffer.
\<close>

lemma addr2line_command_overflows:
  defines "s \<equiv> stack_info_clear\<lparr>si_address := -1, si_address2 := -1, si_object := replicate 19 CHR ''a'' @ replicate 37 NUL\<rparr>"
  shows "addr2line_command ''addr2line'' (replicate 120 s) = Inl OutOfBounds"
proof -
  have "Suc 15 \<le> length (hex_str (unat (-1 :: 64 word)))"
    by (rule length_num_str_ge) (simp_all add: unsigned_minus_1_eq_mask mask_eq_exp_minus_1)
  then have "34 \<le> length (address_text s)" by (simp add: address_text_def s_def)
  with length_address_text [of s] have t: "length (address_text s) = 34" by simp
  have o1: "cstr (si_object s) = replicate 19 CHR ''a''"
    using cstr_append_replicate [of "replicate 19 CHR ''a''" 37] by (simp add: s_def)
  have o2: "cstr (si_objectPath s) = []" by (simp add: s_def stack_info_clear_def cstr_def numeral_eq_Suc)
  let ?c = "''addr2line -C -e '' @ replicate 19 CHR ''a'' @ '' -f''"
  have c: "length ?c = 38" by simp
  have "add_addresses ?c (replicate (119 + 1) s) = add_addresses (?c @ concat (replicate 119 (address_text s))) (replicate 1 s)"
    using t by (intro add_addresses_replicate) simp_all
  also have "\<dots> = Inr (?c @ concat (replicate 119 (address_text s)))"
    using t by (simp add: length_concat sum_list_replicate)
  finally have a: "add_addresses ?c (replicate 120 s) = Inr (?c @ concat (replicate 119 (address_text s)))" by simp
  have hd: "hd (replicate 120 s) = s" by (simp add: numeral_eq_Suc)
  have s1: "sprintf_cmd [] ?c = Inr ?c" by (simp add: sprintf_cmd_def)
  have s2: "sprintf_cmd (?c @ concat (replicate 119 (address_text s))) '' 2> /dev/null'' = Inl OutOfBounds"
    using t by (simp add: sprintf_cmd_def length_concat sum_list_replicate)
  show ?thesis
    unfolding addr2line_command_def Let_def hd o1 o2 using s1 a s2 by simp
qed

subsection \<open>The tree of all threads\<close>

lemma fold_ms_add_fields:
  "ms_N (fold (\<lambda>q. ms_add (length q) q) qs t) = ms_N t"
  "ms_stack (fold (\<lambda>q. ms_add (length q) q) qs t) = ms_stack t"
  by (induction qs arbitrary: t) (simp_all add: ms_add_def)

lemma generateMultiStack_tree:
  assumes "generateMultiStack pf trace (cache, d) = Inr (t, cache', d')"
  shows "\<exists>F. (\<forall>a \<in> set (concat trace). si_address (F a) = a)
    \<and> ms_N t = int (length trace) \<and> d' SIGINT = d SIGINT
    \<and> (\<forall>A. transp_on A stack_eq \<and> F ` set (concat trace) \<subseteq> A \<longrightarrow> forest_ok A (ms_children t)
        \<and> (\<forall>p. set p \<subseteq> A \<and> p \<noteq> [] \<longrightarrow>
            ms_count p (ms_children t) = int (length (filter (\<lambda>q. path_of p (rev (map F q))) trace))))"
proof -
  let ?t0 = "MSI (int (length trace)) stack_info_clear []"
  from assms obtain stacks where 1: "generateStacks pf trace (cache, d) = Inr (stacks, cache', d')"
    "t = fold (\<lambda>tmp. ms_add (length tmp) tmp) stacks (MSI (int (length stacks)) stack_info_clear [])"
    by (auto simp: generateMultiStack_def bindR_Inr_iff ms_empty_tree_def)
  from generateStacks_frames [OF 1(1)] obtain F where F: "stacks = map (map F) trace"
    "\<forall>a \<in> set (concat trace). si_address (F a) = a" "d' SIGINT = d SIGINT" by blast
  have t: "t = fold (\<lambda>q. ms_add (length q) q) stacks ?t0" using 1(2) F(1) by simp
  have count: "ms_count p (ms_children t) = int (length (filter (\<lambda>q. path_of p (rev (map F q))) trace))"
    and ok: "forest_ok A (ms_children t)"
    if "transp_on A stack_eq" "F ` set (concat trace) \<subseteq> A" "set p \<subseteq> A" "p \<noteq> []" for p A
  proof -
    have "\<forall>q \<in> set (map rev stacks). set q \<subseteq> A" using that(2) unfolding F(1) by fastforce
    from frame_grouping.count_add_many [OF frame_groupingI [OF that(1)] _ this that(3,4), of "[]"]
    have c: "ms_count p (fold ms_add_frames (map rev stacks) []) = ms_count p [] + int (length (filter (path_of p) (map rev stacks)))"
      "forest_ok A (fold ms_add_frames (map rev stacks) [])" by auto
    have "ms_count p [] = 0" using that(4) by (cases p) simp_all
    with c show "ms_count p (ms_children t) = int (length (filter (\<lambda>q. path_of p (rev (map F q))) trace))"
      "forest_ok A (ms_children t)"
      unfolding t fold_ms_add_children F(1) by (simp_all add: filter_map comp_def rev_map)
  qed
  have fo: "forest_ok A (ms_children t)" if A: "transp_on A stack_eq" "F ` set (concat trace) \<subseteq> A" for A
  proof (cases "A = {}")
    case True
    with A(2) have "stacks = map (\<lambda>_. []) trace" unfolding F(1) by auto
    then have "fold ms_add_frames (map rev stacks) [] = []" by (induction trace arbitrary: stacks) auto
    then show ?thesis unfolding t fold_ms_add_children by simp
  next
    case False
    then obtain x where "x \<in> A" by blast
    then show ?thesis using ok [OF A, of "[x]"] by simp
  qed
  have "ms_N t = int (length trace)" by (simp add: t fold_ms_add_fields)
  with count fo F(2,3) show ?thesis by (intro exI [of _ F]) blast
qed

text \<open>
  Property C2: the tree of all threads. When \<open>getAllCallStacks\<close> returns, the frames are a function of
  the addresses, the root counts the threads, and, as long as the comparison is transitive on the
  frames, the number at every path is the number of threads whose outermost frames are that path. The
  handler of \<open>SIGINT\<close> is the one of before.
\<close>

theorem getAllCallStacks_counts:
  assumes "getAllCallStacks pf bt threads (cache, d) = Inr (t, cache', d')"
  shows "\<exists>F. (\<forall>a \<in> set (concat (map (backtrace bt) threads)). si_address (F a) = a)
    \<and> ms_N t = int (length threads) \<and> d' SIGINT = d SIGINT
    \<and> (\<forall>p. transp_on (F ` set (concat (map (backtrace bt) threads))) stack_eq
          \<and> set p \<subseteq> F ` set (concat (map (backtrace bt) threads)) \<and> p \<noteq> [] \<longrightarrow>
        ms_count p (ms_children t) = int (length (filter (\<lambda>tid. path_of p (rev (map F (backtrace bt tid)))) threads)))"
proof -
  let ?trace = "map (backtrace bt) threads"
  from assms have "generateMultiStack pf ?trace (cache, d) = Inr (t, cache', d')"
    by (simp add: getAllCallStacks_def generateMultiStack_threads_def)
  from generateMultiStack_tree [OF this] obtain F where "\<forall>a \<in> set (concat ?trace). si_address (F a) = a"
    "ms_N t = int (length ?trace)" "d' SIGINT = d SIGINT"
    and A: "\<forall>A. transp_on A stack_eq \<and> F ` set (concat ?trace) \<subseteq> A \<longrightarrow> forest_ok A (ms_children t)
        \<and> (\<forall>p. set p \<subseteq> A \<and> p \<noteq> [] \<longrightarrow>
            ms_count p (ms_children t) = int (length (filter (\<lambda>q. path_of p (rev (map F q))) ?trace)))" by blast
  then show ?thesis
    using A [rule_format, of "F ` set (concat ?trace)"]
    by (intro exI [of _ F]) (simp add: filter_map comp_def)
qed

text \<open>A platform without tools: no command can be started and no symbol is known.\<close>

definition bare_platform :: platform where
  "bare_platform = \<lparr>pf_popen = (\<lambda>_. None), pf_addr2line = ''addr2line'', pf_dladdr = (\<lambda>_. None),
     pf_demangle = (\<lambda>_. None), pf_exe = ''prog''\<rparr>"

lemma cstr_all_NUL: "cstr (replicate n NUL) = []"
  by (cases n) (simp_all add: cstr_def)

lemma bare_lookup_batches:
  assumes "batches_ok hs bs" "\<forall>b \<in> set bs. length b \<le> 114" "\<forall>p \<in> set (concat bs). p < length info"
    "\<forall>s \<in> set info. si_object s = replicate 56 NUL \<and> si_objectPath s = replicate 48 NUL" "d SIGCHLD = SIG_IGN"
  shows "lookup_batches bare_platform bs info d = Inr (info, d)"
  using assms(1,2,3)
proof (induction bs)
  case (Cons b bs)
  have b: "b \<noteq> []" "length b \<le> 114" "\<forall>p \<in> set b. p < length info" using Cons.prems by (auto simp: batches_ok_def)
  have "hd (map ((!) info) b) \<in> set info" using b(1,3) by (cases b) auto
  then have e: "cstr (si_object (hd (map ((!) info) b))) = []" "cstr (si_objectPath (hd (map ((!) info) b))) = []"
    using assms(4) by (simp_all add: cstr_all_NUL)
  obtain cmd where "addr2line_command ''addr2line'' (map ((!) info) b) = Inr cmd"
    using addr2line_command_fits [of "''addr2line''" "map ((!) info) b"] e b(2) by auto
  moreover have "os_signal SIGCHLD SIG_IGN d = d" using assms(5) by (simp add: os_signal_def fun_upd_idem)
  ultimately have "lookup_batch bare_platform b info d = Inr (info, d)"
    using b(1) by (simp add: lookup_batch_def bare_platform_def exec2_into_def exec2_def Let_def sv_size_def sv_clear_def)
  moreover have "batches_ok hs bs" using Cons.prems(1) batches_ok_append [of hs "[b]" bs] by simp
  then have "lookup_batches bare_platform bs info d = Inr (info, d)"
    using Cons.prems(2,3) by (intro Cons.IH) simp_all
  ultimately show ?case by simp
qed simp

lemma bare_getStackInfo2:
  "getStackInfo2 bare_platform [16, 32] (\<lparr>sc_loaded = True, sc_data = []\<rparr>, \<lambda>_. SIG_IGN)
   = Inr ([stack_info_clear\<lparr>si_address := 16\<rparr>, stack_info_clear\<lparr>si_address := 32\<rparr>],
          \<lparr>sc_loaded = True, sc_data = []\<rparr>, os_signal SIGINT SIG_IGN (os_signal SIGINT StackInfoHandler (\<lambda>_. SIG_IGN)))"
proof -
  let ?f = "\<lambda>a. stack_info_clear\<lparr>si_address := a\<rparr>"
  define d where "d = os_signal SIGINT StackInfoHandler (\<lambda>_. SIG_IGN)"
  have d: "d SIGCHLD = SIG_IGN" by (simp add: d_def os_signal_def SIGINT_def SIGCHLD_def)
  have ea: "each_address bare_platform [16, 32] (\<lparr>sc_loaded = True, sc_data = []\<rparr>, d)
      = Inr ([?f 16, ?f 32], \<lparr>sc_loaded = True, sc_data = []\<rparr>, d)"
    by (simp add: getStackInfo_def bare_platform_def getDataFromGlobalSymbols_def load_symbols_def Let_def)
  from getFileAndLine_batches [of 2 "map info_hash [?f 16, ?f 32]" 0 bare_platform] obtain bs where
    bs: "mset (concat bs) = mset [0..<2]" "batches_ok (map info_hash [?f 16, ?f 32]) bs"
      "getFileAndLine bare_platform 2 0 [?f 16, ?f 32] d = lookup_batches bare_platform bs [?f 16, ?f 32] d"
    by auto
  have len: "length b \<le> 114" if "b \<in> set bs" for b
  proof -
    have "mset b \<subseteq># mset (concat bs)" using that by (induction bs) (auto intro: subset_mset.order_trans)
    from size_mset_mono [OF this] show ?thesis unfolding bs(1) by simp
  qed
  have "set (concat bs) = set [0..<2]" using bs(1) by (metis set_mset_mset)
  then have "getFileAndLine bare_platform 2 0 [?f 16, ?f 32] d = Inr ([?f 16, ?f 32], d)"
    unfolding bs(3) using bs(2) d len
    by (intro bare_lookup_batches [of "map info_hash [?f 16, ?f 32]"]) (auto simp: stack_info_clear_def)
  then show ?thesis using ea by (simp add: getStackInfo2_def d_def [symmetric] numeral_2_eq_2)
qed

theorem getAllCallStacks_counts_witness:
  "\<exists>t st. getAllCallStacks bare_platform (\<lambda>tid buffer. (1, buffer[0 := tid])) [16, 32, 16 :: 64 word]
      (\<lparr>sc_loaded = True, sc_data = []\<rparr>, \<lambda>_. SIG_IGN) = Inr (t, st) \<and> ms_N t = 3"
proof -
  let ?bt = "\<lambda>tid buffer. (1 :: nat, buffer[0 := tid]) :: nat \<times> 64 word list"
  let ?st = "(\<lparr>sc_loaded = True, sc_data = []\<rparr>, \<lambda>_. SIG_IGN) :: resolver_state"
  have bt: "map (backtrace ?bt) [16, 32, 16] = [[16], [32], [16]]"
  proof -
    have one: "xs \<noteq> [] \<Longrightarrow> take (Suc 0) (xs[0 := x]) = [x]" for xs :: "64 word list" and x by (cases xs) simp_all
    have "backtrace ?bt tid = [tid]" for tid
      using one [of "replicate 1000 0" tid] by (simp add: backtrace_def resize_vec_def)
    then show ?thesis by simp
  qed
  have as: "collect_addresses [[16], [32], [16]] = [16, 32]" by (simp add: collect_addresses_def)
  obtain t st where r: "getAllCallStacks bare_platform ?bt [16, 32, 16] ?st = Inr (t, st)"
    unfolding getAllCallStacks_def generateMultiStack_threads_def bt generateMultiStack_def generateStacks_def as
      getStackInfo_many_def Let_def bare_getStackInfo2 by simp
  obtain c d' where st: "st = (c, d')" by (cases st)
  from getAllCallStacks_counts [OF r [unfolded st]] have "ms_N t = 3" by auto
  with r show ?thesis by blast
qed

section \<open>Well-formed frames\<close>

lemma stripPath_loop_before_NUL:
  "stripPath_loop s f = f \<or> (suffix (stripPath_loop s f) s \<and> length s - length (stripPath_loop s f) \<le> length (cstr s)
    \<and> stripPath_loop s f \<noteq> s)"
proof (induction s arbitrary: f)
  case (Cons c s)
  show ?case
  proof (cases "c = NUL")
    case False
    then have l: "length (cstr (c # s)) = Suc (length (cstr s))" by (simp add: cstr_def)
    have ge: "suffix x s \<Longrightarrow> length (c # s) - length x = Suc (length s - length x) \<and> x \<noteq> c # s" for x
      using suffix_length_le [of x s] by auto
    show ?thesis
    proof (cases "is_sep c")
      case True
      with Cons.IH [of s] False l ge [of s] ge [of "stripPath_loop s s"] show ?thesis by (auto simp: suffix_Cons)
    next
      case sep: False
      with Cons.IH [of f] False l ge [of "stripPath_loop s f"] show ?thesis by (auto simp: suffix_Cons)
    qed
  qed simp
qed simp

lemma copy_path_wf:
  assumes "4 \<le> n2" "4 \<le> n3" "copy_path (Some x) n2 n3 = (a, b)"
  shows "length a = n2 \<and> terminated a \<and> length b = n3 \<and> terminated b"
proof -
  let ?p = "stripPath_loop x x"
  have a: "a = copy_ptr (Some ?p) n2"
    and b: "b = (if length ?p \<noteq> length x then copy_n x (length x - length ?p - 1) n3 else replicate n3 NUL)"
    using assms(3) by (auto simp: copy_path_def stripPath_def Let_def split: if_splits)
  have "length b = n3 \<and> terminated b"
  proof (cases "length ?p = length x")
    case True
    then show ?thesis using assms(2) b by (simp add: terminated_def)
  next
    case False
    then have "length x - length ?p - 1 \<le> length (cstr x)" using stripPath_loop_before_NUL [of x x] by auto
    from copy_n_cstr [OF this assms(2)] False b show ?thesis by simp
  qed
  with a copy_ptr_secure [OF assms(1)] show ?thesis by simp
qed

lemma wf_info_updates [wf_frame]:
  "wf_info s \<Longrightarrow> copy_path (Some x) 56 48 = (a, b) \<Longrightarrow> wf_info (s\<lparr>si_object := a, si_objectPath := b\<rparr>)"
  "wf_info s \<Longrightarrow> copy_path (Some x) 64 64 = (a, b) \<Longrightarrow> wf_info (s\<lparr>si_filename := a, si_filenamePath := b, si_line := l\<rparr>)"
  "wf_info s \<Longrightarrow> wf_info (s\<lparr>si_function := copy_ptr (Some x) 256\<rparr>)"
  "wf_info s \<Longrightarrow> wf_info (s\<lparr>si_function := copy_array x 256\<rparr>)"
  "wf_info s \<Longrightarrow> wf_info (s\<lparr>si_object := copy_array x 56, si_objectPath := copy_array y 48\<rparr>)"
  "wf_info s \<Longrightarrow> wf_info (s\<lparr>si_address := w\<rparr>)" "wf_info s \<Longrightarrow> wf_info (s\<lparr>si_address2 := w\<rparr>)"
proof -
  note fields = wf_info_def wf_sizes_def
  show "wf_info s \<Longrightarrow> copy_path (Some x) 56 48 = (a, b) \<Longrightarrow> wf_info (s\<lparr>si_object := a, si_objectPath := b\<rparr>)"
    by (drule copy_path_wf [rotated 2]) (simp_all add: fields)
  show "wf_info s \<Longrightarrow> copy_path (Some x) 64 64 = (a, b) \<Longrightarrow> wf_info (s\<lparr>si_filename := a, si_filenamePath := b, si_line := l\<rparr>)"
    by (drule copy_path_wf [rotated 2]) (simp_all add: fields)
  show "wf_info s \<Longrightarrow> wf_info (s\<lparr>si_function := copy_ptr (Some x) 256\<rparr>)"
    by (simp add: fields copy_ptr_secure)
  show "wf_info s \<Longrightarrow> wf_info (s\<lparr>si_function := copy_array x 256\<rparr>)"
    by (simp add: fields copy_array_spec)
  show "wf_info s \<Longrightarrow> wf_info (s\<lparr>si_object := copy_array x 56, si_objectPath := copy_array y 48\<rparr>)"
    by (simp add: fields copy_array_spec)
qed (simp_all add: wf_info_def wf_sizes_def)

lemma file_line_wf [wf_frame]: "wf_info s \<Longrightarrow> file_line buf s = Inr s' \<Longrightarrow> wf_info s'"
  unfolding file_line_def Let_def
  by (auto intro: wf_frame split: if_splits option.splits prod.split_asm)

lemma apply_rows_wf [wf_frame]: "wf_info s \<Longrightarrow> apply_rows rows s = Inr s' \<Longrightarrow> wf_info s'"
  by (auto simp: apply_rows_def bindR_Inr_iff intro: wf_frame split: if_splits)

lemma lookup_batches_wf:
  assumes "lookup_batches pf bs info d = Inr (info', d')" "\<forall>p \<in> set (concat bs). p < length info" "list_all wf_info info"
  shows "list_all wf_info info'"
proof -
  have add: "add_results outp ps i = Inr i' \<Longrightarrow> \<forall>p \<in> set ps. p < length i \<Longrightarrow> list_all wf_info i \<Longrightarrow>
      list_all wf_info i' \<and> length i' = length i" for outp ps i i'
  proof (induction ps arbitrary: outp i)
    case (Cons p ps)
    then obtain s where s: "apply_rows (take 4 outp) (i ! p) = Inr s" "add_results (drop 4 outp) ps (i[p := s]) = Inr i'"
      by (auto simp: bindR_Inr_iff)
    have "wf_info (i ! p)" using Cons.prems(2,3) unfolding list_all_iff by simp
    then have "wf_info s" by (rule apply_rows_wf [OF _ s(1)])
    then have "list_all wf_info (i[p := s])"
      using Cons.prems(3) set_update_subset_insert [of i p s] unfolding list_all_iff by blast
    from Cons.IH [OF s(2) _ this] Cons.prems(2) show ?case by simp
  qed simp
  have batch: "lookup_batch pf b i d = Inr (i', d') \<Longrightarrow> \<forall>p \<in> set b. p < length i \<Longrightarrow> list_all wf_info i \<Longrightarrow>
      list_all wf_info i' \<and> length i' = length i" for b i i' d d'
  proof (cases "b = []")
    case False
    moreover assume "lookup_batch pf b i d = Inr (i', d')" "\<forall>p \<in> set b. p < length i" "list_all wf_info i"
    ultimately show ?thesis by (auto simp: lookup_batch_def bindR_Inr_iff dest: add split: if_splits)
  qed (simp add: lookup_batch_def)
  show ?thesis
    using assms
  proof (induction bs arbitrary: info d)
    case (Cons b bs)
    then obtain i1 d1 where 1: "lookup_batch pf b info d = Inr (i1, d1)" "lookup_batches pf bs i1 d1 = Inr (info', d')"
      by (auto simp: bindR_Inr_iff)
    from batch [OF 1(1)] Cons.prems(2,3) have i1: "list_all wf_info i1" "length i1 = length info" by simp_all
    have "\<forall>p \<in> set (concat bs). p < length i1" unfolding i1(2) using Cons.prems(2) by simp
    from Cons.IH [OF 1(2) this i1(1)] show ?case .
  qed simp
qed

lemma set_function_wf [wf_frame]:
  "wf_info i \<Longrightarrow> set_demangled pf n i = Inr i' \<Longrightarrow> wf_info i'"
  "wf_info i \<Longrightarrow> set_plain n i = Inr i' \<Longrightarrow> wf_info i'"
  by (auto simp: set_demangled_def set_plain_def bindR_Inr_iff intro: wf_frame split: option.splits if_splits)

lemma getStackInfo_wf:
  assumes "getStackInfo pf info st = Inr (info', st')" "wf_info info"
  shows "wf_info info'"
proof (cases "pf_dladdr pf (si_address info)")
  case None
  with assms(1) have "getDataFromGlobalSymbols (getSymbolData (pf_popen pf) (pf_exe pf)) (pf_exe pf) info st = Inr (info', st')"
    by (simp add: getStackInfo_def)
  then show ?thesis
    unfolding getDataFromGlobalSymbols_def bindR_Inr_iff
    using assms(2) by (auto simp: Let_def intro: wf_frame split: if_splits option.splits prod.split_asm)
next
  case (Some dl)
  obtain obj objPath where cp: "copy_path (Some (dli_fname dl)) 56 48 = (obj, objPath)" by fastforce
  have "wf_info (info\<lparr>si_address2 := w, si_object := obj, si_objectPath := objPath\<rparr>)" for w
    using wf_info_updates(1) [OF wf_info_updates(7) [OF assms(2), of w] cp] by simp
  with Some cp assms(1) show ?thesis
    unfolding getStackInfo_def by (auto simp: bindR_Inr_iff Let_def intro: set_function_wf)
qed

lemma each_address_wf: "each_address pf as st = Inr (info, st') \<Longrightarrow> list_all wf_info info"
proof (induction as arbitrary: st info)
  case (Cons a as)
  then obtain i1 st1 rest where 1: "getStackInfo pf (stack_info_clear\<lparr>si_address := a\<rparr>) st = Inr (i1, st1)"
    "each_address pf as st1 = Inr (rest, st')" "info = i1 # rest"
    by (auto simp: bindR_Inr_iff)
  from getStackInfo_wf [OF 1(1)] Cons.IH [OF 1(2)] 1(3) show ?case by (simp add: wf_info_updates)
qed simp

lemma getStackInfo2_wf:
  assumes "getStackInfo2 pf address (cache, d) = Inr (info, cache', d')"
  shows "list_all wf_info info \<and> map si_address info = address \<and> d' SIGINT = d SIGINT"
proof -
  from assms obtain i1 d1 d2 where 1: "each_address pf address (cache, os_signal SIGINT StackInfoHandler d) = Inr (i1, cache', d1)"
    "getFileAndLine pf (length address) 0 i1 d1 = Inr (info, d2)"
    by (auto simp: getStackInfo2_def bindR_Inr_iff Let_def)
  have len: "length i1 = length address" using each_address_addresses [OF 1(1)] by auto
  from getFileAndLine_batches [of "length address" "map info_hash i1" 0 pf] len obtain bs where
    bs: "mset (concat bs) = mset [0..<length address]" "getFileAndLine pf (length address) 0 i1 d1 = lookup_batches pf bs i1 d1" by auto
  have "set (concat bs) = set [0..<length address]" using bs(1) by (metis set_mset_mset)
  then have "list_all wf_info info"
    using 1(2) bs(2) len each_address_wf [OF 1(1)] by (intro lookup_batches_wf [of pf bs i1 d1 info d2]) auto
  with getStackInfo2_addresses [OF assms] show ?thesis by simp
qed

text \<open>
  Property C18: whatever the platform answers, the resolved frames are well-formed: every array has its size and is
  terminated, so that printing and serialising them is safe; frame by frame they belong to the given
  addresses, and the handler of \<open>SIGINT\<close> is restored.
\<close>

theorem resolved_frames_wf:
  assumes "getStackInfo2 pf address (cache, d) = Inr (info, cache', d')"
  shows "list_all wf_info info \<and> map si_address info = address \<and> d' SIGINT = d SIGINT"
  by (rule getStackInfo2_wf [OF assms])

theorem resolved_frames_wf_witness:
  "\<exists>info st. getStackInfo2 bare_platform [16, 32] (\<lparr>sc_loaded = True, sc_data = []\<rparr>, \<lambda>_. SIG_IGN) = Inr (info, st)
    \<and> list_all wf_info info \<and> map si_address info = [16, 32]"
  by (intro exI conjI, rule bare_getStackInfo2) (use resolved_frames_wf [OF bare_getStackInfo2] in simp_all)

text \<open>The tree of all threads is consistent: it can be packed, whatever the platform answers.\<close>

lemma generateStacks_wf:
  assumes "generateStacks pf trace (cache, d) = Inr (stacks, cache', d')"
  shows "\<forall>q \<in> set stacks. \<forall>s \<in> set q. wf_info s"
proof -
  let ?as = "collect_addresses trace"
  from assms obtain data where 1: "getStackInfo2 pf ?as (cache, d) = Inr (data, cache', d')"
    "stacks = map (map (\<lambda>ptr. data ! nat (find_from 0 ?as ptr))) trace"
    by (auto simp: generateStacks_def getStackInfo_many_def bindR_Inr_iff Let_def)
  from getStackInfo2_wf [OF 1(1)] have wf: "\<forall>s \<in> set data. wf_info s" and as: "map si_address data = ?as"
    unfolding list_all_iff by auto
  have len: "length data = length ?as" using as by (metis length_map)
  have "wf_info (data ! nat (find_from 0 ?as x))" if "x \<in> set (concat trace)" for x
  proof -
    have x: "x \<in> set ?as" using that collect_addresses_spec [of trace] by simp
    from index_of_nth [OF x] have "index_of x ?as < length data" unfolding len by simp
    with wf x show ?thesis by (simp add: find_from_spec)
  qed
  with 1(2) show ?thesis by auto
qed

lemma generateMultiStack_consistent:
  assumes "generateMultiStack pf trace (cache, d) = Inr (t, st')"
  shows "ms_consistent t \<and> ms_N t = int (length trace) \<and> ms_stack t = stack_info_clear"
proof -
  obtain cache' d' where st': "st' = (cache', d')" by (cases st')
  from assms obtain stacks where 1: "generateStacks pf trace (cache, d) = Inr (stacks, cache', d')"
    "t = fold (\<lambda>q. ms_add (length q) q) stacks (MSI (0 + int (length stacks)) stack_info_clear [])"
    by (auto simp: generateMultiStack_def bindR_Inr_iff ms_empty_tree_def st')
  from generateStacks_frames [OF 1(1)] have len: "length stacks = length trace" by auto
  have "ms_consistent (MSI 0 stack_info_clear [])" by simp
  moreover have "\<forall>q \<in> set stacks. \<forall>s \<in> set q. wf_sizes s"
    using generateStacks_wf [OF 1(1)] by (simp add: wf_info_def)
  ultimately have "ms_consistent t" unfolding 1(2) by (intro fold_add_consistent)
  with len show ?thesis by (simp add: 1(2) fold_ms_add_fields)
qed

end
