(* ===== verification/Resolver_Signals.thy ===== *)
theory Resolver_Signals
  imports Resolve
begin

text \<open>
  What the resolution of addresses leaves of the dispositions of the signals: \<open>SIGINT\<close> is restored, and the only
  trace is a \<open>SIGCHLD\<close> that stays ignored behind a command that could not be started. The requests for the
  stacks of other threads leave their own handler (\<open>backtrace_thread\<close>).
\<close>

section \<open>Commands\<close>

definition sigchld_only :: "(int \<Rightarrow> disposition) \<Rightarrow> (int \<Rightarrow> disposition) \<Rightarrow> bool" where
  "sigchld_only d d' \<longleftrightarrow> d' = d \<or> d' = d(SIGCHLD := SIG_IGN)"

lemma sigchld_only_refl [simp, intro]: "sigchld_only d d"
  by (simp add: sigchld_only_def)

lemma sigchld_only_trans: "sigchld_only d d1 \<Longrightarrow> sigchld_only d1 d2 \<Longrightarrow> sigchld_only d d2"
  by (auto simp: sigchld_only_def)

lemma exec2_signals: "exec2 popen cmd callback x d = Inr (y, d') \<Longrightarrow> sigchld_only d d'"
  by (auto simp: exec2_def Let_def os_signal_def SIGCHLD_catchable sigchld_only_def bindR_Inr_iff
      split: option.splits)

lemma exec2_into_signals: "exec2_into popen cmd v d = Inr (w, d') \<Longrightarrow> sigchld_only d d'"
  by (auto simp: exec2_into_def bindR_Inr_iff dest!: exec2_signals)

section \<open>Resolution\<close>

lemma lookup_batch_signals: "lookup_batch pf ps info d = Inr (info', d') \<Longrightarrow> sigchld_only d d'"
  by (auto simp: lookup_batch_def bindR_Inr_iff split: if_splits dest!: exec2_into_signals)

lemma lookup_batches_signals: "lookup_batches pf bs info d = Inr (info', d') \<Longrightarrow> sigchld_only d d'"
proof (induction bs arbitrary: info d)
  case (Cons b bs)
  then obtain info1 d1 where "lookup_batch pf b info d = Inr (info1, d1)" "lookup_batches pf bs info1 d1 = Inr (info', d')"
    by (auto simp: bindR_Inr_iff)
  then show ?case by (blast intro: sigchld_only_trans lookup_batch_signals Cons.IH)
qed simp

lemma getFileAndLine_signals:
  assumes "getFileAndLine pf N 0 info d = Inr (info', d')" "length info = N"
  shows "sigchld_only d d'"
proof -
  from getFileAndLine_batches [of N "map info_hash info" 0 pf] assms(2) obtain bs where
    "getFileAndLine pf N 0 info d = lookup_batches pf bs info d" by auto
  with assms(1) show ?thesis by (auto intro: lookup_batches_signals)
qed

lemma load_symbols_signals:
  assumes "load_symbols (getSymbolData popen exe) (cache, d) = Inr (cache', d')"
  shows "sigchld_only d d'"
proof (cases "sc_loaded cache")
  case False
  with assms show ?thesis by (auto simp: load_symbols_def getSymbolData_def bindR_Inr_iff dest!: exec2_signals)
qed (use assms in \<open>simp add: load_symbols_def\<close>)

lemma getStackInfo_signals:
  assumes "getStackInfo pf info (cache, d) = Inr (info', cache', d')"
  shows "sigchld_only d d'"
proof (cases "pf_dladdr pf (si_address info)")
  case None
  with assms have "getDataFromGlobalSymbols (getSymbolData (pf_popen pf) (pf_exe pf)) (pf_exe pf) info (cache, d)
      = Inr (info', cache', d')" by (simp add: getStackInfo_def)
  then obtain st where "load_symbols (getSymbolData (pf_popen pf) (pf_exe pf)) (cache, d) = Inr st" "st = (cache', d')"
    unfolding getDataFromGlobalSymbols_def bindR_Inr_iff
    by (auto simp: Let_def split: if_splits option.splits prod.splits)
  then show ?thesis by (auto intro: load_symbols_signals)
next
  case (Some dl)
  obtain obj objPath where "copy_path (Some (dli_fname dl)) 56 48 = (obj, objPath)" by fastforce
  with assms Some show ?thesis by (auto simp: getStackInfo_def bindR_Inr_iff Let_def)
qed

lemma each_address_signals: "each_address pf as (cache, d) = Inr (infos, cache', d') \<Longrightarrow> sigchld_only d d'"
proof (induction as arbitrary: cache d infos)
  case (Cons a as)
  then obtain info cache1 d1 rest where "getStackInfo pf (stack_info_clear\<lparr>si_address := a\<rparr>) (cache, d) = Inr (info, cache1, d1)"
    "each_address pf as (cache1, d1) = Inr (rest, cache', d')"
    by (auto simp: bindR_Inr_iff)
  then show ?case by (blast intro: sigchld_only_trans getStackInfo_signals Cons.IH)
qed simp

lemma getStackInfo2_signals:
  assumes "getStackInfo2 pf as (cache, d) = Inr (infos, cache', d')"
  shows "sigchld_only d d'"
proof -
  from assms obtain i1 d1 d2 where 1: "each_address pf as (cache, os_signal SIGINT StackInfoHandler d) = Inr (i1, cache', d1)"
    "getFileAndLine pf (length as) 0 i1 d1 = Inr (infos, d2)" "d' = os_signal SIGINT (d SIGINT) d2"
    by (auto simp: getStackInfo2_def bindR_Inr_iff Let_def)
  have "length i1 = length as" using each_address_addresses [OF 1(1)] by auto
  then have "sigchld_only (os_signal SIGINT StackInfoHandler d) d2"
    by (intro sigchld_only_trans [OF each_address_signals [OF 1(1)] getFileAndLine_signals [OF 1(2)]])
  moreover have "SIGINT \<noteq> SIGCHLD" by (simp add: SIGINT_def SIGCHLD_def)
  ultimately show ?thesis
    unfolding 1(3) by (auto simp: sigchld_only_def os_signal_def SIGINT_catchable fun_eq_iff)
qed

lemma generateMultiStack_signals:
  "generateMultiStack pf trace (cache, d) = Inr (t, cache', d') \<Longrightarrow> sigchld_only d d'"
  by (auto simp: generateMultiStack_def generateStacks_def getStackInfo_many_def bindR_Inr_iff Let_def
      dest!: getStackInfo2_signals)

section \<open>Requests for stacks\<close>

text \<open>
  \<open>backtrace_thread\<close> for each of the threads: for one that is not the current one the handler of the requests
  is installed, and nobody removes it.
\<close>

definition install_callstack_handler :: "'tid list \<Rightarrow> 'tid \<Rightarrow> (int \<Rightarrow> disposition) \<Rightarrow> (int \<Rightarrow> disposition)" where
  "install_callstack_handler threads self d =
     fold (\<lambda>tid d. if tid = self then d else os_signal get_thread_callstack_signal CallstackHandler d) threads d"

lemma callstack_signal: "get_thread_callstack_signal = 39" "catchable get_thread_callstack_signal"
  by (simp_all add: get_thread_callstack_signal_def catchable_def signal_numbers)

lemma install_callstack_handler_eq:
  "install_callstack_handler threads self d =
     (if \<exists>tid \<in> set threads. tid \<noteq> self then d(get_thread_callstack_signal := CallstackHandler) else d)"
proof (induction threads arbitrary: d)
  case (Cons tid threads)
  have "os_signal get_thread_callstack_signal CallstackHandler d = d(get_thread_callstack_signal := CallstackHandler)"
    by (simp add: os_signal_def callstack_signal(2))
  then show ?case
    using Cons.IH [of "if tid = self then d else d(get_thread_callstack_signal := CallstackHandler)"]
    by (auto simp: install_callstack_handler_def)
qed (simp add: install_callstack_handler_def)

section \<open>A platform that knows nothing\<close>

lemma bare_lookups:
  assumes "batches_ok hs bs" "\<forall>b \<in> set bs. length b \<le> 114" "\<forall>p \<in> set (concat bs). p < length info"
    "\<forall>s \<in> set info. si_object s = replicate 56 NUL \<and> si_objectPath s = replicate 48 NUL"
  shows "\<exists>d'. lookup_batches bare_platform bs info d = Inr (info, d')"
  using assms(1,2,3)
proof (induction bs arbitrary: d)
  case (Cons b bs)
  have b: "b \<noteq> []" "length b \<le> 114" "\<forall>p \<in> set b. p < length info" using Cons.prems by (auto simp: batches_ok_def)
  have "hd (map ((!) info) b) \<in> set info" using b(1,3) by (cases b) auto
  then have e: "cstr (si_object (hd (map ((!) info) b))) = []" "cstr (si_objectPath (hd (map ((!) info) b))) = []"
    using assms(4) by (simp_all add: cstr_all_NUL)
  obtain cmd where "addr2line_command ''addr2line'' (map ((!) info) b) = Inr cmd"
    using addr2line_command_fits [of "''addr2line''" "map ((!) info) b"] e b(2) by auto
  then have one: "lookup_batch bare_platform b info d = Inr (info, os_signal SIGCHLD SIG_IGN d)"
    using b(1) by (simp add: lookup_batch_def bare_platform_def exec2_into_def exec2_def Let_def sv_size_def sv_clear_def)
  have "batches_ok hs bs" using Cons.prems(1) batches_ok_append [of hs "[b]" bs] by simp
  with Cons.prems(2,3) obtain d' where
    "lookup_batches bare_platform bs info (os_signal SIGCHLD SIG_IGN d) = Inr (info, d')"
    using Cons.IH [of "os_signal SIGCHLD SIG_IGN d"] by auto
  with one show ?case by simp
qed simp

lemma bare_frames:
  assumes "length as \<le> 114"
  shows "\<exists>d'. getStackInfo2 bare_platform as (\<lparr>sc_loaded = True, sc_data = []\<rparr>, d)
    = Inr (map (\<lambda>a. stack_info_clear\<lparr>si_address := a\<rparr>) as, \<lparr>sc_loaded = True, sc_data = []\<rparr>, d')"
proof -
  let ?fs = "map (\<lambda>a. stack_info_clear\<lparr>si_address := a\<rparr>) as"
  let ?c = "\<lparr>sc_loaded = True, sc_data = []\<rparr>"
  let ?d = "os_signal SIGINT StackInfoHandler d"
  have ea: "each_address bare_platform as (?c, ?d) = Inr (?fs, ?c, ?d)"
    by (induction as) (simp_all add: getStackInfo_def bare_platform_def getDataFromGlobalSymbols_def load_symbols_def Let_def)
  from getFileAndLine_batches [of "length as" "map info_hash ?fs" 0 bare_platform] obtain bs where
    bs: "mset (concat bs) = mset [0..<length as]" "batches_ok (map info_hash ?fs) bs"
      "getFileAndLine bare_platform (length as) 0 ?fs ?d = lookup_batches bare_platform bs ?fs ?d"
    by auto
  have len: "length b \<le> 114" if "b \<in> set bs" for b
  proof -
    have "mset b \<subseteq># mset (concat bs)" using that by (induction bs) (auto intro: subset_mset.order_trans)
    from size_mset_mono [OF this] show ?thesis using assms unfolding bs(1) by simp
  qed
  have set: "set (concat bs) = set [0..<length as]" using bs(1) by (metis set_mset_mset)
  have "\<exists>d'. lookup_batches bare_platform bs ?fs ?d = Inr (?fs, d')"
  proof (rule bare_lookups [OF bs(2)])
    show "\<forall>p \<in> set (concat bs). p < length ?fs" unfolding set by simp
  qed (use len in \<open>auto simp: stack_info_clear_def\<close>)
  with ea bs(3) show ?thesis by (auto simp: getStackInfo2_def Let_def)
qed

end
