(* ===== verification/Abort.thy ===== *)
theory Abort
  imports Resolver_Signals Cleanup
begin

text \<open>
  Errors and the end of the program: \<open>abort_error\<close> with its message (\<open>what\<close>), the conversion of an
  exception into one (\<open>rethrow\<close>), the handlers for signals, for \<open>std::terminate\<close> and for MPI with their
  installation and removal (\<open>setErrorHandler\<close>, \<open>clearErrorHandler\<close>, \<open>setMPIErrorHandler\<close>,
  \<open>clearMPIErrorHandler\<close>), and \<open>abort\<close> and \<open>terminate\<close> of \<open>Utilities.cpp\<close>.
\<close>

section \<open>The error\<close>

datatype terminateType = Signal | Exception | Abort | MPI | Unknown

text \<open>The values of the enumeration are numbered, and ordered, as they are declared.\<close>

primrec terminateType_value :: "terminateType \<Rightarrow> nat" where
  "terminateType_value Signal = 0"
| "terminateType_value Exception = 1"
| "terminateType_value Abort = 2"
| "terminateType_value MPI = 3"
| "terminateType_value Unknown = 4"

instantiation terminateType :: linorder
begin

definition less_eq_terminateType :: "terminateType \<Rightarrow> terminateType \<Rightarrow> bool" where
  "a \<le> b \<longleftrightarrow> terminateType_value a \<le> terminateType_value b"

definition less_terminateType :: "terminateType \<Rightarrow> terminateType \<Rightarrow> bool" where
  "a < b \<longleftrightarrow> terminateType_value a < terminateType_value b"

instance
proof
  fix a b :: terminateType
  show "a \<le> b \<Longrightarrow> b \<le> a \<Longrightarrow> a = b" by (cases a; cases b) (simp_all add: less_eq_terminateType_def)
qed (auto simp: less_eq_terminateType_def less_terminateType_def)

end

text \<open>
  The enumeration has four values; \<open>setAbortBehavior\<close> casts any integer to its underlying 8-bit type.
\<close>

datatype printStackType = Local | Threaded | Global | NoStack | OtherStack "8 word"

definition printStackType_of_int :: "int \<Rightarrow> printStackType" where
  "printStackType_of_int i =
     (let b = word_of_int i :: 8 word
      in if b = 0 then NoStack else if b = 1 then Local else if b = 2 then Threaded
         else if b = 3 then Global else OtherStack b)"

record abort_error =
  ae_message :: cstring
  ae_file :: cstring
  ae_source_line :: "32 word"
  ae_type :: terminateType
  ae_stackType :: printStackType
  ae_signal :: "8 word"
  ae_bytes :: "64 word"
  ae_stack :: "64 word list"

text \<open>The constructor; a default \<open>source_location\<close> has an empty file name and line 0.\<close>

definition abort_error_new :: abort_error where
  "abort_error_new =
     \<lparr>ae_message = [], ae_file = [], ae_source_line = 0, ae_type = Unknown, ae_stackType = Local,
      ae_signal = 0, ae_bytes = 0, ae_stack = []\<rparr>"

section \<open>The message\<close>

abbreviation newline :: cstring where
  "newline \<equiv> [CHR 0x0A]"

definition what_reason :: "abort_error \<Rightarrow> cstring" where
  "what_reason err =
     (if ae_type err = Abort then ''Program abort called''
      else if ae_type err = Signal then ''Unhandled signal ('' @ dec_str (unat (ae_signal err)) @ '') caught''
      else if ae_type err = Exception then ''Unhandled exception caught''
      else if ae_type err = MPI then ''Error calling MPI routine''
      else ''Unknown error called'')"

definition what_source :: "abort_error \<Rightarrow> cstring" where
  "what_source err =
     (if ae_file err \<noteq> []
      then '' in file '' @ [CHR 0x27] @ ae_file err @ [CHR 0x27] @
           (if 0 < ae_source_line err then '' at line '' @ dec_str (unat (ae_source_line err)) else [])
      else [])"

definition what_head :: "abort_error \<Rightarrow> cstring" where
  "what_head err =
     what_reason err @ what_source err @ '':'' @ newline @ ''   '' @ ae_message err @ newline @
     (if 0 < ae_bytes err then ''Bytes used = '' @ dec_str (unat (ae_bytes err)) @ newline else [])"

text \<open>The frames of the local stack, each formatted into \<open>txt[1000]\<close> and appended as a C string.\<close>

fun what_frames :: "stack_info list \<Rightarrow> cstring result" where
  "what_frames [] = Inr []"
| "what_frames (item # items) =
     (if \<not> keep item then what_frames items
      else let txt = print2 item 16 20 32
           in if 1000 \<le> length txt then Inl OutOfBounds
              else bindR (what_frames items) (\<lambda>rest. Inr ('' '' @ newline @ txt @ rest)))"

text \<open>
  \<open>threads\<close> are the registered threads, \<open>self\<close> is the calling one, \<open>remote\<close> is what
  \<open>getRemoteCallStacks()\<close> returns. Asking another thread for its stack installs the handler of these requests.
\<close>

definition what_stack ::
    "platform \<Rightarrow> 'tid backtracer \<Rightarrow> 'tid list \<Rightarrow> 'tid \<Rightarrow> multi_stack_info \<Rightarrow> abort_error \<Rightarrow> resolver_state
      \<Rightarrow> (cstring \<times> resolver_state) result" where
  "what_stack pf bt threads self remote err st =
     (if ae_stack err \<noteq> [] \<and> ae_stackType err \<noteq> NoStack
      then bindR
        (if ae_stackType err = Local
         then bindR (getStackInfo_many pf (ae_stack err) st) (\<lambda>(infos, st').
              bindR (what_frames infos) (\<lambda>txt. Inr (txt, st')))
         else if ae_stackType err = Threaded \<or> ae_stackType err = Global
         then let others = erase_value threads self;
                  trace = ae_stack err # map (backtrace bt) others
              in bindR (generateMultiStack pf trace (fst st, install_callstack_handler others self (snd st))) (\<lambda>(multistack, st').
                 bindR (cleanupStackTrace
                          (if ae_stackType err = Global then ms_merge multistack remote else multistack)) (\<lambda>multistack.
                 bindR (ms_printString multistack '' '') (\<lambda>txt. Inr (txt, st'))))
         else Inr (''Unknown value for stackType'' @ newline, st))
        (\<lambda>(txt, st'). Inr (''Stack Trace:'' @ newline @ txt, st'))
      else Inr ([], st))"

text \<open>The loop that erases NULs: behind an erased character the next one is skipped.\<close>

function erase_nuls :: "nat \<Rightarrow> cstring \<Rightarrow> cstring" where
  "erase_nuls i s =
     (if i < length s
      then erase_nuls (Suc i) (if s ! i = NUL then take i s @ drop (Suc i) s else s)
      else s)"
  by pat_completeness auto
termination
  by (relation "measure (\<lambda>(i, s). length s - i)") auto

declare erase_nuls.simps [simp del]

text \<open>What the caller sees is the C string in the buffer of \<open>d_msg\<close>.\<close>

definition what ::
    "platform \<Rightarrow> 'tid backtracer \<Rightarrow> 'tid list \<Rightarrow> 'tid \<Rightarrow> multi_stack_info \<Rightarrow> abort_error \<Rightarrow> resolver_state
      \<Rightarrow> (cstring \<times> resolver_state) result" where
  "what pf bt threads self remote err st =
     bindR (what_stack pf bt threads self remote err st) (\<lambda>(txt, st').
       Inr (cstr (erase_nuls 0 (what_head err @ txt)), st'))"

section \<open>Exceptions\<close>

text \<open>The exception that is being handled when the terminate handler runs.\<close>

datatype active_exception =
    NoException
  | AbortError abort_error
  | StdException cstring
  | OtherException

text \<open>
  \<open>rethrow\<close>: the flag is the static \<open>tried_throw\<close>. \<open>throw;\<close> without an active exception calls
  \<open>std::terminate\<close>, which is \<open>None\<close>. \<open>bytes\<close> and \<open>trace\<close> are what \<open>getMemoryUsage\<close> and
  \<open>backtrace\<close> return.
\<close>

definition complete_error :: "64 word \<Rightarrow> 64 word list \<Rightarrow> abort_error \<Rightarrow> abort_error" where
  "complete_error bytes trace e0 =
     (let e1 = (if ae_type e0 = Unknown then e0\<lparr>ae_type := Exception\<rparr> else e0);
          e2 = (if ae_bytes e1 = 0 then e1\<lparr>ae_bytes := bytes\<rparr> else e1)
      in if ae_stack e2 = [] then e2\<lparr>ae_stackType := Local, ae_stack := trace\<rparr> else e2)"

definition rethrow ::
    "64 word \<Rightarrow> 64 word list \<Rightarrow> active_exception \<Rightarrow> bool \<Rightarrow> abort_error option \<times> bool" where
  "rethrow bytes trace active tried_throw =
     (let caught = (if \<not> tried_throw
                    then (case active of
                            NoException \<Rightarrow> None
                          | AbortError err \<Rightarrow> Some err
                          | StdException txt \<Rightarrow> Some (abort_error_new\<lparr>ae_message := txt\<rparr>)
                          | OtherException \<Rightarrow> Some (abort_error_new\<lparr>ae_message := ''Unknown exception''\<rparr>))
                    else Some abort_error_new)
      in (map_option (complete_error bytes trace) caught, True))"

section \<open>Handlers\<close>

datatype abort_function =
    NoFunction
  | IgnoreError
  | CallTerminate
  | UserFunction nat

datatype terminate_handler =
    DefaultTerminate
  | TermFunc
  | NullTermFunc

datatype mpi_comm = MPI_COMM_WORLD | MPI_COMM_SELF | OtherComm nat

datatype mpi_errhandler = MPI_ERRORS_ARE_FATAL | AbortErrhandler | OtherErrhandler nat

text \<open>
  The globals: \<open>abort_fun\<close>, the terminate handler, the signals, \<open>tried_throw\<close>; the pointer
  \<open>mpierr\<close>, the error handlers of the communicators and whether MPI is running; the default stack
  type, \<open>abort_throwException\<close>, \<open>force_exit\<close>, the mutex of \<open>terminate\<close>, and what was written to \<open>perr\<close>.
\<close>

record error_state =
  es_abort_fun :: abort_function
  es_terminate :: terminate_handler
  es_signals :: signal_state
  es_tried_throw :: bool
  es_mpierr :: bool
  es_mpi_handler :: "mpi_comm \<Rightarrow> mpi_errhandler"
  es_mpi_running :: bool
  es_stackType :: printStackType
  es_throwException :: bool
  es_force_exit :: int
  es_locked :: bool
  es_perr :: "cstring list"

text \<open>MPI is in use between its initialisation and its end.\<close>

definition MPI_Initialized :: "int \<Rightarrow> int \<Rightarrow> bool" where
  "MPI_Initialized initialized finalized \<longleftrightarrow> initialized \<noteq> 0 \<and> finalized = 0"

definition error_state0 :: "(int \<Rightarrow> disposition) \<Rightarrow> bool \<Rightarrow> error_state" where
  "error_state0 d mpi =
     \<lparr>es_abort_fun = NoFunction, es_terminate = DefaultTerminate, es_signals = signal_state0 d,
      es_tried_throw = False, es_mpierr = False, es_mpi_handler = (\<lambda>_. MPI_ERRORS_ARE_FATAL), es_mpi_running = mpi,
      es_stackType = Global, es_throwException = False, es_force_exit = 0, es_locked = False, es_perr = []\<rparr>"

definition setDefaultStackType :: "printStackType \<Rightarrow> error_state \<Rightarrow> error_state" where
  "setDefaultStackType t s = s\<lparr>es_stackType := t\<rparr>"

definition getDefaultStackType :: "error_state \<Rightarrow> printStackType" where
  "getDefaultStackType s = es_stackType s"

definition setErrorHandler :: "abort_function \<Rightarrow> int list \<Rightarrow> error_state \<Rightarrow> error_state result" where
  "setErrorHandler abort signals s =
     bindR (setSignals signals TerminateHandler (es_signals s))
       (\<lambda>sg. Inr (s\<lparr>es_abort_fun := abort, es_terminate := TermFunc, es_signals := sg\<rparr>))"

definition clearErrorHandler :: "error_state \<Rightarrow> error_state" where
  "clearErrorHandler s =
     s\<lparr>es_abort_fun := IgnoreError, es_terminate := NullTermFunc, es_signals := clearSignals (es_signals s)\<rparr>"

text \<open>What the signal handler passes to \<open>abort_fun\<close>.\<close>

definition terminateFunctionSignal :: "64 word \<Rightarrow> 64 word list \<Rightarrow> int \<Rightarrow> error_state \<Rightarrow> abort_error" where
  "terminateFunctionSignal bytes trace sig s =
     abort_error_new\<lparr>ae_type := Signal, ae_signal := word_of_int sig, ae_bytes := bytes, ae_stack := trace,
       ae_stackType := getDefaultStackType s\<rparr>"

text \<open>
  The terminate handler: the error it passes to \<open>abort_fun\<close> and the state then. When the rethrow has
  called \<open>std::terminate\<close>, the handler runs again.
\<close>

function term_func :: "64 word \<Rightarrow> 64 word list \<Rightarrow> active_exception \<Rightarrow> error_state \<Rightarrow> abort_error \<times> error_state" where
  "term_func bytes trace active s =
     (case rethrow bytes trace active (es_tried_throw s) of
        (Some err, tried) \<Rightarrow> (err, s\<lparr>es_tried_throw := tried, es_signals := clearSignals (es_signals s)\<rparr>)
      | (None, tried) \<Rightarrow> term_func bytes trace active (s\<lparr>es_tried_throw := tried\<rparr>))"
  by pat_completeness auto
termination
  by (relation "measure (\<lambda>(b, t, a, s). if es_tried_throw s then 0 else 1)")
     (auto simp: rethrow_def Let_def split: if_splits)

declare term_func.simps [simp del]

section \<open>MPI errors\<close>

definition setMPIErrorHandler :: "mpi_comm \<Rightarrow> error_state \<Rightarrow> error_state" where
  "setMPIErrorHandler comm s =
     (if \<not> es_mpi_running s then s
      else s\<lparr>es_mpierr := True, es_mpi_handler := (es_mpi_handler s)(comm := AbortErrhandler)\<rparr>)"

definition clearMPIErrorHandler :: "mpi_comm \<Rightarrow> error_state \<Rightarrow> error_state" where
  "clearMPIErrorHandler comm s =
     (if \<not> es_mpi_running s then s
      else s\<lparr>es_mpierr := False, es_mpi_handler := (es_mpi_handler s)(comm := MPI_ERRORS_ARE_FATAL)\<rparr>)"

text \<open>
  The error of the MPI handler, or \<open>None\<close> when it exits because the communicator itself is invalid;
  \<open>text_of\<close> is \<open>MPI_Error_string\<close>, which fills at most \<open>MPI_MAX_ERROR_STRING\<close> characters of \<open>message[1000]\<close>.
\<close>

definition MPI_error_handler_fun ::
    "int \<Rightarrow> (int \<Rightarrow> cstring) \<Rightarrow> 64 word \<Rightarrow> 64 word list \<Rightarrow> mpi_comm \<Rightarrow> int \<Rightarrow> abort_error option result" where
  "MPI_error_handler_fun MPI_ERR_COMM text_of bytes trace comm err =
     (if err = MPI_ERR_COMM \<and> comm = MPI_COMM_WORLD then Inr None
      else if 1000 \<le> length (text_of err) then Inl OutOfBounds
      else Inr (Some (abort_error_new\<lparr>ae_message := cstr (text_of err), ae_type := MPI, ae_bytes := bytes,
             ae_stack := trace, ae_stackType := Global\<rparr>)))"

section \<open>Abort and terminate\<close>

definition setAbortBehavior :: "bool \<Rightarrow> int \<Rightarrow> error_state \<Rightarrow> error_state" where
  "setAbortBehavior throwException stackType s =
     setDefaultStackType (printStackType_of_int stackType) (s\<lparr>es_throwException := throwException\<rparr>)"

text \<open>The error that \<open>abort\<close> throws.\<close>

definition abort_with :: "64 word \<Rightarrow> 64 word list \<Rightarrow> cstring \<Rightarrow> cstring \<Rightarrow> 32 word \<Rightarrow> error_state \<Rightarrow> abort_error" where
  "abort_with bytes trace message file line s =
     abort_error_new\<lparr>ae_message := message, ae_file := file, ae_source_line := line, ae_type := Abort,
       ae_bytes := bytes, ae_stackType := getDefaultStackType s, ae_stack := trace\<rparr>"

text \<open>
  How \<open>terminate\<close> ends: through \<open>std::abort\<close> or through \<open>MPI_Abort\<close>, in the given state. \<open>None\<close> is a thread
  that waits for the mutex.
\<close>

datatype ending = StdAbort error_state | MPIAbort error_state

definition callAbort :: "error_state \<Rightarrow> ending" where
  "callAbort s = StdAbort (s\<lparr>es_locked := False\<rparr>)"

text \<open>
  The report that \<open>err.what()\<close> makes in a state of the program: it reads and leaves the dispositions of the signals.
\<close>

type_synonym reporter = "error_state \<Rightarrow> (cstring \<times> symbols_cache \<times> error_state) result"

definition what_report ::
    "platform \<Rightarrow> 'tid backtracer \<Rightarrow> 'tid list \<Rightarrow> 'tid \<Rightarrow> multi_stack_info \<Rightarrow> abort_error \<Rightarrow> symbols_cache \<Rightarrow> reporter" where
  "what_report pf bt threads self remote err cache s =
     bindR (what pf bt threads self remote err (cache, sg_disp (es_signals s))) (\<lambda>(txt, cache', d).
       Inr (txt, cache', s\<lparr>es_signals := (es_signals s)\<lparr>sg_disp := d\<rparr>\<rparr>))"

definition print_error :: "cstring \<Rightarrow> error_state \<Rightarrow> error_state" where
  "print_error txt s = s\<lparr>es_perr := es_perr s @ [txt]\<rparr>"

definition terminate :: "reporter \<Rightarrow> error_state \<Rightarrow> ending option result" where
  "terminate report s =
     (if es_locked s then Inr None
      else let s1 = clearErrorHandler (s\<lparr>es_locked := True\<rparr>)
           in if 1 < es_force_exit s1 then Inr (Some (callAbort s1))
              else if \<not> es_throwException s1
              then bindR (report (s1\<lparr>es_force_exit := 2\<rparr>)) (\<lambda>(txt, cache, s2).
                   let s3 = print_error txt s2
                   in Inr (Some (if es_mpi_running s3 then MPIAbort (clearMPIErrorHandler MPI_COMM_WORLD s3)
                                 else callAbort s3)))
              else bindR (report s1) (\<lambda>(txt, cache, s2). Inr (Some (callAbort (print_error txt s2)))))"

text \<open>The handler passed by the user may be empty.\<close>

definition setErrorHandlers :: "abort_function \<Rightarrow> error_state \<Rightarrow> error_state result" where
  "setErrorHandlers abort s =
     (let s1 = setMPIErrorHandler MPI_COMM_SELF (setMPIErrorHandler MPI_COMM_WORLD s)
      in if abort \<noteq> NoFunction then setErrorHandler abort defaultSignalsToCatch s1
         else setErrorHandler CallTerminate defaultSignalsToCatch s1)"

definition clearErrorHandlers :: "error_state \<Rightarrow> error_state" where
  "clearErrorHandlers s = clearMPIErrorHandler MPI_COMM_SELF (clearMPIErrorHandler MPI_COMM_WORLD s)"

section \<open>Properties\<close>

text \<open>What the erasing loop computes: of every NUL and the character behind it, the second stays.\<close>

fun skip_nuls :: "cstring \<Rightarrow> cstring" where
  "skip_nuls [] = []"
| "skip_nuls [c] = (if c = NUL then [] else [c])"
| "skip_nuls (c # d # s) = (if c = NUL then d # skip_nuls s else c # skip_nuls (d # s))"

lemma erase_nuls_spec: "erase_nuls (length p) (p @ s) = p @ skip_nuls s"
proof (induction s arbitrary: p rule: skip_nuls.induct)
  case 1
  show ?case by (simp add: erase_nuls.simps)
next
  case (2 c)
  show ?case by (subst erase_nuls.simps) (simp add: erase_nuls.simps)
next
  case (3 c d s)
  show ?case
  proof (cases "c = NUL")
    case True
    have "erase_nuls (length p) (p @ c # d # s) = erase_nuls (length (p @ [d])) ((p @ [d]) @ s)"
      using True by (subst erase_nuls.simps) simp
    also have "\<dots> = (p @ [d]) @ skip_nuls s" by (rule "3.IH"(1) [OF True])
    finally show ?thesis using True by simp
  next
    case False
    have "erase_nuls (length p) (p @ c # d # s) = erase_nuls (length (p @ [c])) ((p @ [c]) @ d # s)"
      using False by (subst erase_nuls.simps) simp
    also have "\<dots> = (p @ [c]) @ skip_nuls (d # s)" by (rule "3.IH"(2) [OF False])
    finally show ?thesis using False by simp
  qed
qed

lemma skip_nuls_single:
  "\<not> sublist [NUL, NUL] s \<Longrightarrow> skip_nuls s = filter (\<lambda>c. c \<noteq> NUL) s"
proof (induction s rule: skip_nuls.induct)
  case (3 c d s)
  then have d: "c = NUL \<Longrightarrow> d \<noteq> NUL" by (auto simp: sublist_Cons_right)
  have "\<not> sublist [NUL, NUL] (d # s)" "\<not> sublist [NUL, NUL] s" using 3(3) by (auto simp: sublist_Cons_right)
  with 3(1,2) d show ?case by auto
qed simp_all

text \<open>
  Property C30: the message of an error. When its parts hold no two NULs in a row, \<open>what\<close> shows the whole
  text, without the NULs: the reason, the source, the message, the memory and the stack.
\<close>

theorem what_shows_everything:
  assumes "what_stack pf bt threads self remote err st = Inr (txt, st')" "\<not> sublist [NUL, NUL] (what_head err @ txt)"
  shows "what pf bt threads self remote err st
    = Inr (filter (\<lambda>c. c \<noteq> NUL) (what_reason err @ what_source err @ '':'' @ newline @ ''   '' @ ae_message err @ newline @
        (if 0 < ae_bytes err then ''Bytes used = '' @ dec_str (unat (ae_bytes err)) @ newline else []) @ txt), st')"
proof -
  have "erase_nuls 0 (what_head err @ txt) = filter (\<lambda>c. c \<noteq> NUL) (what_head err @ txt)"
    using erase_nuls_spec [of "[]" "what_head err @ txt"] skip_nuls_single [OF assms(2)] by simp
  moreover have "cstr (filter (\<lambda>c. c \<noteq> NUL) x) = filter (\<lambda>c. c \<noteq> NUL) x" for x
    by (intro cstr_eq_self) auto
  ultimately have "what pf bt threads self remote err st = Inr (filter (\<lambda>c. c \<noteq> NUL) (what_head err @ txt), st')"
    using assms(1) by (simp add: what_def del: filter_append)
  then show ?thesis by (simp add: what_head_def)
qed

theorem what_shows_everything_witness:
  "let st = (\<lparr>sc_loaded = False, sc_data = []\<rparr>, \<lambda>_. SIG_DFL)
   in what bare_platform (\<lambda>tid buffer. (0, buffer)) [] (0 :: nat) ms_empty_tree
        (abort_error_new\<lparr>ae_message := ''no'', ae_type := Abort\<rparr>) st
      = Inr (''Program abort called:'' @ newline @ ''   no'' @ newline, st)"
proof -
  let ?st = "(\<lparr>sc_loaded = False, sc_data = []\<rparr>, \<lambda>_. SIG_DFL)"
  let ?e = "abort_error_new\<lparr>ae_message := ''no'', ae_type := Abort\<rparr>"
  have 1: "what_stack bare_platform (\<lambda>tid buffer. (0, buffer)) [] (0 :: nat) ms_empty_tree ?e ?st = Inr ([], ?st)"
    by (simp add: what_stack_def abort_error_new_def)
  have "NUL \<notin> set (what_head ?e @ [])"
    by (simp add: what_head_def what_reason_def what_source_def abort_error_new_def)
  then have 2: "\<not> sublist [NUL, NUL] (what_head ?e @ [])"
    by (metis list.set_intros(1) set_mono_sublist subsetD)
  from what_shows_everything [OF 1 2] show ?thesis
    by (simp add: what_reason_def what_source_def abort_error_new_def)
qed

text \<open>Two NULs in a row are not both erased, and the C string ends at the one that stays.\<close>

lemma what_two_nuls:
  "cstr (erase_nuls 0 (u @ [NUL, NUL] @ v)) = u" if "NUL \<notin> set u"
proof -
  have "skip_nuls (u @ NUL # NUL # v) = u @ NUL # skip_nuls v"
    using that by (induction u rule: skip_nuls.induct) auto
  then show ?thesis using erase_nuls_spec [of "[]" "u @ [NUL, NUL] @ v"] that by (simp add: cstr_append_NUL)
qed

text \<open>
  Property C31: the terminate handler always ends up with a complete error: its type is known, the
  memory and the stack are filled in where the exception did not bring them, an error keeps its own
  type, source and stack type, the handlers of the library are removed. The message of the exception is
  only there the first time: afterwards the exception is not looked at again.
\<close>

theorem term_func_reports:
  assumes "term_func bytes trace active s = (err, s')"
  shows "ae_type err \<noteq> Unknown \<and> (trace \<noteq> [] \<longrightarrow> ae_stack err \<noteq> []) \<and> (bytes \<noteq> 0 \<longrightarrow> ae_bytes err \<noteq> 0)
    \<and> es_signals s' = clearSignals (es_signals s) \<and> es_tried_throw s'
    \<and> ae_message err = (if es_tried_throw s then [] else
        case active of NoException \<Rightarrow> [] | AbortError e \<Rightarrow> ae_message e | StdException txt \<Rightarrow> txt
          | OtherException \<Rightarrow> ''Unknown exception'')
    \<and> (\<forall>e. active = AbortError e \<and> \<not> es_tried_throw s \<and> ae_type e \<noteq> Unknown \<and> ae_bytes e \<noteq> 0 \<and> ae_stack e \<noteq> [] \<longrightarrow> err = e)"
proof -
  have complete: "ae_type (complete_error bytes trace e) \<noteq> Unknown"
    "trace \<noteq> [] \<longrightarrow> ae_stack (complete_error bytes trace e) \<noteq> []"
    "bytes \<noteq> 0 \<longrightarrow> ae_bytes (complete_error bytes trace e) \<noteq> 0"
    "ae_message (complete_error bytes trace e) = ae_message e"
    "ae_type e \<noteq> Unknown \<Longrightarrow> ae_bytes e \<noteq> 0 \<Longrightarrow> ae_stack e \<noteq> [] \<Longrightarrow> complete_error bytes trace e = e" for e
    by (auto simp: complete_error_def Let_def)
  have again: "term_func bytes trace a u = (complete_error bytes trace abort_error_new,
      u\<lparr>es_tried_throw := True, es_signals := clearSignals (es_signals u)\<rparr>)" if "es_tried_throw u" for a u
    using that by (subst term_func.simps) (simp add: rethrow_def)
  show ?thesis
  proof (cases "es_tried_throw s")
    case True
    with again [OF True] assms show ?thesis by (auto simp: complete abort_error_new_def)
  next
    case False
    show ?thesis
    proof (cases active)
      case NoException
      have "term_func bytes trace active s = term_func bytes trace active (s\<lparr>es_tried_throw := True\<rparr>)"
        using False NoException by (subst term_func.simps) (simp add: rethrow_def)
      with again [of "s\<lparr>es_tried_throw := True\<rparr>" active] assms NoException False show ?thesis
        by (auto simp: complete abort_error_new_def)
    qed (use False assms in \<open>auto simp: term_func.simps [of _ _ _ s] rethrow_def complete abort_error_new_def\<close>)
  qed
qed

theorem term_func_reports_witness:
  "ae_message (fst (term_func 1000 [1, 2] (StdException ''bad'') (error_state0 (\<lambda>_. SIG_DFL) False))) = ''bad''
   \<and> ae_stack (fst (term_func 1000 [1, 2] (StdException ''bad'') (error_state0 (\<lambda>_. SIG_DFL) False))) \<noteq> []"
proof -
  obtain err s' where r: "term_func 1000 [1, 2] (StdException ''bad'') (error_state0 (\<lambda>_. SIG_DFL) False) = (err, s')"
    by fastforce
  from term_func_reports [OF r] show ?thesis unfolding r by (simp add: error_state0_def)
qed

section \<open>The life of the handlers\<close>

text \<open>
  What a program does with the handlers before it ends: any sequence of calls of the library, and of
  changes of signals by the program itself.
\<close>

inductive error_step :: "error_state \<Rightarrow> error_state \<Rightarrow> bool" where
  Set: "setErrorHandler f signals s = Inr s' \<Longrightarrow> error_step s s'"
| Set_all: "setErrorHandlers f s = Inr s' \<Longrightarrow> error_step s s'"
| Clear: "error_step s (clearErrorHandler s)"
| Clear_all: "error_step s (clearErrorHandlers s)"
| Clear_one: "clearSignal sig (es_signals s) = Inr sg \<Longrightarrow> error_step s (s\<lparr>es_signals := sg\<rparr>)"
| Clear_some: "clearSignals_of signals (es_signals s) = Inr sg \<Longrightarrow> error_step s (s\<lparr>es_signals := sg\<rparr>)"
| Behavior: "error_step s (setAbortBehavior throwException stackType s)"
| Terminated: "term_func bytes trace active s = (err, s') \<Longrightarrow> error_step s s'"
| User: "h \<noteq> TerminateHandler \<Longrightarrow>
    error_step s (s\<lparr>es_signals := (es_signals s)\<lparr>sg_disp := os_signal sig h (sg_disp (es_signals s))\<rparr>\<rparr>)"

inductive error_reachable :: "(int \<Rightarrow> disposition) \<Rightarrow> bool \<Rightarrow> error_state \<Rightarrow> bool" for d mpi where
  Start: "error_reachable d mpi (error_state0 d mpi)"
| Next: "error_reachable d mpi s \<Longrightarrow> error_step s s' \<Longrightarrow> error_reachable d mpi s'"

text \<open>Whatever the library has installed is in its table.\<close>

definition handlers_known :: "signal_state \<Rightarrow> bool" where
  "handlers_known s \<longleftrightarrow> length (sg_set s) = 256 \<and>
     (\<forall>sig. sg_disp s sig = TerminateHandler \<longrightarrow> catchable sig \<and> sg_set s ! nat sig)"

lemma catchable_range: "catchable sig \<Longrightarrow> 0 \<le> sig \<and> sig < 256 \<and> nat sig < 256"
  by (auto simp: catchable_def signal_numbers)

lemma handlers_known_cleared: "handlers_known s \<Longrightarrow> sg_disp (clearSignals s) sig \<noteq> TerminateHandler"
  using catchable_range [of sig] by (auto simp: clearSignals_spec handlers_known_def)

lemma handlers_known_clear: "handlers_known s \<Longrightarrow> handlers_known (clearSignals s)"
  using handlers_known_cleared [of s] unfolding handlers_known_def [of "clearSignals s"]
  by (simp add: clearSignals_spec(1)) (simp add: handlers_known_def)

lemma handlers_known_assign:
  assumes "handlers_known s" "assign_signal h f sig s = Inr s'" "h = TerminateHandler \<Longrightarrow> f"
  shows "handlers_known s'"
proof -
  from assms(2) have r: "0 \<le> sig" "sig < int (length (sg_set s))"
    and s': "s' = s\<lparr>sg_disp := os_signal sig h (sg_disp s), sg_set := (sg_set s)[nat sig := f]\<rparr>"
    by (auto simp: assign_signal_ok split: if_splits)
  have k: "length (sg_set s) = 256" "\<And>x. sg_disp s x = TerminateHandler \<Longrightarrow> catchable x \<and> sg_set s ! nat x"
    using assms(1) by (auto simp: handlers_known_def)
  have "catchable x \<and> sg_set s' ! nat x" if "sg_disp s' x = TerminateHandler" for x
  proof (cases "x = sig \<and> catchable sig")
    case True
    with that assms(3) r k(1) show ?thesis by (simp add: s' os_signal_def)
  next
    case False
    then have old: "sg_disp s x = TerminateHandler" using that by (auto simp: s' os_signal_def split: if_splits)
    from k(2) [OF old] have x: "catchable x" "sg_set s ! nat x" by auto
    with False have "x \<noteq> sig" by blast
    then have "nat sig \<noteq> nat x" using r(1) catchable_range [OF x(1)] by linarith
    with x show ?thesis by (simp add: s')
  qed
  then show ?thesis using k(1) by (simp add: handlers_known_def s')
qed

lemma handlers_known_set: "handlers_known s \<Longrightarrow> setSignals signals h s = Inr s' \<Longrightarrow> handlers_known s'"
  by (induction signals arbitrary: s) (auto simp: bindR_Inr_iff intro: handlers_known_assign)

lemma handlers_known_clear_of: "handlers_known s \<Longrightarrow> clearSignals_of signals s = Inr s' \<Longrightarrow> handlers_known s'"
  by (induction signals arbitrary: s) (auto simp: bindR_Inr_iff intro: handlers_known_assign)

lemma handlers_known_clearSignal: "handlers_known s \<Longrightarrow> clearSignal sig s = Inr s' \<Longrightarrow> handlers_known s'"
  by (auto simp: clearSignal_def split: if_splits elim: handlers_known_assign)

lemma setMPIErrorHandler_fields [simp]:
  "es_signals (setMPIErrorHandler c s) = es_signals s" "es_locked (setMPIErrorHandler c s) = es_locked s"
  "es_force_exit (setMPIErrorHandler c s) = es_force_exit s" "es_perr (setMPIErrorHandler c s) = es_perr s"
  by (simp_all add: setMPIErrorHandler_def)

lemma clearMPIErrorHandler_fields [simp]:
  "es_signals (clearMPIErrorHandler c s) = es_signals s" "es_locked (clearMPIErrorHandler c s) = es_locked s"
  "es_force_exit (clearMPIErrorHandler c s) = es_force_exit s" "es_perr (clearMPIErrorHandler c s) = es_perr s"
  "es_terminate (clearMPIErrorHandler c s) = es_terminate s" "es_abort_fun (clearMPIErrorHandler c s) = es_abort_fun s"
  by (simp_all add: clearMPIErrorHandler_def)

lemma setErrorHandler_keeps:
  assumes "setErrorHandler f signals s = Inr s'" "handlers_known (es_signals s)"
  shows "handlers_known (es_signals s') \<and> es_locked s' = es_locked s \<and> es_force_exit s' = es_force_exit s \<and> es_perr s' = es_perr s"
  using assms by (auto simp: setErrorHandler_def bindR_Inr_iff intro: handlers_known_set)

lemma setErrorHandlers_keeps:
  assumes "setErrorHandlers f s = Inr s'" "handlers_known (es_signals s)"
  shows "handlers_known (es_signals s') \<and> es_locked s' = es_locked s \<and> es_force_exit s' = es_force_exit s \<and> es_perr s' = es_perr s"
  using assms setErrorHandler_keeps [of _ defaultSignalsToCatch "setMPIErrorHandler MPI_COMM_SELF (setMPIErrorHandler MPI_COMM_WORLD s)" s']
  by (auto simp: setErrorHandlers_def Let_def split: if_splits)

lemma term_func_keeps:
  assumes "term_func bytes trace active s = (err, s')"
  shows "es_signals s' = clearSignals (es_signals s) \<and> es_locked s' = es_locked s \<and> es_force_exit s' = es_force_exit s \<and> es_perr s' = es_perr s"
  using assms
proof (induction bytes trace active s rule: term_func.induct)
  case (1 bytes trace active s)
  obtain e tried where r: "rethrow bytes trace active (es_tried_throw s) = (e, tried)" by fastforce
  show ?case
  proof (cases e)
    case None
    with 1(1) [OF r [symmetric] None] 1(2) r show ?thesis
      by (simp add: term_func.simps [of bytes trace active s])
  next
    case (Some x)
    with 1(2) r show ?thesis by (auto simp: term_func.simps [of bytes trace active s])
  qed
qed

definition error_inv :: "error_state \<Rightarrow> bool" where
  "error_inv s \<longleftrightarrow> handlers_known (es_signals s) \<and> \<not> es_locked s \<and> es_force_exit s = 0 \<and> es_perr s = []"

lemma error_step_inv: "error_step s s' \<Longrightarrow> error_inv s \<Longrightarrow> error_inv s'"
proof (induction rule: error_step.induct)
  case (Set f signals s s')
  with setErrorHandler_keeps [OF Set(1)] show ?case by (simp add: error_inv_def)
next
  case (Set_all f s s')
  with setErrorHandlers_keeps [OF Set_all(1)] show ?case by (simp add: error_inv_def)
next
  case (Clear s)
  then show ?case by (simp add: error_inv_def clearErrorHandler_def handlers_known_clear)
next
  case (Clear_all s)
  then show ?case by (simp add: error_inv_def clearErrorHandlers_def)
next
  case (Clear_one sig s sg)
  with handlers_known_clearSignal [of "es_signals s" sig sg] show ?case by (simp add: error_inv_def)
next
  case (Clear_some signals s sg)
  with handlers_known_clear_of [of "es_signals s" signals sg] show ?case by (simp add: error_inv_def)
next
  case (Behavior s throwException stackType)
  then show ?case by (simp add: error_inv_def setAbortBehavior_def setDefaultStackType_def)
next
  case (Terminated bytes trace active s err s')
  with term_func_keeps [OF Terminated(1)] show ?case by (simp add: error_inv_def handlers_known_clear)
next
  case (User h s sig)
  then show ?case by (auto simp: error_inv_def handlers_known_def os_signal_def)
qed

lemma error_reachable_inv: "error_reachable d mpi s \<Longrightarrow> \<forall>sig. d sig \<noteq> TerminateHandler \<Longrightarrow> error_inv s"
proof (induction rule: error_reachable.induct)
  case Start
  then show ?case by (simp add: error_inv_def error_state0_def signal_state0_def handlers_known_def)
next
  case (Next s s')
  then show ?case using error_step_inv by blast
qed

text \<open>Whether the report asks other threads for their stacks.\<close>

definition asks_threads :: "abort_error \<Rightarrow> 'tid list \<Rightarrow> 'tid \<Rightarrow> bool" where
  "asks_threads err threads self \<longleftrightarrow>
     ae_stack err \<noteq> [] \<and> ae_stackType err \<in> {Threaded, Global} \<and> (\<exists>tid \<in> set threads. tid \<noteq> self)"

lemma what_stack_signals:
  assumes "what_stack pf bt threads self remote err (cache, d) = Inr (txt, cache', d')"
  shows "sigchld_only (if asks_threads err threads self then d(get_thread_callstack_signal := CallstackHandler) else d) d'"
proof -
  let ?d = "install_callstack_handler (erase_value threads self) self d"
  have install: "?d = (if \<exists>tid \<in> set threads. tid \<noteq> self then d(get_thread_callstack_signal := CallstackHandler) else d)"
    by (auto simp: install_callstack_handler_eq erase_value_def)
  consider "ae_stack err = [] \<or> ae_stackType err = NoStack" | "ae_stack err \<noteq> []" "ae_stackType err = Local"
    | "ae_stack err \<noteq> []" "ae_stackType err = Threaded \<or> ae_stackType err = Global"
    | b where "ae_stackType err = OtherStack b" by (cases "ae_stackType err") auto
  then show ?thesis
  proof cases
    case 1
    with assms show ?thesis by (auto simp: what_stack_def asks_threads_def)
  next
    case 2
    with assms show ?thesis
      by (auto simp: what_stack_def asks_threads_def getStackInfo_many_def bindR_Inr_iff dest!: getStackInfo2_signals)
  next
    case 3
    with assms have "sigchld_only ?d d'"
      by (auto simp: what_stack_def Let_def bindR_Inr_iff dest!: generateMultiStack_signals)
    with 3 show ?thesis unfolding install by (simp add: asks_threads_def)
  next
    case 4
    with assms show ?thesis by (auto simp: what_stack_def asks_threads_def split: if_splits)
  qed
qed

lemma what_report_leaves:
  assumes "what_report pf bt threads self remote err cache s = Inr (txt, cache', s')"
  shows "\<exists>d. s' = s\<lparr>es_signals := (es_signals s)\<lparr>sg_disp := d\<rparr>\<rparr>
    \<and> sigchld_only (if asks_threads err threads self
         then (sg_disp (es_signals s))(get_thread_callstack_signal := CallstackHandler) else sg_disp (es_signals s)) d"
  using assms by (auto simp: what_report_def what_def bindR_Inr_iff dest!: what_stack_signals)

text \<open>
  The dispositions when the program ends: what the library installed is removed, and the report may have installed the
  handler of the stack requests again.
\<close>

definition ending_signals :: "bool \<Rightarrow> signal_state \<Rightarrow> (int \<Rightarrow> disposition) \<Rightarrow> bool" where
  "ending_signals asks before d \<longleftrightarrow>
     (\<forall>sig. sig \<noteq> SIGCHLD \<longrightarrow>
        d sig = (if asks \<and> sig = get_thread_callstack_signal then CallstackHandler
                 else if catchable sig \<and> sg_set before ! nat sig then SIG_DFL
                 else sg_disp before sig))
     \<and> d SIGCHLD \<in> {SIG_IGN, if sg_set before ! nat SIGCHLD then SIG_DFL else sg_disp before SIGCHLD}"

lemma ending_signalsI:
  assumes "handlers_known g" "sigchld_only (if asks then (sg_disp (clearSignals g))(get_thread_callstack_signal := CallstackHandler)
      else sg_disp (clearSignals g)) d"
  shows "ending_signals asks g d"
proof -
  have "sg_disp (clearSignals g) sig = (if catchable sig \<and> sg_set g ! nat sig then SIG_DFL else sg_disp g sig)" for sig
    using assms(1) catchable_range [of sig] by (auto simp: clearSignals_spec handlers_known_def)
  note cleared = this
  have 39: "get_thread_callstack_signal \<noteq> SIGCHLD" by (simp add: callstack_signal(1) SIGCHLD_def)
  let ?d = "if asks then (sg_disp (clearSignals g))(get_thread_callstack_signal := CallstackHandler) else sg_disp (clearSignals g)"
  have "d sig = ?d sig" if "sig \<noteq> SIGCHLD" for sig
    using assms(2) that by (auto simp: sigchld_only_def)
  moreover have "d SIGCHLD \<in> {SIG_IGN, sg_disp (clearSignals g) SIGCHLD}"
    using assms(2) 39 by (cases asks) (auto simp: sigchld_only_def)
  ultimately show ?thesis
    using cleared by (simp add: ending_signals_def SIGCHLD_catchable)
qed

lemma ending_signals_no_terminate:
  assumes "ending_signals asks g d" "handlers_known g"
  shows "d sig \<noteq> TerminateHandler"
proof (cases "sig = SIGCHLD")
  case True
  then show ?thesis using assms by (auto simp: ending_signals_def handlers_known_def split: if_splits)
next
  case False
  then have "d sig = (if asks \<and> sig = get_thread_callstack_signal then CallstackHandler
                 else if catchable sig \<and> sg_set g ! nat sig then SIG_DFL else sg_disp g sig)"
    using assms(1) by (simp add: ending_signals_def)
  then show ?thesis using assms(2) by (auto simp: handlers_known_def)
qed

definition final_state :: "ending \<Rightarrow> error_state" where
  "final_state e = (case e of StdAbort s \<Rightarrow> s | MPIAbort s \<Rightarrow> s)"

text \<open>
  The state in which the report is made, and the end that follows it.
\<close>

definition report_state :: "error_state \<Rightarrow> error_state" where
  "report_state s =
     (let s1 = clearErrorHandler (s\<lparr>es_locked := True\<rparr>) in if es_throwException s then s1 else s1\<lparr>es_force_exit := 2\<rparr>)"

lemma terminate_reports:
  assumes "error_inv s"
  shows "terminate report s = bindR (report (report_state s)) (\<lambda>(txt, cache, s2). let s3 = print_error txt s2 in
    Inr (Some (if \<not> es_throwException s \<and> es_mpi_running s3 then MPIAbort (clearMPIErrorHandler MPI_COMM_WORLD s3) else callAbort s3)))"
  using assms by (simp add: terminate_def error_inv_def report_state_def clearErrorHandler_def Let_def case_prod_unfold)

lemma report_state_fields:
  "es_signals (report_state s) = clearSignals (es_signals s)" "es_terminate (report_state s) = NullTermFunc"
  "es_abort_fun (report_state s) = IgnoreError" "es_perr (report_state s) = es_perr s"
  "es_mpi_running (report_state s) = es_mpi_running s"
  by (simp_all add: report_state_def clearErrorHandler_def Let_def)

lemma terminate_once:
  assumes "error_inv s" "what_report pf bt threads self remote err cache (report_state s) = Inr (txt, cache', s')"
  shows "\<exists>e. terminate (what_report pf bt threads self remote err cache) s = Inr (Some e)
    \<and> ending_signals (asks_threads err threads self) (es_signals s) (sg_disp (es_signals (final_state e)))
    \<and> es_terminate (final_state e) = NullTermFunc \<and> es_abort_fun (final_state e) = IgnoreError
    \<and> es_perr (final_state e) = [txt] \<and> ((\<exists>s'. e = MPIAbort s') \<longleftrightarrow> es_mpi_running s \<and> \<not> es_throwException s)"
proof -
  from what_report_leaves [OF assms(2)] obtain d where
    s': "s' = (report_state s)\<lparr>es_signals := (es_signals (report_state s))\<lparr>sg_disp := d\<rparr>\<rparr>"
    and d: "sigchld_only (if asks_threads err threads self
      then (sg_disp (clearSignals (es_signals s)))(get_thread_callstack_signal := CallstackHandler)
      else sg_disp (clearSignals (es_signals s))) d"
    unfolding report_state_fields by blast
  have "handlers_known (es_signals s)" "es_perr s = []" using assms(1) by (simp_all add: error_inv_def)
  with ending_signalsI [OF _ d] show ?thesis
    unfolding terminate_reports [OF assms(1)] assms(2)
    by (simp add: s' final_state_def callAbort_def print_error_def report_state_fields Let_def)
qed

text \<open>
  Property C7: how \<open>terminate\<close> ends the program. After any use of the handlers it does not wait. It fails only
  where the report of the error fails. Otherwise it prints the report once, leaves through \<open>MPI_Abort\<close> exactly when MPI
  runs and no exception was asked for, and \<open>std::terminate\<close> and the abort function no longer lead into the library. Of the signals,
  no one leads to the terminate handler; those in the table of the library have their default action, the others keep what they
  had, but for two that the report itself changes after the handlers were removed: the signal of the stack
  requests has the handler of these requests again exactly when the report asks other threads, and \<open>SIGCHLD\<close> may be ignored.
\<close>

theorem terminate_ends:
  assumes "error_reachable d mpi s" "\<forall>sig. d sig \<noteq> TerminateHandler"
  shows "case terminate (what_report pf bt threads self remote err cache) s of
      Inl f \<Rightarrow> what pf bt threads self remote err (cache, sg_disp (clearSignals (es_signals s))) = Inl f
    | Inr None \<Rightarrow> False
    | Inr (Some e) \<Rightarrow>
        (\<exists>txt st. what pf bt threads self remote err (cache, sg_disp (clearSignals (es_signals s))) = Inr (txt, st)
          \<and> es_perr (final_state e) = [txt])
        \<and> ending_signals (asks_threads err threads self) (es_signals s) (sg_disp (es_signals (final_state e)))
        \<and> (\<forall>sig. sg_disp (es_signals (final_state e)) sig \<noteq> TerminateHandler)
        \<and> es_terminate (final_state e) = NullTermFunc \<and> es_abort_fun (final_state e) = IgnoreError
        \<and> ((\<exists>s'. e = MPIAbort s') \<longleftrightarrow> es_mpi_running s \<and> \<not> es_throwException s)"
proof -
  from error_reachable_inv [OF assms] have i: "error_inv s" .
  let ?r = "what_report pf bt threads self remote err cache"
  let ?w = "what pf bt threads self remote err (cache, sg_disp (clearSignals (es_signals s)))"
  have r: "?r (report_state s) = bindR ?w (\<lambda>(txt, cache', d).
      Inr (txt, cache', (report_state s)\<lparr>es_signals := (es_signals (report_state s))\<lparr>sg_disp := d\<rparr>\<rparr>))"
    by (simp add: what_report_def report_state_fields)
  show ?thesis
  proof (cases ?w)
    case (Inl f)
    then show ?thesis by (simp add: terminate_reports [OF i] r)
  next
    case (Inr x)
    obtain msg c d' where x: "x = (msg, c, d')" by (cases x)
    with Inr r have "?r (report_state s)
        = Inr (msg, c, (report_state s)\<lparr>es_signals := (es_signals (report_state s))\<lparr>sg_disp := d'\<rparr>\<rparr>)" by simp
    from terminate_once [OF i this] obtain e where e: "terminate ?r s = Inr (Some e)"
      "ending_signals (asks_threads err threads self) (es_signals s) (sg_disp (es_signals (final_state e)))"
      "es_terminate (final_state e) = NullTermFunc \<and> es_abort_fun (final_state e) = IgnoreError
       \<and> es_perr (final_state e) = [msg] \<and> ((\<exists>s'. e = MPIAbort s') \<longleftrightarrow> es_mpi_running s \<and> \<not> es_throwException s)"
      by blast
    have "handlers_known (es_signals s)" using i by (simp add: error_inv_def)
    from ending_signals_no_terminate [OF e(2) this] e Inr x show ?thesis by auto
  qed
qed

lemma setErrorHandlers_initial:
  "\<exists>s. setErrorHandlers NoFunction (setAbortBehavior throwException stackType (error_state0 (\<lambda>_. SIG_DFL) mpi)) = Inr s
    \<and> error_reachable (\<lambda>_. SIG_DFL) mpi s \<and> es_abort_fun s = CallTerminate \<and> es_terminate s = TermFunc
    \<and> es_throwException s = throwException \<and> es_stackType s = printStackType_of_int stackType
    \<and> \<not> es_tried_throw s
    \<and> sg_disp (es_signals s) = disp_after defaultSignalsToCatch TerminateHandler (\<lambda>_. SIG_DFL)"
proof -
  let ?start = "setAbortBehavior throwException stackType (error_state0 (\<lambda>_. SIG_DFL) mpi)"
  let ?mpi = "setMPIErrorHandler MPI_COMM_SELF (setMPIErrorHandler MPI_COMM_WORLD ?start)"
  let ?table = "\<lparr>sg_disp = disp_after defaultSignalsToCatch TerminateHandler (\<lambda>_. SIG_DFL),
      sg_set = set_after defaultSignalsToCatch True (replicate 256 False)\<rparr>"
  let ?fin = "?mpi\<lparr>es_abort_fun := CallTerminate, es_terminate := TermFunc, es_signals := ?table\<rparr>"
  have "\<forall>sig \<in> set defaultSignalsToCatch. 0 \<le> sig \<and> sig < 256"
    by (auto simp: defaultSignalsToCatch_def erase_value_def set_allSignals dest: catchable_range)
  then have sg: "setSignals defaultSignalsToCatch TerminateHandler (signal_state0 (\<lambda>_. SIG_DFL)) = Inr ?table"
    by (simp add: setSignals_eq signal_state0_def)
  have "es_signals ?mpi = signal_state0 (\<lambda>_. SIG_DFL)"
    by (simp add: setAbortBehavior_def setDefaultStackType_def error_state0_def)
  then have s: "setErrorHandlers NoFunction ?start = Inr ?fin"
    by (simp add: setErrorHandlers_def setErrorHandler_def Let_def sg)
  have "error_reachable (\<lambda>_. SIG_DFL) mpi ?start"
    by (rule error_reachable.Next [OF error_reachable.Start error_step.Behavior])
  then have "error_reachable (\<lambda>_. SIG_DFL) mpi ?fin"
    by (rule error_reachable.Next) (rule error_step.Set_all [OF s])
  with s show ?thesis
    by (intro exI [of _ ?fin])
       (simp add: setMPIErrorHandler_def setAbortBehavior_def setDefaultStackType_def error_state0_def)
qed

text \<open>An error whose stack is wanted of all threads, in a program with one other thread, which does not answer.\<close>

definition silent_thread :: "nat backtracer" where
  "silent_thread = (\<lambda>tid buffer. (0, buffer))"

definition threaded_error :: abort_error where
  "threaded_error = abort_error_new\<lparr>ae_type := Abort, ae_stackType := Threaded, ae_stack := [16]\<rparr>"

lemma threaded_error_reported:
  "\<exists>x. what bare_platform silent_thread [0, 1] 0 ms_empty_tree threaded_error (\<lparr>sc_loaded = True, sc_data = []\<rparr>, d) = Inr x"
proof -
  let ?c = "\<lparr>sc_loaded = True, sc_data = []\<rparr>"
  let ?f = "stack_info_clear\<lparr>si_address := 16\<rparr>"
  let ?d = "install_callstack_handler [1 :: nat] 0 d"
  from bare_frames [of "[16]" ?d] obtain d' where d': "getStackInfo2 bare_platform [16] (?c, ?d) = Inr ([?f], ?c, d')" by auto
  have trace: "map (backtrace silent_thread) [1] = [[]]"
    by (simp add: backtrace_def silent_thread_def resize_vec_def)
  have "collect_addresses [[16], []] = [16]" by (simp add: collect_addresses_def)
  then have "generateMultiStack bare_platform [[16], []] (?c, ?d) = Inr (MSI 2 stack_info_clear (chain_of 1 [?f]), ?c, d')"
    using d' by (simp add: generateMultiStack_def generateStacks_def getStackInfo_many_def ms_empty_tree_def ms_add_def)
  moreover have "clean_frames [?f] = []"
    by (simp add: stack_info_clear_def keep_def contributing_def libc_fgets_def cstr_def contains_def)
  then have "cleanupStackTrace (MSI 2 stack_info_clear (chain_of 1 [?f])) = Inr (MSI 2 stack_info_clear [])"
    unfolding cleanup_single_stack by simp
  moreover have "\<exists>out. ms_printString (MSI 2 stack_info_clear []) '' '' = Inr out"
    by (simp add: ms_printString_def ms_print_def stack_info_clear_def)
  ultimately show ?thesis
    using trace by (auto simp: what_def what_stack_def threaded_error_def abort_error_new_def erase_value_def)
qed

theorem terminate_ends_witness:
  "\<exists>s e. setErrorHandlers NoFunction (error_state0 (\<lambda>_. SIG_DFL) False) = Inr s
    \<and> sg_disp (es_signals s) 6 = TerminateHandler \<and> sg_disp (es_signals s) 39 = TerminateHandler
    \<and> terminate (what_report bare_platform silent_thread [0, 1] 0 ms_empty_tree threaded_error \<lparr>sc_loaded = True, sc_data = []\<rparr>) s
        = Inr (Some e)
    \<and> sg_disp (es_signals (final_state e)) 6 = SIG_DFL \<and> sg_disp (es_signals (final_state e)) 39 = CallstackHandler"
proof -
  let ?s0 = "error_state0 (\<lambda>_. SIG_DFL) False"
  let ?c = "\<lparr>sc_loaded = True, sc_data = []\<rparr>"
  have "\<forall>sig \<in> set defaultSignalsToCatch. 0 \<le> sig \<and> sig < 256"
    by (auto simp: defaultSignalsToCatch_def erase_value_def set_allSignals dest: catchable_range)
  then obtain s where s: "setErrorHandlers NoFunction ?s0 = Inr s"
    and d: "es_signals s = \<lparr>sg_disp = disp_after defaultSignalsToCatch TerminateHandler (\<lambda>_. SIG_DFL),
      sg_set = set_after defaultSignalsToCatch True (replicate 256 False)\<rparr>"
    by (simp add: setErrorHandlers_def setErrorHandler_def setMPIErrorHandler_def setSignals_eq error_state0_def signal_state0_def)
  have r: "error_reachable (\<lambda>_. SIG_DFL) False s"
    by (rule error_reachable.Next [OF error_reachable.Start error_step.Set_all [OF s]])
  let ?fin = "terminate (what_report bare_platform silent_thread [0, 1] 0 ms_empty_tree threaded_error ?c) s"
  from threaded_error_reported [of "sg_disp (clearSignals (es_signals s))"] obtain x where
    w: "what bare_platform silent_thread [0, 1] 0 ms_empty_tree threaded_error (?c, sg_disp (clearSignals (es_signals s))) = Inr x"
    by blast
  note ends = terminate_ends [OF r, of bare_platform silent_thread "[0, 1]" 0 ms_empty_tree threaded_error ?c]
  from ends w obtain e where e: "?fin = Inr (Some e)" by (cases ?fin) (auto split: option.splits)
  have asks: "asks_threads threaded_error [0, Suc 0] 0" by (simp add: asks_threads_def threaded_error_def abort_error_new_def)
  from ends e have "ending_signals True (es_signals s) (sg_disp (es_signals (final_state e)))" by (simp add: asks)
  moreover have caught: "6 \<in> set defaultSignalsToCatch" "39 \<in> set defaultSignalsToCatch" "catchable 6" "catchable 39"
    by (simp_all add: defaultSignalsToCatch_def erase_value_def set_allSignals catchable_def signal_numbers)
  ultimately have "sg_disp (es_signals (final_state e)) 6 = SIG_DFL" "sg_disp (es_signals (final_state e)) 39 = CallstackHandler"
    by (auto simp: ending_signals_def d callstack_signal(1) SIGCHLD_def disp_after_def)
  moreover have "sg_disp (es_signals s) 6 = TerminateHandler" "sg_disp (es_signals s) 39 = TerminateHandler"
    using caught by (simp_all add: d disp_after_def)
  ultimately show ?thesis using s e by blast
qed

text \<open>\<open>clearErrorHandlers\<close> leaves the handlers of the signals and of \<open>std::terminate\<close> where they are.\<close>

lemma clearErrorHandlers_keeps_signals:
  "es_signals (clearErrorHandlers s) = es_signals s" "es_terminate (clearErrorHandlers s) = es_terminate s"
  "es_abort_fun (clearErrorHandlers s) = es_abort_fun s"
  by (simp_all add: clearErrorHandlers_def)

end
