(* ===== verification/Global_Stacks.thy ===== *)
theory Global_Stacks
  imports Resolve
begin

text \<open>
  Call stacks of all processes of an MPI program: the life of the monitor thread
  (\<open>globalCallStackInitialize\<close>, \<open>globalCallStackFinalize\<close>), its answer to a request
  (\<open>runGlobalMonitorThread\<close>), the collection of the answers (\<open>getRemoteCallStacks\<close>) and the sum of all of
  it (\<open>getGlobalCallStacks\<close>). MPI is a parameter: what its probes find is a list of events.
\<close>

section \<open>The monitor thread\<close>

text \<open>
  The status is \<open>-1\<close> before any call, 1 while the thread runs, 2 when it was asked to stop and 3 when it is
  not supported. \<open>gm_thread\<close> and \<open>gm_comm\<close> say whether there are a thread and a communicator.
\<close>

record monitor_state =
  gm_status :: int
  gm_thread :: bool
  gm_comm :: bool

definition monitor_state0 :: monitor_state where
  "monitor_state0 = \<lparr>gm_status = -1, gm_thread = False, gm_comm = False\<rparr>"

text \<open>
  \<open>None\<close> is \<open>std::terminate\<close>: the old thread, which nobody has joined, is destroyed by \<open>reset\<close>.
  \<open>N_threads\<close> is the number of registered threads on rank 0.
\<close>

definition globalCallStackInitialize :: "bool \<Rightarrow> bool \<Rightarrow> nat \<Rightarrow> monitor_state \<Rightarrow> monitor_state option" where
  "globalCallStackInitialize mpi_running thread_multiple N_threads s =
     (let s1 = s\<lparr>gm_status := 3\<rparr>
      in if \<not> mpi_running then Some s1
         else if \<not> thread_multiple then Some s1
         else if N_threads = 1 then Some s1
         else let s2 = s1\<lparr>gm_status := 1, gm_comm := True\<rparr>
              in if gm_thread s2 then None else Some (s2\<lparr>gm_thread := True\<rparr>))"

definition globalCallStackFinalize :: "monitor_state \<Rightarrow> monitor_state" where
  "globalCallStackFinalize s =
     (let s1 = (if gm_thread s then s\<lparr>gm_status := 2, gm_thread := False\<rparr> else s)
      in s1\<lparr>gm_comm := False\<rparr>)"

text \<open>
  The answer to a request: the bytes that are sent, or nothing when no thread is registered.
\<close>

definition monitor_reply ::
    "platform \<Rightarrow> 'tid backtracer \<Rightarrow> 'tid list \<Rightarrow> (stack_info \<Rightarrow> char list) \<Rightarrow> resolver_state
      \<Rightarrow> (char list option \<times> resolver_state) result" where
  "monitor_reply pf bt threads pad st =
     (if threads = [] then Inr (None, st)
      else bindR (generateMultiStack_threads pf bt threads st) (\<lambda>(multistack, st').
             if length (ms_pack pad multistack) \<le> ms_size multistack
             then Inr (Some (ms_pack pad multistack), st') else Inl OutOfBounds))"

section \<open>Collecting the answers\<close>

text \<open>
  What a probe for the tag of the request finds: an error, a message, or nothing, and then the clock shows
  the given number of seconds since the request.
\<close>

datatype probe = ProbeFailed | Arrived "char list" | Idle nat

text \<open>
  The loop: \<open>time < 10 + procs / 50\<close> in whole numbers. Running out of events is running on.
\<close>

fun receive_replies ::
    "nat \<Rightarrow> probe list \<Rightarrow> nat \<Rightarrow> nat \<Rightarrow> multi_stack_info \<Rightarrow> multi_stack_info result" where
  "receive_replies procs [] N_finished time multistack =
     (if N_finished < procs \<and> 50 * time < 500 + procs then Inl OutOfFuel else Inr multistack)"
| "receive_replies procs (ev # evs) N_finished time multistack =
     (if N_finished < procs \<and> 50 * time < 500 + procs
      then case ev of
             ProbeFailed \<Rightarrow> Inr multistack
           | Arrived data \<Rightarrow>
               bindR (ms_unpack data) (\<lambda>(tmp, rest).
                 receive_replies procs evs (N_finished + 1) time (ms_merge multistack tmp))
           | Idle seconds \<Rightarrow> receive_replies procs evs N_finished seconds multistack
      else Inr multistack)"

definition getRemoteCallStacks :: "nat \<Rightarrow> probe list \<Rightarrow> monitor_state \<Rightarrow> multi_stack_info result" where
  "getRemoteCallStacks procs evs s =
     (if gm_status s = -1 then Inr ms_empty_tree
      else if gm_status s \<noteq> 1 then Inr ms_empty_tree
      else receive_replies procs evs 1 0 ms_empty_tree)"

definition getGlobalCallStacks ::
    "platform \<Rightarrow> 'tid backtracer \<Rightarrow> 'tid list \<Rightarrow> nat \<Rightarrow> probe list \<Rightarrow> monitor_state \<Rightarrow> resolver_state
      \<Rightarrow> (multi_stack_info \<times> resolver_state) result" where
  "getGlobalCallStacks pf bt threads procs evs s st =
     bindR (generateMultiStack_threads pf bt threads st) (\<lambda>(multistack, st').
     bindR (getRemoteCallStacks procs evs s) (\<lambda>remote. Inr (ms_merge multistack remote, st')))"

section \<open>Properties\<close>

subsection \<open>The life of the monitor\<close>

text \<open>
  A history of the two calls; \<open>None\<close> is the end of the program. An initialisation starts a monitor when MPI
  runs, gives enough thread support, and rank 0 sees another thread.
\<close>

datatype monitor_call = Initialize bool bool nat | Finalize

fun perform :: "monitor_call \<Rightarrow> monitor_state \<Rightarrow> monitor_state option" where
  "perform (Initialize mpi multi n) s = globalCallStackInitialize mpi multi n s"
| "perform Finalize s = Some (globalCallStackFinalize s)"

fun monitor_calls :: "monitor_call list \<Rightarrow> monitor_state \<Rightarrow> monitor_state option" where
  "monitor_calls [] s = Some s"
| "monitor_calls (c # cs) s = Option.bind (perform c s) (monitor_calls cs)"

fun starts :: "monitor_call \<Rightarrow> bool" where
  "starts (Initialize mpi multi n) \<longleftrightarrow> mpi \<and> multi \<and> n \<noteq> 1"
| "starts Finalize \<longleftrightarrow> False"

text \<open>A monitor that was started in the history and not finalised since.\<close>

definition unfinished :: "monitor_call list \<Rightarrow> bool" where
  "unfinished cs \<longleftrightarrow> (\<exists>us c vs. cs = us @ c # vs \<and> starts c \<and> Finalize \<notin> set vs)"

text \<open>Some monitor is started while another one is unfinished.\<close>

definition started_twice :: "monitor_call list \<Rightarrow> bool" where
  "started_twice cs \<longleftrightarrow> (\<exists>us c vs. cs = us @ c # vs \<and> starts c \<and> unfinished us)"

lemma unfinished_snoc:
  "unfinished [] = False" "unfinished (cs @ [c]) \<longleftrightarrow> starts c \<or> c \<noteq> Finalize \<and> unfinished cs"
proof -
  show "unfinished [] = False" by (simp add: unfinished_def)
  show "unfinished (cs @ [c]) \<longleftrightarrow> starts c \<or> c \<noteq> Finalize \<and> unfinished cs"
  proof
    assume "unfinished (cs @ [c])"
    then obtain us d vs where d: "cs @ [c] = us @ d # vs" "starts d" "Finalize \<notin> set vs" by (auto simp: unfinished_def)
    then show "starts c \<or> c \<noteq> Finalize \<and> unfinished cs"
      by (cases vs rule: rev_cases) (auto simp: unfinished_def)
  next
    assume "starts c \<or> c \<noteq> Finalize \<and> unfinished cs"
    then consider "starts c" | us d vs where "c \<noteq> Finalize" "cs = us @ d # vs" "starts d" "Finalize \<notin> set vs"
      by (auto simp: unfinished_def)
    then show "unfinished (cs @ [c])"
    proof cases
      case 1
      then show ?thesis unfolding unfinished_def by (intro exI [of _ cs] exI [of _ c] exI [of _ "[]"]) simp
    next
      case 2
      then show ?thesis unfolding unfinished_def by (intro exI [of _ us] exI [of _ d] exI [of _ "vs @ [c]"]) simp
    qed
  qed
qed

lemma started_twice_snoc:
  "started_twice [] = False" "started_twice (cs @ [c]) \<longleftrightarrow> started_twice cs \<or> starts c \<and> unfinished cs"
proof -
  show "started_twice [] = False" by (simp add: started_twice_def)
  show "started_twice (cs @ [c]) \<longleftrightarrow> started_twice cs \<or> starts c \<and> unfinished cs"
  proof
    assume "started_twice (cs @ [c])"
    then obtain us d vs where d: "cs @ [c] = us @ d # vs" "starts d" "unfinished us" by (auto simp: started_twice_def)
    then show "started_twice cs \<or> starts c \<and> unfinished cs"
      by (cases vs rule: rev_cases) (auto simp: started_twice_def)
  next
    assume "started_twice cs \<or> starts c \<and> unfinished cs"
    then consider "starts c" "unfinished cs" | us d vs where "cs = us @ d # vs" "starts d" "unfinished us"
      by (auto simp: started_twice_def)
    then show "started_twice (cs @ [c])"
    proof cases
      case 1
      then show ?thesis unfolding started_twice_def by (intro exI [of _ cs] exI [of _ c] exI [of _ "[]"]) simp
    next
      case 2
      then show ?thesis unfolding started_twice_def by (intro exI [of _ us] exI [of _ d] exI [of _ "vs @ [c]"]) simp
    qed
  qed
qed

lemma monitor_calls_append:
  "monitor_calls (cs @ ds) s = Option.bind (monitor_calls cs s) (monitor_calls ds)"
  by (induction cs arbitrary: s) (auto split: bind_split)

text \<open>What is known after a history that the program survived.\<close>

definition monitor_matches :: "monitor_call list \<Rightarrow> monitor_state \<Rightarrow> bool" where
  "monitor_matches cs s \<longleftrightarrow> gm_thread s = unfinished cs \<and> gm_comm s = unfinished cs
     \<and> (gm_status s = 1 \<longleftrightarrow> cs \<noteq> [] \<and> starts (last cs)) \<and> gm_status s \<in> {-1, 1, 2, 3}"

lemma perform_matches:
  assumes "monitor_matches cs s"
  shows "case perform c s of
      None \<Rightarrow> starts c \<and> unfinished cs
    | Some s' \<Rightarrow> \<not> (starts c \<and> unfinished cs) \<and> monitor_matches (cs @ [c]) s'"
proof (cases c)
  case (Initialize mpi multi n)
  with assms show ?thesis
    by (auto simp: monitor_matches_def globalCallStackInitialize_def Let_def unfinished_snoc)
next
  case Finalize
  have "gm_status s = 1 \<longrightarrow> unfinished cs"
    using assms unfinished_snoc(2) [of "butlast cs" "last cs"] by (auto simp: monitor_matches_def)
  with Finalize assms show ?thesis
    by (auto simp: monitor_matches_def globalCallStackFinalize_def Let_def unfinished_snoc)
qed

lemma monitor_history:
  "case monitor_calls cs monitor_state0 of
     None \<Rightarrow> started_twice cs
   | Some s \<Rightarrow> \<not> started_twice cs \<and> monitor_matches cs s"
proof (induction cs rule: rev_induct)
  case Nil
  then show ?case by (simp add: monitor_state0_def monitor_matches_def unfinished_snoc started_twice_snoc)
next
  case (snoc c cs)
  show ?case
  proof (cases "monitor_calls cs monitor_state0")
    case None
    with snoc show ?thesis by (simp add: monitor_calls_append started_twice_snoc)
  next
    case (Some s)
    with snoc have s: "\<not> started_twice cs" "monitor_matches cs s" by simp_all
    have "monitor_calls (cs @ [c]) monitor_state0 = perform c s"
      by (simp add: monitor_calls_append Some) (cases "perform c s"; simp)
    with s perform_matches [OF s(2), of c] show ?thesis
      by (auto simp: started_twice_snoc split: option.splits)
  qed
qed

text \<open>
  Property C29: the monitor over any history of initialisations and finalisations. The program ends, in
  \<open>std::terminate\<close>, exactly when a monitor is started while an earlier one is not finalised. Otherwise the thread and
  its communicator exist together, namely exactly while a started monitor is not finalised, whatever
  unsupported initialisations come in between; requests are answered and sent exactly when the last call
  started the monitor; and a finalisation then leaves neither thread nor communicator.
\<close>

theorem monitor_lifecycle:
  "case monitor_calls cs monitor_state0 of
     None \<Rightarrow> (\<exists>us c vs. cs = us @ c # vs \<and> starts c \<and> unfinished us)
   | Some s \<Rightarrow> \<not> (\<exists>us c vs. cs = us @ c # vs \<and> starts c \<and> unfinished us)
       \<and> gm_thread s = unfinished cs \<and> gm_comm s = unfinished cs
       \<and> (gm_status s = 1 \<longleftrightarrow> cs \<noteq> [] \<and> starts (last cs)) \<and> gm_status s \<in> {-1, 1, 2, 3}
       \<and> (\<exists>s'. monitor_calls (cs @ [Finalize]) monitor_state0 = Some s'
            \<and> \<not> gm_thread s' \<and> \<not> gm_comm s' \<and> gm_status s' \<noteq> 1)"
proof (cases "monitor_calls cs monitor_state0")
  case None
  with monitor_history [of cs] show ?thesis by (simp add: started_twice_def)
next
  case (Some s)
  have f: "monitor_calls (cs @ [Finalize]) monitor_state0 = Some (globalCallStackFinalize s)"
    by (simp add: monitor_calls_append Some)
  from monitor_history [of "cs @ [Finalize]"] have "monitor_matches (cs @ [Finalize]) (globalCallStackFinalize s)"
    unfolding f by simp
  moreover have "\<not> started_twice cs \<and> monitor_matches cs s" using monitor_history [of cs] Some by simp
  ultimately show ?thesis
    using f Some unfolding started_twice_def [symmetric] monitor_matches_def
    by (auto simp: unfinished_snoc(2) simp del: not_ex)
qed

subsection \<open>The sum over all processes\<close>

definition arrivals :: "probe list \<Rightarrow> char list list" where
  "arrivals evs = concat (map (\<lambda>ev. case ev of Arrived data \<Rightarrow> [data] | _ \<Rightarrow> []) evs)"

lemma arrivals_simps [simp]:
  "arrivals [] = []" "arrivals (Arrived b # evs) = b # arrivals evs" "arrivals (Idle n # evs) = arrivals evs"
  "arrivals (ProbeFailed # evs) = arrivals evs"
  by (simp_all add: arrivals_def)

text \<open>No error, and the time limit not reached.\<close>

definition in_time :: "nat \<Rightarrow> probe list \<Rightarrow> bool" where
  "in_time procs evs \<longleftrightarrow> (\<forall>ev \<in> set evs. case ev of ProbeFailed \<Rightarrow> False | Arrived _ \<Rightarrow> True | Idle n \<Rightarrow> 50 * n < 500 + procs)"

lemma receive_replies_merges:
  assumes "in_time procs evs" "list_all2 (\<lambda>data t. ms_unpack data = Inr (t, [])) (arrivals evs) ts"
    "n + length ts = procs" "50 * time < 500 + procs"
  shows "receive_replies procs evs n time t0 = Inr (fold (\<lambda>tmp t. ms_merge t tmp) ts t0)"
  using assms
proof (induction evs arbitrary: ts n time t0)
  case Nil
  then show ?case by simp
next
  case (Cons ev evs)
  have tail: "in_time procs evs" using Cons.prems(1) by (simp add: in_time_def)
  show ?case
  proof (cases "ts = []")
    case True
    with Cons.prems show ?thesis by simp
  next
    case False
    then have go: "n < procs \<and> 50 * time < 500 + procs" using Cons.prems(3,4) by (cases ts) auto
    show ?thesis
    proof (cases ev)
      case ProbeFailed
      with Cons.prems(1) show ?thesis by (simp add: in_time_def)
    next
      case (Arrived data)
      with Cons.prems(2) obtain t ts' where ts: "ts = t # ts'" "ms_unpack data = Inr (t, [])"
        "list_all2 (\<lambda>data t. ms_unpack data = Inr (t, [])) (arrivals evs) ts'"
        by (auto simp: list_all2_Cons1)
      with go Arrived Cons.IH [OF tail ts(3), of "n + 1" time "ms_merge t0 t"] Cons.prems(3,4) show ?thesis by simp
    next
      case (Idle m)
      then have "50 * m < 500 + procs" using Cons.prems(1) by (simp add: in_time_def)
      with go Idle Cons.IH [OF tail _ Cons.prems(3), of m t0] Cons.prems(2) show ?thesis by simp
    qed
  qed
qed

lemma ms_N_merge: "ms_N (ms_merge t r) = ms_N t + ms_N r"
  by (cases r) simp

lemma fold_merge_counts:
  assumes "transp_on F stack_eq" "forest_ok F (ms_children t0)" "\<forall>t \<in> set ts. forest_ok F (ms_children t)"
    "set p \<subseteq> F" "p \<noteq> []"
  shows "ms_count p (ms_children (fold (\<lambda>tmp t. ms_merge t tmp) ts t0))
      = ms_count p (ms_children t0) + sum_list (map (\<lambda>t. ms_count p (ms_children t)) ts)
    \<and> ms_N (fold (\<lambda>tmp t. ms_merge t tmp) ts t0) = ms_N t0 + sum_list (map ms_N ts)
    \<and> forest_ok F (ms_children (fold (\<lambda>tmp t. ms_merge t tmp) ts t0))"
  using assms(2,3)
proof (induction ts arbitrary: t0)
  case (Cons t ts)
  have ok: "forest_ok F (ms_children t)" "\<forall>t \<in> set ts. forest_ok F (ms_children t)" using Cons.prems(2) by auto
  from Cons.IH [OF forest_ok_merge(1) [OF Cons.prems(1) ok(1)] ok(2)]
    frame_grouping.count_merge(1) [OF frame_groupingI [OF assms(1)] Cons.prems(1) ok(1) assms(4,5)]
  show ?case by simp
qed simp

lemma global_tree_sums:
  assumes "generateMultiStack_threads pf bt threads st = Inr (own, st')" "gm_status s = 1"
    and "in_time (Suc (length ts)) evs" "mset (arrivals evs) = mset packets"
    and "list_all2 (\<lambda>data t. ms_unpack data = Inr (t, [])) packets ts"
  shows "\<exists>t. getGlobalCallStacks pf bt threads (Suc (length ts)) evs s st = Inr (t, st')
    \<and> ms_N t = ms_N own + sum_list (map ms_N ts)
    \<and> (\<forall>F p. transp_on F stack_eq \<and> forest_ok F (ms_children own) \<and> (\<forall>t \<in> set ts. forest_ok F (ms_children t))
          \<and> set p \<subseteq> F \<and> p \<noteq> [] \<longrightarrow>
        ms_count p (ms_children t)
          = ms_count p (ms_children own) + sum_list (map (\<lambda>t. ms_count p (ms_children t)) ts))"
proof -
  from list_all2_reorder_left_invariance [OF assms(5,4)] obtain us where
    us: "list_all2 (\<lambda>data t. ms_unpack data = Inr (t, [])) (arrivals evs) us" "mset us = mset ts" by blast
  have set_us: "set us = set ts" "length us = length ts" using mset_eq_setD [OF us(2)] mset_eq_length [OF us(2)] by auto
  have sums: "sum_list (map g us) = sum_list (map g ts)" for g :: "multi_stack_info \<Rightarrow> int"
    using us(2) by (simp flip: sum_mset_sum_list)
  let ?remote = "fold (\<lambda>tmp t. ms_merge t tmp) us ms_empty_tree"
  have "receive_replies (Suc (length ts)) evs 1 0 ms_empty_tree = Inr ?remote"
    using set_us by (intro receive_replies_merges [OF assms(3) us(1)]) auto
  then have r: "getGlobalCallStacks pf bt threads (Suc (length ts)) evs s st = Inr (ms_merge own ?remote, st')"
    using assms(1,2) by (simp add: getRemoteCallStacks_def getGlobalCallStacks_def)
  have e: "ms_N ms_empty_tree = 0" "forest_ok F (ms_children ms_empty_tree)" for F by (simp_all add: ms_empty_tree_def)
  have N: "ms_N (fold (\<lambda>tmp t. ms_merge t tmp) vs t0) = ms_N t0 + sum_list (map ms_N vs)" for vs t0
    by (induction vs arbitrary: t0) (simp_all add: ms_N_merge)
  have "ms_count p (ms_children (ms_merge own ?remote))
      = ms_count p (ms_children own) + sum_list (map (\<lambda>t. ms_count p (ms_children t)) ts)"
    if F: "transp_on F stack_eq" "forest_ok F (ms_children own)" "\<forall>t \<in> set ts. forest_ok F (ms_children t)"
      "set p \<subseteq> F" "p \<noteq> []" for F p
  proof -
    from fold_merge_counts [OF F(1) e(2) _ F(4,5), of us] F(3) set_us(1)
    have c: "ms_count p (ms_children ?remote)
        = ms_count p (ms_children ms_empty_tree) + sum_list (map (\<lambda>t. ms_count p (ms_children t)) us)"
      "forest_ok F (ms_children ?remote)" by auto
    have "ms_count p (ms_children ms_empty_tree) = 0" using F(5) by (cases p) (simp_all add: ms_empty_tree_def)
    with frame_grouping.count_merge(1) [OF frame_groupingI [OF F(1)] F(2) c(2) F(4,5)] c(1) sums show ?thesis by simp
  qed
  with r show ?thesis by (intro exI [of _ "ms_merge own ?remote"]) (auto simp: N e sums ms_N_merge)
qed

text \<open>
  The global call stacks. When the monitor runs and, before the time limit, one packed tree
  arrives from every other process, in whatever order and with whatever idling between them, the result
  exists, its root counts all threads, and the number at every path is the sum of the numbers of this
  process and of all others.
\<close>

lemma getGlobalCallStacks_sums:
  assumes "generateMultiStack_threads pf bt threads st = Inr (own, st')" "gm_status s = 1"
    and "in_time (Suc (length ts)) evs" "mset (arrivals evs) = mset (map (ms_pack pad) ts)"
    and "pad_ok pad" "\<forall>t \<in> set ts. ms_valid t" "transp_on F stack_eq" "forest_ok F (ms_children own)"
    and "\<forall>t \<in> set ts. forest_ok F (ms_children t)" "set p \<subseteq> F" "p \<noteq> []"
  shows "\<exists>t. getGlobalCallStacks pf bt threads (Suc (length ts)) evs s st = Inr (t, st')
    \<and> ms_count p (ms_children t)
        = ms_count p (ms_children own) + sum_list (map (\<lambda>t. ms_count p (ms_children t)) ts)
    \<and> ms_N t = ms_N own + sum_list (map ms_N ts)"
proof -
  have "list_all2 (\<lambda>data t. ms_unpack data = Inr (t, [])) (map (ms_pack pad) ts) ts"
    using assms(5,6) ms_unpack_packed [of pad _ "[]"] by (simp add: list_all2_conv_all_nth)
  from global_tree_sums [OF assms(1-4) this] show ?thesis using assms(7-11) by blast
qed


lemma receive_replies_fault: "ms_unpack data \<noteq> Inl OutOfFuel"
  unfolding ms_unpack_def by (rule ms_unpack_fuel_enough) simp

text \<open>
  Property C35: the collection of the answers ends. As soon as the clock has reached the limit once, or all other
  processes have answered, or a probe fails, the loop is over, whatever the bytes that arrive.
\<close>

theorem receive_replies_returns:
  assumes "ProbeFailed \<in> set evs \<or> (\<exists>n. Idle n \<in> set evs \<and> 500 + procs \<le> 50 * n) \<or> procs \<le> N_finished + length (arrivals evs)"
  shows "receive_replies procs evs N_finished time t \<noteq> Inl OutOfFuel"
  using assms
proof (induction evs arbitrary: N_finished time t)
  case (Cons ev evs)
  show ?case
  proof (cases "N_finished < procs \<and> 50 * time < 500 + procs")
    case False
    then show ?thesis by auto
  next
    case go: True
    show ?thesis
    proof (cases ev)
      case ProbeFailed
      with go show ?thesis by simp
    next
      case (Arrived data)
      have "receive_replies procs evs (N_finished + 1) time t' \<noteq> Inl OutOfFuel" for t'
        using Cons.prems Arrived by (intro Cons.IH) auto
      with go Arrived receive_replies_fault [of data] show ?thesis
        by (cases "ms_unpack data") (auto split: prod.splits)
    next
      case (Idle n)
      show ?thesis
      proof (cases "500 + procs \<le> 50 * n")
        case True
        with go Idle show ?thesis by (cases evs) auto
      next
        case False
        then have "receive_replies procs evs N_finished n t \<noteq> Inl OutOfFuel"
          using Cons.prems Idle by (intro Cons.IH) auto
        with go Idle show ?thesis by simp
      qed
    qed
  qed
qed auto

theorem receive_replies_returns_witness:
  "receive_replies 4 [Idle 3, Arrived ''junk'', Idle 11] 1 0 ms_empty_tree \<noteq> Inl OutOfFuel"
  by (rule receive_replies_returns) auto

end
