(* ===== verification/Environment.thy ===== *)
theory Environment
  imports CStrings
begin

text \<open>
  The small utilities of \<open>Utilities.cpp\<close> that work on strings: the names of types (\<open>replace\<close>,
  \<open>getTypeName\<close>), the variables of the environment (\<open>setenv\<close>, \<open>getenv\<close>), and the test for valgrind that
  reads one of them.
\<close>

section \<open>Names of types\<close>

text \<open>\<open>None\<close> is a loop that never ends.\<close>

partial_function (option) replace_text :: "cstring \<Rightarrow> cstring \<Rightarrow> cstring \<Rightarrow> cstring option" where
  "replace_text str xs ys =
     (case find_sub xs str of
        None \<Rightarrow> Some str
      | Some pos \<Rightarrow> replace_text (take pos str @ ys @ drop (pos + length xs) str) xs ys)"

declare replace_text.simps [code]

text \<open>
  \<open>demangle\<close> is \<open>__cxa_demangle\<close>, which returns a null pointer when it fails.
\<close>

definition getTypeName :: "(cstring \<Rightarrow> cstring option) \<Rightarrow> cstring \<Rightarrow> cstring result" where
  "getTypeName demangle id_name =
     (case demangle id_name of
        None \<Rightarrow> Inl NullPointer
      | Some tmp \<Rightarrow>
          (case Option.bind (replace_text tmp ''class '' []) (\<lambda>name. replace_text name ''struct '' []) of
             None \<Rightarrow> Inl Diverges
           | Some name \<Rightarrow> Inr name))"

section \<open>The environment\<close>

type_synonym environment = "cstring \<rightharpoonup> cstring"

text \<open>The names \<open>setenv\<close> of the C library accepts.\<close>

definition env_name_ok :: "cstring \<Rightarrow> bool" where
  "env_name_ok name \<longleftrightarrow> name \<noteq> [] \<and> CHR ''='' \<notin> set name"

text \<open>A value of \<open>None\<close> removes the variable. The message of a failure goes into 1024 characters.\<close>

definition setenv :: "cstring \<Rightarrow> cstring option \<Rightarrow> environment \<Rightarrow> environment result" where
  "setenv name value env =
     (if env_name_ok name then Inr (env(name := value))
      else let msg = (case value of
                        Some v \<Rightarrow> ''Error setting environmental variable: '' @ name @ ''='' @ v
                      | None \<Rightarrow> ''Error clearing environmental variable: '' @ name @ [CHR 0x0A])
           in if length msg < 1024 then Inl LogicError else Inl OutOfBounds)"

definition getenv :: "cstring \<Rightarrow> environment \<Rightarrow> cstring" where
  "getenv name env = (case env name of Some tmp \<Rightarrow> tmp | None \<Rightarrow> [])"

definition running_valgrind :: "environment \<Rightarrow> bool" where
  "running_valgrind env =
     (let x = getenv ''LD_PRELOAD'' env
      in find_sub ''/valgrind/'' x \<noteq> None \<or> find_sub ''/vgpreload'' x \<noteq> None)"

section \<open>Properties\<close>

text \<open>Replacing by a shorter text returns, and what it returns is the exhaustive leftmost rewriting.\<close>

lemma replace_text_returns:
  assumes "length y < length x"
  shows "replace_text str x y = Some (subst_all x y str)"
proof (induction "length str" arbitrary: str rule: less_induct)
  case less
  show ?case
  proof (cases "find_sub x str")
    case None
    then show ?thesis by (subst replace_text.simps) (simp add: subst_all_none)
  next
    case (Some pos)
    have "length (spliced str pos (length x) y) < length str"
      using find_sub_bound [OF Some] assms by (simp add: spliced_def)
    from less [OF this] Some assms show ?thesis
      by (subst replace_text.simps) (simp add: subst_all_some spliced_def)
  qed
qed

text \<open>Replacing a text by one that contains it does not return when the text is there.\<close>

lemma replace_text_contains:
  "replace_text str x y = Some r \<Longrightarrow> sublist x y \<longrightarrow> \<not> sublist x str"
proof (rule replace_text.raw_induct [where P = "\<lambda>str x y r. sublist x y \<longrightarrow> \<not> sublist x str"])
  fix rep and str x y :: cstring and r
  assume ih: "\<And>str x y r. rep str x y = Some r \<Longrightarrow> sublist x y \<longrightarrow> \<not> sublist x str"
    and step: "(case find_sub x str of None \<Rightarrow> Some str
      | Some pos \<Rightarrow> rep (take pos str @ y @ drop (pos + length x) str) x y) = Some r"
  show "sublist x y \<longrightarrow> \<not> sublist x str"
  proof (cases "find_sub x str")
    case None
    then show ?thesis by (simp add: find_sub_None_iff)
  next
    case (Some pos)
    with step ih have "sublist x y \<longrightarrow> \<not> sublist x (take pos str @ y @ drop (pos + length x) str)" by simp
    then show ?thesis by (meson sublist_order.order_trans sublist_appendI)
  qed
qed

lemma getTypeName_returns:
  assumes "demangle id_name = Some tmp"
  shows "getTypeName demangle id_name = Inr (subst_all ''struct '' [] (subst_all ''class '' [] tmp))"
    and "\<not> sublist ''struct '' (subst_all ''struct '' [] (subst_all ''class '' [] tmp))"
  using assms by (simp_all add: getTypeName_def replace_text_returns subst_all_removes)

text \<open>
  The environment. A variable that was set reads back with its value, a removed one reads as
  the empty string, and no other variable changes.
\<close>

lemma setenv_getenv:
  "env_name_ok name \<Longrightarrow> \<exists>env'. setenv name value env = Inr env'
     \<and> getenv name env' = (case value of Some v \<Rightarrow> v | None \<Rightarrow> [])
     \<and> (\<forall>other. other \<noteq> name \<longrightarrow> getenv other env' = getenv other env)"
  by (simp add: setenv_def getenv_def split: option.split)

lemma setenv_getenv_witness:
  "\<exists>env'. setenv ''HOME'' (Some ''/root'') Map.empty = Inr env' \<and> getenv ''HOME'' env' = ''/root'' \<and> getenv ''X'' env' = []"
  using setenv_getenv [of "''HOME''" "Some ''/root''" Map.empty] by (auto simp: env_name_ok_def getenv_def)

text \<open>
  A name the C library refuses is an exception, unless the text of its message does not fit the buffer,
  which nothing checks.
\<close>

lemma setenv_refused:
  "\<not> env_name_ok name \<Longrightarrow> setenv name (Some v) env
    = (if length name + length v < 985 then Inl LogicError else Inl OutOfBounds)"
  by (simp add: setenv_def)

end
