(* ===== verification/Monitor.thy ===== *)
theory Monitor
  imports Global_Stacks
begin

text \<open>
  The loop of the monitor thread (\<open>runGlobalMonitorThread\<close>) and the composition of the processes: every
  process answers the requests it gets with its packed tree, and the requesting process adds the
  answers, in whatever order they arrive, to its own tree.
\<close>

section \<open>The loop\<close>

text \<open>
  What one round of the loop finds: the value of \<open>globalMonitorThreadStatus\<close>, the result of the probe for a
  request, with its source and the tag it carries, and the threads that are registered then.
\<close>

datatype request_probe = RequestFailed | NoRequest | Request nat int

record 'tid poll =
  po_status :: int
  po_probe :: request_probe
  po_threads :: "'tid list"

text \<open>
  The messages that are sent, as destination, tag and data. The loop goes on while it is not stopped; the list
  holds the rounds that were observed.
\<close>

fun runGlobalMonitorThread ::
    "platform \<Rightarrow> 'tid backtracer \<Rightarrow> (stack_info \<Rightarrow> char list) \<Rightarrow> 'tid poll list \<Rightarrow> resolver_state
      \<Rightarrow> ((nat \<times> int \<times> char list) list \<times> resolver_state) result" where
  "runGlobalMonitorThread pf bt pad [] st = Inr ([], st)"
| "runGlobalMonitorThread pf bt pad (po # pos) st =
     (if po_status po \<noteq> 1 then Inr ([], st)
      else case po_probe po of
             RequestFailed \<Rightarrow> Inr ([], st)
           | Request src_rank tag \<Rightarrow>
               bindR (monitor_reply pf bt (po_threads po) pad st) (\<lambda>(data, st1).
               bindR (runGlobalMonitorThread pf bt pad pos st1) (\<lambda>(sent, st2).
                 Inr (case data of None \<Rightarrow> sent | Some d \<Rightarrow> (src_rank, tag, d) # sent, st2)))
           | NoRequest \<Rightarrow> runGlobalMonitorThread pf bt pad pos st)"

section \<open>What a monitor promises\<close>

text \<open>All requests that the loop receives before it ends, with the threads that are registered then.\<close>

fun requests_seen :: "'tid poll list \<Rightarrow> (nat \<times> int \<times> 'tid list) list" where
  "requests_seen [] = []"
| "requests_seen (po # pos) =
     (if po_status po \<noteq> 1 then []
      else case po_probe po of
             RequestFailed \<Rightarrow> []
           | Request src tag \<Rightarrow> (src, tag, po_threads po) # requests_seen pos
           | NoRequest \<Rightarrow> requests_seen pos)"

text \<open>Those of them that get an answer: a request that finds no registered thread is dropped.\<close>

fun requests_served :: "'tid poll list \<Rightarrow> (nat \<times> int \<times> 'tid list) list" where
  "requests_served [] = []"
| "requests_served (po # pos) =
     (if po_status po \<noteq> 1 then []
      else case po_probe po of
             RequestFailed \<Rightarrow> []
           | Request src tag \<Rightarrow>
               if po_threads po = [] then requests_served pos else (src, tag, po_threads po) # requests_served pos
           | NoRequest \<Rightarrow> requests_served pos)"

text \<open>The answer that belongs to a request: its tree is made of the threads of the request.\<close>

definition answer_of ::
    "platform \<Rightarrow> 'tid backtracer \<Rightarrow> (stack_info \<Rightarrow> char list) \<Rightarrow> nat \<times> int \<times> 'tid list \<Rightarrow> nat \<times> int \<times> char list \<Rightarrow> bool" where
  "answer_of pf bt pad req msg \<longleftrightarrow>
     fst msg = fst req \<and> fst (snd msg) = fst (snd req) \<and>
     (\<exists>t st1 st2. generateMultiStack_threads pf bt (snd (snd req)) st1 = Inr (t, st2)
        \<and> snd (snd msg) = ms_pack pad t \<and> ms_valid t)"

lemma generated_tree_valid:
  assumes "generateMultiStack_threads pf bt threads st = Inr (t, st')" "length threads < 2147483648"
  shows "ms_valid t" "ms_N t = int (length threads)"
proof -
  obtain c d where "st = (c, d)" by (cases st)
  with assms(1) generateMultiStack_consistent [of pf "map (backtrace bt) threads" c d t st']
  have t: "ms_consistent t" "ms_N t = int (length threads)" by (simp_all add: generateMultiStack_threads_def)
  then show "ms_valid t" "ms_N t = int (length threads)"
    using assms(2) by (auto intro: ms_valid_consistent)
qed

lemma monitor_reply_packs:
  assumes "pad_ok pad" "length threads < 2147483648" "threads \<noteq> []"
  shows "monitor_reply pf bt threads pad st
    = bindR (generateMultiStack_threads pf bt threads st) (\<lambda>(t, st'). Inr (Some (ms_pack pad t), st'))"
proof (cases "generateMultiStack_threads pf bt threads st")
  case (Inr r)
  obtain t st' where r: "r = (t, st')" by (cases r)
  with length_ms_pack [OF assms(1) generated_tree_valid(1) [OF _ assms(2)]] Inr assms(3)
  show ?thesis by (simp add: monitor_reply_def)
qed (use assms(3) in \<open>simp add: monitor_reply_def\<close>)

lemma monitor_answers_all:
  assumes "pad_ok pad" "\<forall>po \<in> set pos. length (po_threads po) < 2147483648"
    "runGlobalMonitorThread pf bt pad pos st = Inr (sent, st')"
  shows "list_all2 (answer_of pf bt pad) (requests_served pos) sent"
  using assms(2,3)
proof (induction pos arbitrary: st sent)
  case (Cons po pos)
  have tail: "list_all2 (answer_of pf bt pad) (requests_served pos) rest"
    if "runGlobalMonitorThread pf bt pad pos st1 = Inr (rest, st')" for st1 rest
    using Cons.IH [OF _ that] Cons.prems(1) by simp
  show ?case
  proof (cases "po_status po = 1")
    case go: True
    show ?thesis
    proof (cases "po_probe po")
      case (Request src tag)
      show ?thesis
      proof (cases "po_threads po = []")
        case True
        with Cons.prems(2) go Request show ?thesis
          by (auto simp: monitor_reply_def bindR_Inr_iff intro: tail)
      next
        case False
        have len: "length (po_threads po) < 2147483648" using Cons.prems(1) by simp
        from Cons.prems(2) go Request False obtain t st1 rest where
          g: "generateMultiStack_threads pf bt (po_threads po) st = Inr (t, st1)"
          "runGlobalMonitorThread pf bt pad pos st1 = Inr (rest, st')" "sent = (src, tag, ms_pack pad t) # rest"
          by (auto simp: monitor_reply_packs [OF assms(1) len False] bindR_Inr_iff)
        have "answer_of pf bt pad (src, tag, po_threads po) (src, tag, ms_pack pad t)"
          using g(1) generated_tree_valid(1) [OF g(1) len] unfolding answer_of_def fst_conv snd_conv by blast
        with tail [OF g(2)] go Request False g(3) show ?thesis by simp
      qed
    qed (use Cons.prems(2) go tail in auto)
  qed (use Cons.prems(2) in simp)
qed simp

lemma monitor_fault:
  assumes "pad_ok pad" "\<forall>po \<in> set pos. length (po_threads po) < 2147483648"
    "runGlobalMonitorThread pf bt pad pos st = Inl e"
  shows "\<exists>po \<in> set pos. \<exists>st1. generateMultiStack_threads pf bt (po_threads po) st1 = Inl e"
  using assms(2,3)
proof (induction pos arbitrary: st)
  case (Cons po pos)
  have tail: ?case if "runGlobalMonitorThread pf bt pad pos st1 = Inl e" for st1
    using Cons.IH [OF _ that] Cons.prems(1) by auto
  show ?case
  proof (cases "po_status po = 1")
    case go: True
    show ?thesis
    proof (cases "po_probe po")
      case (Request src tag)
      have len: "length (po_threads po) < 2147483648" using Cons.prems(1) by simp
      show ?thesis
      proof (cases "po_threads po = []")
        case True
        with Cons.prems(2) go Request have "runGlobalMonitorThread pf bt pad pos st = Inl e"
          by (cases "runGlobalMonitorThread pf bt pad pos st") (auto simp: monitor_reply_def)
        then show ?thesis by (rule tail)
      next
        case False
        show ?thesis
        proof (cases "generateMultiStack_threads pf bt (po_threads po) st")
          case (Inl e')
          with Cons.prems(2) go Request False have "e' = e"
            by (simp add: monitor_reply_packs [OF assms(1) len False])
          with Inl show ?thesis by (intro bexI [of _ po] exI [of _ st]) simp_all
        next
          case (Inr r)
          obtain t st1 where r: "r = (t, st1)" by (cases r)
          with Cons.prems(2) go Request False Inr have "runGlobalMonitorThread pf bt pad pos st1 = Inl e"
            by (cases "runGlobalMonitorThread pf bt pad pos st1")
               (simp_all add: monitor_reply_packs [OF assms(1) len False] split: prod.splits)
          then show ?thesis by (rule tail)
        qed
      qed
    qed (use Cons.prems(2) go tail in auto)
  qed (use Cons.prems(2) in simp)
qed simp

lemma requests_served_seen:
  "requests_served pos = filter (\<lambda>(src, tag, threads). threads \<noteq> []) (requests_seen pos)"
  by (induction pos) (auto split: request_probe.splits)

lemma requests_served_threads:
  "r \<in> set (requests_served pos) \<Longrightarrow> \<exists>po \<in> set pos. snd (snd r) = po_threads po"
  by (induction pos) (auto split: request_probe.splits if_splits)

lemma answer_of_data:
  assumes "pad_ok pad" "answer_of pf bt pad (src, tag, threads) (dst, tag', data)" "length threads < 2147483648"
  shows "dst = src \<and> tag' = tag \<and> (\<exists>t st1 st2. generateMultiStack_threads pf bt threads st1 = Inr (t, st2)
    \<and> length data = ms_size t \<and> ms_unpack data = Inr (t, []) \<and> ms_N t = int (length threads))"
proof -
  from assms(2) obtain t st1 st2 where t: "dst = src" "tag' = tag"
    "generateMultiStack_threads pf bt threads st1 = Inr (t, st2)" "data = ms_pack pad t" "ms_valid t"
    unfolding answer_of_def by auto
  with length_ms_pack [OF assms(1) t(5)] ms_unpack_packed [OF assms(1) t(5), of "[]"]
    generated_tree_valid(2) [OF t(3) assms(3)] t(1-3)
  show ?thesis unfolding t(4) append_Nil2 by blast
qed

text \<open>
  Property C4: what a monitor promises, and what it does not. Of the requests that the loop receives
  before it is stopped, exactly those that find a registered thread get an answer: one each, in order,
  to its source and with the tag it brought. A request that finds no registered thread gets none, and its
  sender waits until its time limit. The data of an answer are exactly as long as the
  buffer that is allocated for them and unpack to the tree of the threads that were registered, whose root
  counts them. The loop can only fail where the making of such a tree fails.
\<close>

theorem monitor_answers_requests:
  assumes "pad_ok pad" "\<forall>po \<in> set pos. length (po_threads po) < 2147483648"
  shows "(\<forall>sent st'. runGlobalMonitorThread pf bt pad pos st = Inr (sent, st') \<longrightarrow>
      list_all2 (\<lambda>(src, tag, threads) (dst, tag', data). dst = src \<and> tag' = tag
         \<and> (\<exists>t st1 st2. generateMultiStack_threads pf bt threads st1 = Inr (t, st2)
              \<and> length data = ms_size t \<and> ms_unpack data = Inr (t, []) \<and> ms_N t = int (length threads)))
        (filter (\<lambda>(src, tag, threads). threads \<noteq> []) (requests_seen pos)) sent)
    \<and> (\<forall>e. runGlobalMonitorThread pf bt pad pos st = Inl e \<longrightarrow>
      (\<exists>po \<in> set pos. \<exists>st1. generateMultiStack_threads pf bt (po_threads po) st1 = Inl e))"
proof (intro conjI allI impI)
  fix sent st' assume "runGlobalMonitorThread pf bt pad pos st = Inr (sent, st')"
  from monitor_answers_all [OF assms this]
  show "list_all2 (\<lambda>(src, tag, threads) (dst, tag', data). dst = src \<and> tag' = tag
         \<and> (\<exists>t st1 st2. generateMultiStack_threads pf bt threads st1 = Inr (t, st2)
              \<and> length data = ms_size t \<and> ms_unpack data = Inr (t, []) \<and> ms_N t = int (length threads)))
        (filter (\<lambda>(src, tag, threads). threads \<noteq> []) (requests_seen pos)) sent"
    unfolding requests_served_seen [symmetric]
  proof (rule list.rel_mono_strong)
    fix r m assume r: "r \<in> set (requests_served pos)" "answer_of pf bt pad r m"
    obtain src tag threads where rr: "r = (src, tag, threads)" by (cases r)
    obtain dst tag' data where mm: "m = (dst, tag', data)" by (cases m)
    have "length threads < 2147483648" using requests_served_threads [OF r(1)] assms(2) rr by auto
    from answer_of_data [OF assms(1) r(2) [unfolded rr mm] this]
    show "(case r of (src, tag, threads) \<Rightarrow> \<lambda>(dst, tag', data).
        dst = src \<and> tag' = tag \<and> (\<exists>t st1 st2. generateMultiStack_threads pf bt threads st1 = Inr (t, st2)
              \<and> length data = ms_size t \<and> ms_unpack data = Inr (t, []) \<and> ms_N t = int (length threads))) m"
      unfolding rr mm prod.case .
  qed
qed (rule monitor_fault [OF assms])

text \<open>
  A process whose two threads are at the addresses 16 and 32, asked once before any thread is registered and
  once after, and then stopped.
\<close>

definition example_backtrace :: "64 word backtracer" where
  "example_backtrace = (\<lambda>tid buffer. (1, buffer[0 := tid]))"

definition example_polls :: "64 word poll list" where
  "example_polls =
     [\<lparr>po_status = 1, po_probe = NoRequest, po_threads = [16]\<rparr>,
      \<lparr>po_status = 1, po_probe = Request 1 5, po_threads = []\<rparr>,
      \<lparr>po_status = 1, po_probe = Request 0 7, po_threads = [16, 32]\<rparr>,
      \<lparr>po_status = 2, po_probe = Request 0 8, po_threads = [16, 32]\<rparr>]"

definition example_state :: resolver_state where
  "example_state = (\<lparr>sc_loaded = True, sc_data = []\<rparr>, \<lambda>_. SIG_IGN)"

lemma example_trace: "map (backtrace example_backtrace) [16, 32] = [[16], [32]]"
proof -
  have one: "xs \<noteq> [] \<Longrightarrow> take (Suc 0) (xs[0 := x]) = [x]" for xs :: "64 word list" and x by (cases xs) simp_all
  have "backtrace example_backtrace tid = [tid]" for tid
    using one [of "replicate 1000 0" tid] by (simp add: backtrace_def resize_vec_def example_backtrace_def)
  then show ?thesis by simp
qed

lemma example_tree:
  "\<exists>t st. generateMultiStack_threads bare_platform example_backtrace [16, 32] example_state = Inr (t, st)"
proof -
  have as: "collect_addresses [[16], [32]] = [16, 32]" by (simp add: collect_addresses_def)
  show ?thesis
    unfolding generateMultiStack_threads_def example_trace generateMultiStack_def generateStacks_def as
      getStackInfo_many_def Let_def example_state_def bare_getStackInfo2 by simp
qed

lemma example_run:
  "\<exists>sent st. runGlobalMonitorThread bare_platform example_backtrace (\<lambda>_. ''pad!'') example_polls example_state = Inr (sent, st)"
proof -
  obtain t st where "generateMultiStack_threads bare_platform example_backtrace [16, 32] example_state = Inr (t, st)"
    using example_tree by blast
  then show ?thesis
    by (simp add: example_polls_def monitor_reply_packs pad_ok_def monitor_reply_def [of _ _ "[]"])
qed

theorem monitor_answers_requests_witness:
  "\<exists>data st t. runGlobalMonitorThread bare_platform example_backtrace (\<lambda>_. ''pad!'') example_polls example_state
      = Inr ([(0, 7, data)], st) \<and> ms_unpack data = Inr (t, []) \<and> ms_N t = 2"
proof -
  obtain sent st where run: "runGlobalMonitorThread bare_platform example_backtrace (\<lambda>_. ''pad!'') example_polls example_state
      = Inr (sent, st)" using example_run by blast
  have served: "filter (\<lambda>(src, tag, threads). threads \<noteq> []) (requests_seen example_polls) = [(0, 7, [16, 32])]"
    by (simp add: example_polls_def)
  have "pad_ok (\<lambda>_. ''pad!'')" "\<forall>po \<in> set example_polls. length (po_threads po) < 2147483648"
    by (simp_all add: pad_ok_def example_polls_def)
  from monitor_answers_requests [OF this, of bare_platform example_backtrace example_state] run obtain m t where
    "sent = [m]" "fst m = 0" "fst (snd m) = 7" "ms_unpack (snd (snd m)) = Inr (t, [])" "ms_N t = 2"
    unfolding served by (auto simp: list_all2_Cons1)
  with run show ?thesis by (cases m) auto
qed

section \<open>All processes together\<close>

text \<open>
  A process with its own platform, its threads as its monitor sees them, and its memory. The requests of
  rank \<open>r\<close> with a tag, and the data that are sent back to it with this tag.
\<close>

record 'tid process =
  pr_platform :: platform
  pr_backtrace :: "'tid backtracer"
  pr_pad :: "stack_info \<Rightarrow> char list"
  pr_polls :: "'tid poll list"
  pr_state :: resolver_state

definition run_monitor :: "'tid process \<Rightarrow> ((nat \<times> int \<times> char list) list \<times> resolver_state) result" where
  "run_monitor q = runGlobalMonitorThread (pr_platform q) (pr_backtrace q) (pr_pad q) (pr_polls q) (pr_state q)"

definition process_ok :: "'tid process \<Rightarrow> bool" where
  "process_ok q \<longleftrightarrow> pad_ok (pr_pad q) \<and> (\<forall>po \<in> set (pr_polls q). length (po_threads po) < 2147483648)
     \<and> returns (run_monitor q)"

definition asked :: "nat \<Rightarrow> int \<Rightarrow> 'tid process \<Rightarrow> 'tid list list" where
  "asked r tag q = map (snd \<circ> snd) (filter (\<lambda>m. fst m = r \<and> fst (snd m) = tag) (requests_served (pr_polls q)))"

definition answered :: "nat \<Rightarrow> int \<Rightarrow> 'tid process \<Rightarrow> char list list" where
  "answered r tag q =
     (case run_monitor q of
        Inl _ \<Rightarrow> []
      | Inr (sent, _) \<Rightarrow> map (snd \<circ> snd) (filter (\<lambda>m. fst m = r \<and> fst (snd m) = tag) sent))"

text \<open>The frames stand for the addresses of the traces; how many traces begin with a path.\<close>

definition resolves :: "(64 word \<Rightarrow> stack_info) \<Rightarrow> 64 word list list \<Rightarrow> bool" where
  "resolves F trace \<longleftrightarrow> (\<forall>a \<in> set (concat trace). si_address (F a) = a)"

definition stacks_along :: "(64 word \<Rightarrow> stack_info) \<Rightarrow> 64 word list list \<Rightarrow> stack_info list \<Rightarrow> int" where
  "stacks_along F trace p = int (length (filter (\<lambda>q. path_of p (rev (map F q))) trace))"

lemma list_all2_filter:
  "list_all2 R xs ys \<Longrightarrow> (\<And>x y. R x y \<Longrightarrow> P x = Q y) \<Longrightarrow> list_all2 R (filter P xs) (filter Q ys)"
  by (induction rule: list_all2_induct) auto

lemma one_answer:
  assumes "process_ok q" "asked r tag q = [threads]"
  shows "\<exists>t st1 st2. answered r tag q = [ms_pack (pr_pad q) t] \<and> ms_valid t
    \<and> generateMultiStack_threads (pr_platform q) (pr_backtrace q) threads st1 = Inr (t, st2)"
proof -
  let ?R = "answer_of (pr_platform q) (pr_backtrace q) (pr_pad q)"
  from assms(1) obtain sent st' where run: "run_monitor q = Inr (sent, st')"
    by (auto simp: process_ok_def returns_iff)
  have "list_all2 ?R (requests_served (pr_polls q)) sent"
    using assms(1) run unfolding process_ok_def run_monitor_def by (intro monitor_answers_all) auto
  then have "list_all2 ?R (filter (\<lambda>m. fst m = r \<and> fst (snd m) = tag) (requests_served (pr_polls q)))
      (filter (\<lambda>m. fst m = r \<and> fst (snd m) = tag) sent)"
    by (rule list_all2_filter) (simp add: answer_of_def)
  moreover obtain req where "filter (\<lambda>m. fst m = r \<and> fst (snd m) = tag) (requests_served (pr_polls q)) = [req]"
    "snd (snd req) = threads"
    using assms(2) unfolding asked_def by auto
  ultimately obtain msg where "filter (\<lambda>m. fst m = r \<and> fst (snd m) = tag) sent = [msg]" "?R req msg"
    by (auto simp: list_all2_Cons1)
  then obtain t st1 st2 where "generateMultiStack_threads (pr_platform q) (pr_backtrace q) threads st1 = Inr (t, st2)"
    "snd (snd msg) = ms_pack (pr_pad q) t" "ms_valid t"
    unfolding answer_of_def \<open>snd (snd req) = threads\<close> by blast
  moreover have "answered r tag q = [snd (snd msg)]"
    using run \<open>_ = [msg]\<close> by (simp add: answered_def)
  ultimately show ?thesis by metis
qed

lemma threads_tree:
  assumes "generateMultiStack_threads pf bt threads st = Inr (t, st')"
  shows "\<exists>F. resolves F (map (backtrace bt) threads) \<and> ms_N t = int (length threads)
    \<and> (\<forall>A. transp_on A stack_eq \<and> F ` set (concat (map (backtrace bt) threads)) \<subseteq> A \<longrightarrow> forest_ok A (ms_children t)
        \<and> (\<forall>p. set p \<subseteq> A \<and> p \<noteq> [] \<longrightarrow> ms_count p (ms_children t) = stacks_along F (map (backtrace bt) threads) p))"
proof -
  obtain c d c' d' where st: "st = (c, d)" "st' = (c', d')" by (cases st; cases st')
  from generateMultiStack_tree [OF assms [unfolded generateMultiStack_threads_def st]]
  show ?thesis unfolding resolves_def stacks_along_def length_map by blast
qed

lemma answers_unpack:
  assumes "length ts = length procs"
    "\<forall>i < length procs. answered r tag (procs ! i) = [ms_pack (pr_pad (procs ! i)) (ts ! i)] \<and> ms_valid (ts ! i) \<and> R i"
    "\<forall>q \<in> set procs. process_ok q"
  shows "list_all2 (\<lambda>data t. ms_unpack data = Inr (t, [])) (concat (map (answered r tag) procs)) ts"
proof -
  let ?p = "\<lambda>i. ms_pack (pr_pad (procs ! i)) (ts ! i)"
  have "map (answered r tag) procs = map (\<lambda>i. [?p i]) [0..<length procs]"
    using assms(2) by (intro nth_equalityI) auto
  then have "concat (map (answered r tag) procs) = map ?p [0..<length procs]"
    by (simp add: concat_map_singleton)
  moreover have "ms_unpack (?p i) = Inr (ts ! i, [])" if "i < length procs" for i
    using that assms(2,3) ms_unpack_packed [of "pr_pad (procs ! i)" "ts ! i" "[]"] by (simp add: process_ok_def)
  ultimately show ?thesis using assms(1) by (simp add: list_all2_conv_all_nth)
qed

text \<open>
  Property C3: the global call stacks of a program. When every other process is asked once, its monitor
  answers, and MPI delivers the answers before the time limit, in any order, then the call of
  \<open>getGlobalCallStacks\<close> succeeds; the root of its tree counts the registered threads of all processes, and
  the number at every path is the number of those threads, over all processes, whose outermost frames are that path,
  as long as the comparison of frames is transitive on the frames of all of them.
\<close>

theorem getGlobalCallStacks_network:
  assumes "generateMultiStack_threads pf bt threads st = Inr (own, st')" "gm_status s = 1"
    and "\<forall>q \<in> set procs. process_ok q" "list_all2 (\<lambda>q ts. asked r tag q = [ts]) procs remote"
    and "in_time (Suc (length procs)) evs" "mset (arrivals evs) = mset (concat (map (answered r tag) procs))"
  defines "trace_of \<equiv> \<lambda>i. map (backtrace (pr_backtrace (procs ! i))) (remote ! i)"
  shows "\<exists>t F Fs. getGlobalCallStacks pf bt threads (Suc (length procs)) evs s st = Inr (t, st')
    \<and> ms_N t = int (length threads + length (concat remote))
    \<and> resolves F (map (backtrace bt) threads) \<and> (\<forall>i < length procs. resolves (Fs ! i) (trace_of i))
    \<and> (\<forall>A p. transp_on A stack_eq \<and> F ` set (concat (map (backtrace bt) threads)) \<subseteq> A
          \<and> (\<forall>i < length procs. (Fs ! i) ` set (concat (trace_of i)) \<subseteq> A) \<and> set p \<subseteq> A \<and> p \<noteq> [] \<longrightarrow>
        ms_count p (ms_children t) = stacks_along F (map (backtrace bt) threads) p
          + (\<Sum>i < length procs. stacks_along (Fs ! i) (trace_of i) p))"
proof -
  let ?n = "length procs"
  have len: "length remote = ?n" using assms(4) by (simp add: list_all2_lengthD)
  have "\<forall>i < ?n. \<exists>t. answered r tag (procs ! i) = [ms_pack (pr_pad (procs ! i)) t] \<and> ms_valid t
      \<and> (\<exists>st1 st2. generateMultiStack_threads (pr_platform (procs ! i)) (pr_backtrace (procs ! i)) (remote ! i) st1 = Inr (t, st2))"
  proof (intro allI impI)
    fix i assume i: "i < ?n"
    have "asked r tag (procs ! i) = [remote ! i]" using list_all2_nthD [OF assms(4) i] .
    from one_answer [OF assms(3) [rule_format, OF nth_mem [OF i]] this]
    show "\<exists>t. answered r tag (procs ! i) = [ms_pack (pr_pad (procs ! i)) t] \<and> ms_valid t
      \<and> (\<exists>st1 st2. generateMultiStack_threads (pr_platform (procs ! i)) (pr_backtrace (procs ! i)) (remote ! i) st1 = Inr (t, st2))"
      by blast
  qed
  from Skolem_list_nth [THEN iffD1, OF this] obtain ts where ts: "length ts = ?n"
    "\<forall>i < ?n. answered r tag (procs ! i) = [ms_pack (pr_pad (procs ! i)) (ts ! i)] \<and> ms_valid (ts ! i)
      \<and> (\<exists>st1 st2. generateMultiStack_threads (pr_platform (procs ! i)) (pr_backtrace (procs ! i)) (remote ! i) st1 = Inr (ts ! i, st2))"
    by (elim exE conjE)
  have "\<forall>i < ?n. \<exists>F. resolves F (trace_of i) \<and> ms_N (ts ! i) = int (length (remote ! i))
      \<and> (\<forall>A. transp_on A stack_eq \<and> F ` set (concat (trace_of i)) \<subseteq> A \<longrightarrow> forest_ok A (ms_children (ts ! i))
          \<and> (\<forall>p. set p \<subseteq> A \<and> p \<noteq> [] \<longrightarrow> ms_count p (ms_children (ts ! i)) = stacks_along F (trace_of i) p))"
    unfolding trace_of_def
  proof (intro allI impI)
    fix i assume "i < ?n"
    with ts(2) obtain st1 st2 where
      "generateMultiStack_threads (pr_platform (procs ! i)) (pr_backtrace (procs ! i)) (remote ! i) st1 = Inr (ts ! i, st2)" by blast
    from threads_tree [OF this] show "\<exists>F. resolves F (map (backtrace (pr_backtrace (procs ! i))) (remote ! i))
      \<and> ms_N (ts ! i) = int (length (remote ! i))
      \<and> (\<forall>A. transp_on A stack_eq \<and> F ` set (concat (map (backtrace (pr_backtrace (procs ! i))) (remote ! i))) \<subseteq> A \<longrightarrow>
          forest_ok A (ms_children (ts ! i))
          \<and> (\<forall>p. set p \<subseteq> A \<and> p \<noteq> [] \<longrightarrow> ms_count p (ms_children (ts ! i))
              = stacks_along F (map (backtrace (pr_backtrace (procs ! i))) (remote ! i)) p))" .
  qed
  from Skolem_list_nth [THEN iffD1, OF this] obtain Fs where Fs: "\<forall>i < ?n. resolves (Fs ! i) (trace_of i) \<and> ms_N (ts ! i) = int (length (remote ! i))
      \<and> (\<forall>A. transp_on A stack_eq \<and> Fs ! i ` set (concat (trace_of i)) \<subseteq> A \<longrightarrow> forest_ok A (ms_children (ts ! i))
          \<and> (\<forall>p. set p \<subseteq> A \<and> p \<noteq> [] \<longrightarrow> ms_count p (ms_children (ts ! i)) = stacks_along (Fs ! i) (trace_of i) p))"
    by (elim exE conjE)
  from threads_tree [OF assms(1)] obtain F where F: "resolves F (map (backtrace bt) threads)" "ms_N own = int (length threads)"
    "\<forall>A. transp_on A stack_eq \<and> F ` set (concat (map (backtrace bt) threads)) \<subseteq> A \<longrightarrow> forest_ok A (ms_children own)
        \<and> (\<forall>p. set p \<subseteq> A \<and> p \<noteq> [] \<longrightarrow> ms_count p (ms_children own) = stacks_along F (map (backtrace bt) threads) p)" by blast
  have packets: "list_all2 (\<lambda>data t. ms_unpack data = Inr (t, [])) (concat (map (answered r tag) procs)) ts"
    using answers_unpack [OF ts assms(3)] .
  have sum: "sum_list (map g ts) = (\<Sum>i < ?n. g (ts ! i))" for g :: "multi_stack_info \<Rightarrow> int"
    by (simp add: sum_list_sum_nth ts(1) atLeast0LessThan)
  have "sum_list (map ms_N ts) = (\<Sum>i < ?n. int (length (remote ! i)))" unfolding sum using Fs by simp
  also have "\<dots> = int (length (concat remote))"
    by (simp add: length_concat sum_list_sum_nth len atLeast0LessThan)
  finally have N: "sum_list (map ms_N ts) = int (length (concat remote))" .
  have procs: "Suc (length procs) = Suc (length ts)" using ts(1) by simp
  from global_tree_sums [OF assms(1,2) assms(5) [unfolded procs] assms(6) packets] obtain t where
    t: "getGlobalCallStacks pf bt threads (Suc (length ts)) evs s st = Inr (t, st')" "ms_N t = ms_N own + sum_list (map ms_N ts)"
    "\<forall>A p. transp_on A stack_eq \<and> forest_ok A (ms_children own) \<and> (\<forall>t \<in> set ts. forest_ok A (ms_children t))
          \<and> set p \<subseteq> A \<and> p \<noteq> [] \<longrightarrow>
        ms_count p (ms_children t) = ms_count p (ms_children own) + sum_list (map (\<lambda>t. ms_count p (ms_children t)) ts)" by blast
  have "ms_count p (ms_children t) = stacks_along F (map (backtrace bt) threads) p
          + (\<Sum>i < ?n. stacks_along (Fs ! i) (trace_of i) p)"
    if A: "transp_on A stack_eq" "F ` set (concat (map (backtrace bt) threads)) \<subseteq> A"
      "\<forall>i < ?n. (Fs ! i) ` set (concat (trace_of i)) \<subseteq> A" "set p \<subseteq> A" "p \<noteq> []" for A p
  proof -
    have "\<forall>u \<in> set ts. forest_ok A (ms_children u)"
      using Fs A(1,3) unfolding set_conv_nth ts(1) by blast
    moreover have stacks: "(\<Sum>i < ?n. ms_count p (ms_children (ts ! i))) = (\<Sum>i < ?n. stacks_along (Fs ! i) (trace_of i) p)"
      using Fs A by (intro sum.cong) auto
    moreover have own: "forest_ok A (ms_children own)"
      "ms_count p (ms_children own) = stacks_along F (map (backtrace bt) threads) p"
      using F(3) A by blast+
    ultimately have "ms_count p (ms_children t)
        = ms_count p (ms_children own) + sum_list (map (\<lambda>t. ms_count p (ms_children t)) ts)"
      using t(3) A by blast
    with own(2) stacks show ?thesis unfolding sum by simp
  qed
  then show ?thesis
    using t(1,2) F(1,2) Fs N procs by (intro exI [of _ t] exI [of _ F] exI [of _ Fs]) auto
qed

theorem getGlobalCallStacks_network_witness:
  "let q = \<lparr>pr_platform = bare_platform, pr_backtrace = example_backtrace, pr_pad = (\<lambda>_. ''pad!''),
             pr_polls = example_polls, pr_state = example_state\<rparr>;
       answer = Arrived (hd (answered 0 7 q))
   in \<exists>t st. getGlobalCallStacks bare_platform example_backtrace [16, 32] 3 [Idle 0, answer, Idle 4, answer]
        \<lparr>gm_status = 1, gm_thread = True, gm_comm = True\<rparr> example_state = Inr (t, st) \<and> ms_N t = 6"
proof -
  let ?q = "\<lparr>pr_platform = bare_platform, pr_backtrace = example_backtrace, pr_pad = (\<lambda>_. ''pad!''),
             pr_polls = example_polls, pr_state = example_state\<rparr>"
  obtain own st where own: "generateMultiStack_threads bare_platform example_backtrace [16, 32] example_state = Inr (own, st)"
    using example_tree by blast
  have q: "process_ok ?q"
    using example_run by (auto simp: process_ok_def run_monitor_def returns_iff pad_ok_def example_polls_def)
  have a: "asked 0 7 ?q = [[16, 32]]" by (simp add: asked_def example_polls_def)
  from one_answer [OF q a] obtain data where d: "answered 0 7 ?q = [data]" by blast
  let ?evs = "[Idle 0, Arrived data, Idle 4, Arrived data]"
  have "\<exists>t. getGlobalCallStacks bare_platform example_backtrace [16, 32] (Suc (length [?q, ?q])) ?evs
      \<lparr>gm_status = 1, gm_thread = True, gm_comm = True\<rparr> example_state = Inr (t, st) \<and> ms_N t = 6"
    using getGlobalCallStacks_network [OF own, of "\<lparr>gm_status = 1, gm_thread = True, gm_comm = True\<rparr>" "[?q, ?q]" 0 7
        "[[16, 32], [16, 32]]" ?evs] q a d by (force simp: in_time_def)
  then show ?thesis by (auto simp: d Let_def numeral_3_eq_3)
qed

end
