(* ===== verification/Windows.thy ===== *)
theory Windows
  imports Resolve
begin

text \<open>
  The branches for Windows: the text of a system error, the search path of the symbols, the loading of the
  modules, the walk along the stack, the frame of an address, the names of the signals and the list of
  threads. The functions of the system are parameters, collected in the record \<open>win_api\<close>; the
  state holds what has been loaded, printed and left open.
\<close>

section \<open>The system\<close>

text \<open>
  A module as the snapshot describes it. \<open>wa_dlls\<close> tells for each of the two libraries whether it could
  be loaded and then whether it has the three functions; \<open>wa_snapshot\<close> is the list of modules, \<open>None\<close> for an
  invalid handle; \<open>wa_EnumProcessModules\<close> is \<open>cbNeeded\<close> and the modules behind the handles;
  \<open>wa_SymLoadModule\<close> is an error or success. A call that fills a buffer gives its return value and the text in
  the buffer.
\<close>

record win_module =
  wm_exePath :: cstring
  wm_module :: cstring
  wm_baseAddr :: "64 word"
  wm_baseSize :: "32 word"

record win_api =
  wa_FormatMessage :: "32 word \<Rightarrow> cstring option"
  wa_cwd :: cstring
  wa_ModuleFileName :: "nat \<times> cstring"
  wa_getenv :: "cstring \<Rightarrow> nat \<times> cstring"
  wa_dlls :: "bool option list"
  wa_snapshot :: "win_module list option"
  wa_EnumProcessModules :: "(nat \<times> win_module list) option"
  wa_strdup :: "cstring \<Rightarrow> bool"
  wa_SymLoadModule :: "win_module \<Rightarrow> 32 word option"
  wa_SymInitialize :: "cstring \<Rightarrow> 32 word option"
  wa_SymGetSearchPath :: "32 word option"

text \<open>
  \<open>ws_modules_loaded\<close> is the static flag of \<open>LoadModules\<close>; \<open>ws_libraries\<close> and \<open>ws_handles\<close> count what was
  opened and not closed.
\<close>

record win_state =
  ws_modules_loaded :: bool
  ws_loaded :: "win_module list"
  ws_printed :: "cstring list"
  ws_symOptions :: "32 word"
  ws_libraries :: nat
  ws_handles :: nat

definition win_print :: "cstring \<Rightarrow> win_state \<Rightarrow> win_state" where
  "win_print msg s = s\<lparr>ws_printed := ws_printed s @ [msg]\<rparr>"

section \<open>The text of a system error\<close>

text \<open>
  The literal of white space ends with a NUL that \<open>find_last_not_of( const char * )\<close> does not see. When all
  characters are white space the index is \<open>npos\<close> and \<open>npos + 1\<close> is 0.
\<close>

definition whitespaces :: "char list" where
  "whitespaces = [CHR 32, CHR 9, CHR 12, CHR 11, CHR 10, CHR 13]"

definition trim_right :: "char list \<Rightarrow> cstring \<Rightarrow> cstring" where
  "trim_right ws s = rev (dropWhile (\<lambda>c. c \<in> set ws) (rev s))"

definition getSystemErrorMessage :: "win_api \<Rightarrow> 32 word \<Rightarrow> cstring" where
  "getSystemErrorMessage api error =
     (if error = 0 then []
      else let result = (case wa_FormatMessage api error of
                           None \<Rightarrow> [] | Some msg \<Rightarrow> trim_right whitespaces msg)
           in if result = [] then dec_str (unat error) else result)"

section \<open>The search path of the symbols\<close>

text \<open>The loop from the end of \<open>temp\<close>: the text up to the rightmost separator, all of it when there is none.\<close>

fun cut_last :: "cstring \<Rightarrow> cstring option" where
  "cut_last [] = None"
| "cut_last (c # p) = (if c = CHR 92 \<or> c = CHR ''/'' \<or> c = CHR '':'' then Some (rev p) else cut_last p)"

definition module_directory :: "cstring \<Rightarrow> cstring" where
  "module_directory temp = (case cut_last (rev temp) of None \<Rightarrow> temp | Some dir \<Rightarrow> dir)"

definition add_variable :: "win_api \<Rightarrow> cstring \<Rightarrow> cstring \<Rightarrow> cstring" where
  "add_variable api name paths =
     (case wa_getenv api name of (n, temp) \<Rightarrow> if 0 < n then paths @ cstr temp @ '';'' else paths)"

definition getSymPaths :: "win_api \<Rightarrow> cstring" where
  "getSymPaths api =
     (let paths = ''.;'' @ cstr (wa_cwd api) @ '';'';
          paths = (case wa_ModuleFileName api of (n, temp) \<Rightarrow>
             if 0 < n
             then let temp = module_directory (cstr temp)
                  in if 0 < length temp then paths @ temp @ '';'' else paths
             else paths);
          paths = add_variable api ''_NT_SYMBOL_PATH'' paths;
          paths = add_variable api ''_NT_ALTERNATE_SYMBOL_PATH'' paths;
          paths = (case wa_getenv api ''SYSTEMROOT'' of (n, temp) \<Rightarrow>
             if 0 < n then paths @ cstr temp @ '';'' @ cstr temp @ [CHR 92] @ ''system32;'' else paths)
      in (case wa_getenv api ''SYSTEMDRIVE'' of (n, temp) \<Rightarrow>
            if 0 < n
            then paths @ ''SRV*;'' @ cstr temp @ [CHR 92] @ ''websymbols*http://msdl.microsoft.com/download/symbols;''
            else paths @ ''SRV*c:'' @ [CHR 92] @ ''websymbols*http://msdl.microsoft.com/download/symbols;''))"

section \<open>The modules\<close>

definition ERROR_SUCCESS :: "32 word" where "ERROR_SUCCESS = 0"
definition ERROR_NOT_ENOUGH_MEMORY :: "32 word" where "ERROR_NOT_ENOUGH_MEMORY = 8"

text \<open>
  The version of the file, from the size of its version block, whether memory for it was found and it could be read, and
  the two words that \<open>VerQueryValue\<close> finds in it; the name of the symbol file from the two arrays of the module's information.
  \<open>LoadModule\<close> computes both and throws them away.
\<close>

definition file_version :: "32 word \<Rightarrow> bool \<Rightarrow> bool \<Rightarrow> (32 word \<times> 32 word) option \<Rightarrow> 64 word" where
  "file_version dwSize allocated found fInfo =
     (if 0 < dwSize \<and> allocated \<and> found
      then case fInfo of None \<Rightarrow> 0 | Some (dwFileVersionMS, dwFileVersionLS) \<Rightarrow>
             ucast dwFileVersionLS + push_bit 32 (ucast dwFileVersionMS)
      else 0)"

definition pdb_name :: "char list \<Rightarrow> char list \<Rightarrow> cstring" where
  "pdb_name LoadedImageName LoadedPdbName =
     (if LoadedPdbName ! 0 \<noteq> NUL then cstr LoadedPdbName else cstr LoadedImageName)"

text \<open>The memory of another process: the number of bytes is cut to 32 bits.\<close>

definition readProcMem :: "(64 word \<Rightarrow> 64 word \<Rightarrow> bool \<times> 64 word) \<Rightarrow> 64 word \<Rightarrow> 32 word \<Rightarrow> bool \<times> 32 word" where
  "readProcMem ReadProcessMemory qwBaseAddress nSize =
     (let (bRet, st) = ReadProcessMemory qwBaseAddress (ucast nSize) in (bRet, ucast st))"

definition LoadModule :: "win_api \<Rightarrow> win_module \<Rightarrow> win_state \<Rightarrow> 32 word \<times> win_state" where
  "LoadModule api m s =
     (if \<not> wa_strdup api (wm_exePath m) \<or> \<not> wa_strdup api (wm_module m) then (ERROR_NOT_ENOUGH_MEMORY, s)
      else case wa_SymLoadModule api m of
             Some error \<Rightarrow> (error, s)
           | None \<Rightarrow> (ERROR_SUCCESS, s\<lparr>ws_loaded := ws_loaded s @ [m]\<rparr>))"

text \<open>The first library that has all three functions stays loaded; one without them is freed.\<close>

fun find_toolhelp :: "bool option list \<Rightarrow> win_state \<Rightarrow> bool \<times> win_state" where
  "find_toolhelp [] s = (False, s)"
| "find_toolhelp (dll # dlls) s =
     (case dll of
        None \<Rightarrow> find_toolhelp dlls s
      | Some found \<Rightarrow>
          let s1 = s\<lparr>ws_libraries := ws_libraries s + 1\<rparr>
          in if found then (True, s1) else find_toolhelp dlls (s1\<lparr>ws_libraries := ws_libraries s1 - 1\<rparr>))"

fun load_each :: "win_api \<Rightarrow> win_module list \<Rightarrow> nat \<Rightarrow> win_state \<Rightarrow> nat \<times> win_state" where
  "load_each api [] cnt s = (cnt, s)"
| "load_each api (me # mes) cnt s = load_each api mes (cnt + 1) (snd (LoadModule api me s))"

definition GetModuleListTH32 :: "win_api \<Rightarrow> win_state \<Rightarrow> bool \<times> win_state" where
  "GetModuleListTH32 api s =
     (let (found, s1) = find_toolhelp (wa_dlls api) s
      in if \<not> found then (False, s1)
         else case wa_snapshot api of
                None \<Rightarrow> (False, s1\<lparr>ws_libraries := ws_libraries s1 - 1\<rparr>)
              | Some mes \<Rightarrow>
                  let (cnt, s2) = load_each api mes 0 (s1\<lparr>ws_handles := ws_handles s1 + 1\<rparr>);
                      s3 = s2\<lparr>ws_handles := ws_handles s2 - 1, ws_libraries := ws_libraries s2 - 1\<rparr>
                  in (0 < cnt, s3))"

text \<open>\<open>hMods\<close> has 1024 entries of 8 bytes.\<close>

fun load_listed :: "win_api \<Rightarrow> win_module list \<Rightarrow> nat \<Rightarrow> win_state \<Rightarrow> nat \<times> win_state" where
  "load_listed api [] cnt s = (cnt, s)"
| "load_listed api (m # ms) cnt s =
     (let (dwRes, s1) = LoadModule api m s;
          s2 = (if dwRes \<noteq> ERROR_SUCCESS
                then win_print (''ERROR: LoadModule ('' @ getSystemErrorMessage api dwRes @ '')'') s1 else s1)
      in load_listed api ms (cnt + 1) s2)"

definition GetModuleListPSAPI :: "win_api \<Rightarrow> win_state \<Rightarrow> bool \<times> win_state" where
  "GetModuleListPSAPI api s =
     (case wa_EnumProcessModules api of
        None \<Rightarrow> (False, s)
      | Some (cbNeeded, hMods) \<Rightarrow>
          if 8192 < cbNeeded
          then (False, win_print ''Insufficient memory allocated in GetModuleListPSAPI'' s)
          else let (cnt, s1) = load_listed api (take (cbNeeded div 8) hMods) 0 s in (cnt \<noteq> 0, s1))"

definition SYMOPT_LOAD_LINES :: "32 word" where "SYMOPT_LOAD_LINES = 0x10"
definition SYMOPT_FAIL_CRITICAL_ERRORS :: "32 word" where "SYMOPT_FAIL_CRITICAL_ERRORS = 0x200"

definition LoadModules :: "win_api \<Rightarrow> win_state \<Rightarrow> win_state" where
  "LoadModules api s =
     (if ws_modules_loaded s then s
      else
        let s1 = s\<lparr>ws_modules_loaded := True\<rparr>;
            s2 = (case wa_SymInitialize api (getSymPaths api) of
                    None \<Rightarrow> s1
                  | Some error \<Rightarrow> win_print (''ERROR: SymInitialize ('' @ getSystemErrorMessage api error @ '')'') s1);
            s3 = s2\<lparr>ws_symOptions := or (or (ws_symOptions s2) SYMOPT_LOAD_LINES) SYMOPT_FAIL_CRITICAL_ERRORS\<rparr>;
            s4 = (case wa_SymGetSearchPath api of
                    None \<Rightarrow> s3
                  | Some error \<Rightarrow> win_print (''ERROR: SymGetSearchPath ('' @ getSystemErrorMessage api error @ '')'') s3);
            (loaded, s5) = GetModuleListTH32 api s4
        in if \<not> loaded then snd (GetModuleListPSAPI api s5) else s5)"

section \<open>The walk along the stack\<close>

text \<open>
  What \<open>StackWalk64\<close> gives for a frame: its return value, the program counter and the return
  address. The loop has a limit of its own; the size of the buffer is not looked at.
\<close>

type_synonym stack_walker = "nat \<Rightarrow> bool \<times> 64 word \<times> 64 word"

function walk_stack :: "stack_walker \<Rightarrow> nat \<Rightarrow> 64 word list \<Rightarrow> nat \<Rightarrow> (nat \<times> 64 word list) result" where
  "walk_stack walk frameNum buffer cnt =
     (if frameNum < 1024
      then let (rtn, pc, ret) = walk frameNum
           in if \<not> rtn then Inr (cnt, buffer)
              else if pc \<noteq> 0 \<and> length buffer \<le> cnt then Inl OutOfBounds
              else let (cnt1, buffer1) = (if pc \<noteq> 0 then (cnt + 1, buffer[cnt := pc]) else (cnt, buffer))
                   in if ret = 0 then Inr (cnt1, buffer1)
                      else walk_stack walk (frameNum + 1) buffer1 cnt1
      else Inr (cnt, buffer))"
  by pat_completeness auto
termination
  by (relation "measure (\<lambda>(walk, frameNum, buffer, cnt). 1024 - frameNum)") auto

declare walk_stack.simps [simp del]

text \<open>The walk always starts from the context of the calling thread.\<close>

definition backtrace_thread_win ::
    "win_api \<Rightarrow> stack_walker \<Rightarrow> 64 word list \<Rightarrow> win_state \<Rightarrow> (nat \<times> 64 word list \<times> win_state) result" where
  "backtrace_thread_win api walk buffer s =
     (let s1 = LoadModules api s
      in bindR (walk_stack walk 0 buffer 0) (\<lambda>(cnt, buffer'). Inr (cnt, buffer', s1)))"

section \<open>The frame of an address\<close>

text \<open>
  \<open>sa_FromAddr\<close> is the array behind \<open>pSym->Name\<close>; \<open>sa_UnDecorate\<close> is the return value of
  \<open>UnDecorateSymbolName\<close>, whose text nobody reads.
\<close>

record symbol_api =
  sa_FromAddr :: "64 word \<Rightarrow> cstring option"
  sa_UnDecorate :: "cstring \<Rightarrow> nat"
  sa_LineFromAddr :: "64 word \<Rightarrow> (32 word \<times> cstring) option"
  sa_ModuleInfo :: "64 word \<Rightarrow> cstring option"

definition set_function_win :: "symbol_api \<Rightarrow> stack_info \<Rightarrow> stack_info result" where
  "set_function_win api info =
     (case sa_FromAddr api (si_address info) of
        None \<Rightarrow> Inr info
      | Some sym_name \<Rightarrow>
          if sa_UnDecorate api (cstr sym_name) \<noteq> 0
          then bindR (cleanupFunctionName sym_name) (\<lambda>name. Inr (info\<lparr>si_function := copy_ptr (Some name) 256\<rparr>))
          else Inr info)"

definition set_file_win :: "symbol_api \<Rightarrow> stack_info \<Rightarrow> stack_info" where
  "set_file_win api info =
     (case sa_LineFromAddr api (si_address info) of
        Some (line, file) \<Rightarrow>
          let (name, path) = copy_path (Some file) 64 64
          in info\<lparr>si_filename := name, si_filenamePath := path, si_line := line\<rparr>
      | None \<Rightarrow>
          let (name, path) = copy_path None 64 64
          in info\<lparr>si_filename := name, si_filenamePath := path, si_line := 0\<rparr>)"

definition set_object_win :: "symbol_api \<Rightarrow> stack_info \<Rightarrow> stack_info" where
  "set_object_win api info =
     (case sa_ModuleInfo api (si_address info) of
        None \<Rightarrow> info
      | Some img \<Rightarrow>
          let (obj, objPath) = copy_path (Some img) 56 48
          in info\<lparr>si_object := obj, si_objectPath := objPath\<rparr>)"

definition getStackInfo_win :: "symbol_api \<Rightarrow> stack_info \<Rightarrow> stack_info result" where
  "getStackInfo_win api info =
     bindR (set_function_win api info) (\<lambda>info. Inr (set_object_win api (set_file_win api info)))"

section \<open>Signals and threads\<close>

text \<open>The numbers of \<open>signal.h\<close> on Windows.\<close>

definition strsignal_win :: "int \<Rightarrow> cstring" where
  "strsignal_win sig =
     (if sig = 22 then ''Abnormal termination''
      else if sig = 8 then ''Floating-point error''
      else if sig = 4 then ''Illegal instruction''
      else if sig = 2 then ''CTRL+C signal''
      else if sig = 11 then ''Illegal storage access''
      else if sig = 15 then ''Termination request''
      else ''Unknown'')"

text \<open>
  The threads of a snapshot, \<open>None\<close> for an invalid handle; the walk over them adds nothing. A snapshot
  without a first thread ends the function at once.
\<close>

definition activeThreads_win :: "64 word list option \<Rightarrow> 64 word \<Rightarrow> nat \<Rightarrow> 64 word list \<times> nat" where
  "activeThreads_win snapshot thread0 handles =
     (case snapshot of
        None \<Rightarrow> (sort ([] @ [thread0]), handles)
      | Some entries \<Rightarrow>
          let h1 = handles + 1
          in if entries = [] then ([], h1 - 1)
             else (sort ([] @ [thread0]), h1 - 1))"

section \<open>Properties\<close>

subsection \<open>Texts\<close>

lemma cut_last_none: "cut_last p = None \<longleftrightarrow> (\<forall>c \<in> set p. c \<noteq> CHR 92 \<and> c \<noteq> CHR ''/'' \<and> c \<noteq> CHR '':'')"
  by (induction p) auto

lemma cut_last_append:
  "\<forall>c \<in> set q. c \<noteq> CHR 92 \<and> c \<noteq> CHR ''/'' \<and> c \<noteq> CHR '':'' \<Longrightarrow> cut_last (q @ p) = cut_last p"
  by (induction q) auto

lemma module_directory_spec:
  assumes "\<forall>c \<in> set f. c \<noteq> CHR 92 \<and> c \<noteq> CHR ''/'' \<and> c \<noteq> CHR '':''"
    and "c = CHR 92 \<or> c = CHR ''/'' \<or> c = CHR '':''"
  shows "module_directory (d @ c # f) = d" "module_directory f = f"
  using assms cut_last_append [of "rev f" "c # rev d"] cut_last_none [of "rev f"]
  by (auto simp: module_directory_def)

lemma trim_right_spec:
  "prefix (trim_right ws s) s \<and> (trim_right ws s = [] \<or> last (trim_right ws s) \<notin> set ws)"
proof -
  have "suffix (dropWhile (\<lambda>c. c \<in> set ws) (rev s)) (rev s)" by (rule suffix_dropWhile)
  then have "prefix (trim_right ws s) s" by (simp add: trim_right_def suffix_to_prefix)
  moreover have "last (trim_right ws s) \<notin> set ws" if "trim_right ws s \<noteq> []"
    using that hd_dropWhile [of "\<lambda>c. c \<in> set ws" "rev s"] by (auto simp: trim_right_def last_rev)
  ultimately show ?thesis by blast
qed

lemma getSystemErrorMessage_spec:
  "getSystemErrorMessage api error = [] \<longleftrightarrow> error = 0"
  "error \<noteq> 0 \<Longrightarrow> last (getSystemErrorMessage api error) \<notin> set whitespaces"
proof -
  have "\<forall>c \<in> set (dec_str n). c \<notin> set whitespaces" for n
    using num_str_digits [of 10 n] by (auto simp: is_digit_def digit_val_def whitespaces_def Let_def split: if_splits)
  then have d: "last (dec_str n) \<notin> set whitespaces" for n by (meson last_in_set num_str_nonempty)
  show "getSystemErrorMessage api error = [] \<longleftrightarrow> error = 0" by (simp add: getSystemErrorMessage_def Let_def)
  show "error \<noteq> 0 \<Longrightarrow> last (getSystemErrorMessage api error) \<notin> set whitespaces"
    using trim_right_spec [of whitespaces] d by (auto simp: getSystemErrorMessage_def Let_def split: option.split)
qed

subsection \<open>The modules\<close>

text \<open>The modules that should be loaded, and those that the symbol handler takes.\<close>

definition takes_module :: "win_api \<Rightarrow> win_module \<Rightarrow> bool" where
  "takes_module api m \<longleftrightarrow> wa_strdup api (wm_exePath m) \<and> wa_strdup api (wm_module m) \<and> wa_SymLoadModule api m = None"

definition psapi_modules :: "win_api \<Rightarrow> win_module list" where
  "psapi_modules api =
     (case wa_EnumProcessModules api of
        None \<Rightarrow> [] | Some (n, ms) \<Rightarrow> if 8192 < n then [] else take (n div 8) ms)"

definition modules_found :: "win_api \<Rightarrow> win_module list" where
  "modules_found api =
     (case wa_snapshot api of
        Some (m # ms) \<Rightarrow> if Some True \<in> set (wa_dlls api) then m # ms else psapi_modules api
      | _ \<Rightarrow> psapi_modules api)"

text \<open>What the steps do to the parts of the state that count.\<close>

definition loads :: "win_api \<Rightarrow> win_module list \<Rightarrow> win_state \<Rightarrow> win_state \<Rightarrow> bool" where
  "loads api ms s s' \<longleftrightarrow> ws_loaded s' = ws_loaded s @ filter (takes_module api) ms
     \<and> ws_libraries s' = ws_libraries s \<and> ws_handles s' = ws_handles s \<and> ws_modules_loaded s' = ws_modules_loaded s"

lemma loads_refl [simp]: "loads api [] s s"
  by (simp add: loads_def)

lemma loads_trans: "loads api ms s s1 \<Longrightarrow> loads api ms' s1 s2 \<Longrightarrow> loads api (ms @ ms') s s2"
  by (simp add: loads_def)

lemma win_print_loads [simp]: "loads api ms s (win_print msg s1) \<longleftrightarrow> loads api ms s s1"
  by (simp add: loads_def win_print_def)

lemma LoadModule_loads: "loads api [m] s (snd (LoadModule api m s))"
  by (auto simp: LoadModule_def loads_def takes_module_def split: option.split)

lemma load_each_loads: "fst (load_each api ms n s) = n + length ms \<and> loads api ms s (snd (load_each api ms n s))"
proof (induction ms arbitrary: n s)
  case (Cons m ms)
  with loads_trans [OF LoadModule_loads [of api m s]] show ?case by fastforce
qed simp

lemma load_listed_loads: "fst (load_listed api ms n s) = n + length ms \<and> loads api ms s (snd (load_listed api ms n s))"
proof (induction ms arbitrary: n s)
  case (Cons m ms)
  obtain e s1 where l: "LoadModule api m s = (e, s1)" by fastforce
  then have "loads api [m] s s1" using LoadModule_loads [of api m s] by simp
  then have "loads api [m] s (if e \<noteq> ERROR_SUCCESS then win_print msg s1 else s1)" for msg by simp
  from loads_trans [OF this] Cons.IH l show ?case by (simp add: Let_def) fastforce
qed simp

lemma find_toolhelp_spec:
  "fst (find_toolhelp dlls s) = (Some True \<in> set dlls)
    \<and> snd (find_toolhelp dlls s) = s\<lparr>ws_libraries := ws_libraries s + (if Some True \<in> set dlls then 1 else 0)\<rparr>"
  by (induction dlls s rule: find_toolhelp.induct) (auto simp: Let_def split: option.splits)

lemma GetModuleListPSAPI_loads:
  "loads api (psapi_modules api) s (snd (GetModuleListPSAPI api s))"
proof (cases "wa_EnumProcessModules api")
  case (Some x)
  obtain n ms where x: "x = (n, ms)" by (cases x)
  from load_listed_loads [of api "take (n div 8) ms" 0 s] Some x show ?thesis
    by (cases "load_listed api (take (n div 8) ms) 0 s") (simp add: GetModuleListPSAPI_def psapi_modules_def)
qed (simp add: GetModuleListPSAPI_def psapi_modules_def)

lemma GetModuleListTH32_loads:
  "fst (GetModuleListTH32 api s) = (Some True \<in> set (wa_dlls api) \<and> (\<exists>m ms. wa_snapshot api = Some (m # ms)))"
  "loads api (if fst (GetModuleListTH32 api s) then the (wa_snapshot api) else []) s (snd (GetModuleListTH32 api s))"
proof -
  obtain f s1 where ft: "find_toolhelp (wa_dlls api) s = (f, s1)" by fastforce
  with find_toolhelp_spec [of "wa_dlls api" s]
  have f: "f = (Some True \<in> set (wa_dlls api))" "s1 = s\<lparr>ws_libraries := ws_libraries s + (if f then 1 else 0)\<rparr>" by auto
  let ?h = "s1\<lparr>ws_handles := ws_handles s1 + 1\<rparr>"
  obtain n s2 where le: "load_each api (the (wa_snapshot api)) 0 ?h = (n, s2)" by fastforce
  with load_each_loads [of api "the (wa_snapshot api)" 0 ?h]
  have l: "n = length (the (wa_snapshot api))" "loads api (the (wa_snapshot api)) ?h s2" by auto
  show "fst (GetModuleListTH32 api s) = (Some True \<in> set (wa_dlls api) \<and> (\<exists>m ms. wa_snapshot api = Some (m # ms)))"
    using le l(1) by (cases f; cases "wa_snapshot api"; cases "the (wa_snapshot api)")
      (simp_all add: GetModuleListTH32_def ft flip: f(1))
  show "loads api (if fst (GetModuleListTH32 api s) then the (wa_snapshot api) else []) s (snd (GetModuleListTH32 api s))"
    using le l f(2) by (cases f; cases "wa_snapshot api"; cases "the (wa_snapshot api)")
      (auto simp add: GetModuleListTH32_def ft loads_def simp flip: f(1))
qed

text \<open>
  Property C26: the modules. The first call of \<open>LoadModules\<close> hands every module of the snapshot to the symbol handler,
  or, when there is no snapshot or it is empty, every module that the process lists; later
  calls change nothing. No library and no handle stays open, on any path.
\<close>

theorem LoadModules_once:
  "LoadModules api' (LoadModules api s) = LoadModules api s
   \<and> ws_libraries (LoadModules api s) = ws_libraries s \<and> ws_handles (LoadModules api s) = ws_handles s
   \<and> ws_loaded (LoadModules api s)
       = ws_loaded s @ (if ws_modules_loaded s then [] else filter (takes_module api) (modules_found api))"
proof (cases "ws_modules_loaded s")
  case False
  define s4 where "s4 = (let
        s1 = s\<lparr>ws_modules_loaded := True\<rparr>;
        s2 = (case wa_SymInitialize api (getSymPaths api) of
                None \<Rightarrow> s1
              | Some error \<Rightarrow> win_print (''ERROR: SymInitialize ('' @ getSystemErrorMessage api error @ '')'') s1);
        s3 = s2\<lparr>ws_symOptions := or (or (ws_symOptions s2) SYMOPT_LOAD_LINES) SYMOPT_FAIL_CRITICAL_ERRORS\<rparr>
      in case wa_SymGetSearchPath api of
           None \<Rightarrow> s3
         | Some error \<Rightarrow> win_print (''ERROR: SymGetSearchPath ('' @ getSystemErrorMessage api error @ '')'') s3)"
  obtain l s5 where th: "GetModuleListTH32 api s4 = (l, s5)" by fastforce
  have r: "LoadModules api s = (if \<not> l then snd (GetModuleListPSAPI api s5) else s5)"
    using False th by (simp add: LoadModules_def s4_def Let_def)
  have s4: "ws_loaded s4 = ws_loaded s" "ws_libraries s4 = ws_libraries s" "ws_handles s4 = ws_handles s" "ws_modules_loaded s4"
    by (simp_all add: s4_def Let_def win_print_def split: option.split)
  from GetModuleListTH32_loads [of api s4] th
  have l: "l = (Some True \<in> set (wa_dlls api) \<and> (\<exists>m ms. wa_snapshot api = Some (m # ms)))"
    "loads api (if l then the (wa_snapshot api) else []) s4 s5" by auto
  have "loads api (modules_found api) s4 (LoadModules api s)"
    using l loads_trans [OF l(2) GetModuleListPSAPI_loads] unfolding r modules_found_def
    by (auto split: option.splits list.splits)
  with s4 False show ?thesis by (simp add: loads_def) (simp add: LoadModules_def [of api'])
qed (simp add: LoadModules_def)

subsection \<open>The walk\<close>

text \<open>
  The frames that a walk visits from frame \<open>k\<close> on: while \<open>StackWalk64\<close> succeeds, up to the first frame without a
  return address, and at most 1024; and their program counters.
\<close>

definition frames_walked :: "stack_walker \<Rightarrow> nat \<Rightarrow> nat list" where
  "frames_walked walk k =
     (let ok = takeWhile (\<lambda>i. fst (walk i)) [k..<1024]
      in take (Suc (length (takeWhile (\<lambda>i. snd (snd (walk i)) \<noteq> 0) ok))) ok)"

definition walked_pcs :: "stack_walker \<Rightarrow> nat \<Rightarrow> 64 word list" where
  "walked_pcs walk k = filter (\<lambda>pc. pc \<noteq> 0) (map (\<lambda>i. fst (snd (walk i))) (frames_walked walk k))"

lemma frames_walked_step:
  "frames_walked walk k =
     (if k < 1024 \<and> fst (walk k) then k # (if snd (snd (walk k)) = 0 then [] else frames_walked walk (Suc k)) else [])"
  by (cases "k < 1024") (simp_all add: frames_walked_def upt_conv_Cons Let_def)

lemma walked_pcs_step:
  "walked_pcs walk k =
     (if k < 1024 \<and> fst (walk k)
      then (if fst (snd (walk k)) = 0 then [] else [fst (snd (walk k))])
        @ (if snd (snd (walk k)) = 0 then [] else walked_pcs walk (Suc k)) else [])"
  by (simp add: walked_pcs_def frames_walked_step [of walk k])

lemma length_walked_pcs: "length (walked_pcs walk k) \<le> 1024 - k"
proof -
  have "length (frames_walked walk k) \<le> 1024 - k"
    using length_takeWhile_le [of "\<lambda>i. fst (walk i)" "[k..<1024]"]
    by (simp add: frames_walked_def Let_def min.coboundedI1)
  then show ?thesis unfolding walked_pcs_def by (intro order_trans [OF length_filter_le]) simp
qed

lemma walk_stack_collects:
  "cnt \<le> length buffer \<Longrightarrow> walk_stack walk k buffer cnt =
    (if cnt + length (walked_pcs walk k) \<le> length buffer
     then Inr (cnt + length (walked_pcs walk k), take cnt buffer @ walked_pcs walk k @ drop (cnt + length (walked_pcs walk k)) buffer)
     else Inl OutOfBounds)"
proof (induction "1024 - k" arbitrary: k buffer cnt rule: less_induct)
  case less
  obtain rtn pc ret where w: "walk k = (rtn, pc, ret)" by (cases "walk k")
  note step = walk_stack.simps [of walk k buffer cnt] walked_pcs_step [of walk k]
  show ?case
  proof (cases "k < 1024 \<and> rtn")
    case False
    with w less(2) show ?thesis by (auto simp: step)
  next
    case go: True
    note IH = less(1) [of "Suc k"]
    show ?thesis
    proof (cases "pc = 0")
      case True
      with go w IH [of cnt buffer] less(2) show ?thesis by (auto simp: step)
    next
      case False
      show ?thesis
      proof (cases "cnt < length buffer")
        case full: False
        with go w False show ?thesis by (simp add: step)
      next
        case room: True
        let ?b = "buffer[cnt := pc]"
        have "take (Suc cnt) ?b = take cnt buffer @ [pc]" "drop (Suc cnt + n) ?b = drop (Suc cnt + n) buffer" for n
          using room by (simp_all add: take_Suc_conv_app_nth)
        with go w False room IH [of "Suc cnt" ?b] show ?thesis by (auto simp: step upd_conv_take_nth_drop)
      qed
    qed
  qed
qed

text \<open>
  Property C27: the walk on Windows collects the program counters of the frames it visits, in order, as long as they fit the
  buffer. Since the limit of the loop is 1024 whatever the size of the buffer, a deep stack writes behind the 1000
  entries that all callers provide; only a buffer of 1024 entries is safe.
\<close>

theorem walk_stack_overflows:
  "walk_stack walk 0 buffer 0 =
     (if length (walked_pcs walk 0) \<le> length buffer
      then Inr (length (walked_pcs walk 0), walked_pcs walk 0 @ drop (length (walked_pcs walk 0)) buffer)
      else Inl OutOfBounds)
   \<and> ((\<forall>w. returns (walk_stack w 0 buffer 0)) \<longleftrightarrow> 1024 \<le> length buffer)"
proof -
  have eq: "walk_stack w 0 buffer 0 =
     (if length (walked_pcs w 0) \<le> length buffer
      then Inr (length (walked_pcs w 0), walked_pcs w 0 @ drop (length (walked_pcs w 0)) buffer)
      else Inl OutOfBounds)" for w
    using walk_stack_collects [of 0 buffer w 0] by simp
  let ?w = "\<lambda>i :: nat. (True, 1 :: 64 word, 1 :: 64 word)"
  have "frames_walked ?w 0 = [0..<1024]" by (simp add: frames_walked_def Let_def takeWhile_eq_all_conv [THEN iffD2])
  then have "length (walked_pcs ?w 0) = 1024" by (simp add: walked_pcs_def)
  then have "returns (walk_stack ?w 0 buffer 0) \<Longrightarrow> 1024 \<le> length buffer" unfolding eq by (simp split: if_splits)
  moreover have "1024 \<le> length buffer \<Longrightarrow> returns (walk_stack w 0 buffer 0)" for w
    using length_walked_pcs [of w 0] unfolding eq by simp
  ultimately show ?thesis using eq by blast
qed

subsection \<open>Frames, paths and threads\<close>

lemma copy_path_None: "4 \<le> n \<Longrightarrow> copy_path None n m = (replicate n NUL, replicate m NUL)"
  by (simp add: copy_path_def stripPath_def copy_ptr_null)

lemma wf_info_no_file [wf_frame]:
  "wf_info s \<Longrightarrow> wf_info (s\<lparr>si_filename := replicate 64 NUL, si_filenamePath := replicate 64 NUL, si_line := l\<rparr>)"
  by (simp add: wf_info_def wf_sizes_def terminated_def)

lemma set_file_win_wf: "wf_info s \<Longrightarrow> wf_info (set_file_win api s) \<and> si_address (set_file_win api s) = si_address s"
  by (auto simp: set_file_win_def copy_path_None intro: wf_info_no_file wf_info_updates(2) split: option.split prod.split)

lemma set_object_win_wf: "wf_info s \<Longrightarrow> wf_info (set_object_win api s) \<and> si_address (set_object_win api s) = si_address s"
  by (auto simp: set_object_win_def intro: wf_info_updates(1) split: option.split prod.split)

lemma set_function_win_wf:
  "wf_info s \<Longrightarrow> set_function_win api s = Inr s' \<Longrightarrow> wf_info s' \<and> si_address s' = si_address s"
  by (auto simp: set_function_win_def bindR_Inr_iff intro: wf_info_updates(3) split: option.splits if_splits)

text \<open>The frames of Windows are as well-formed as those of Linux.\<close>

lemma getStackInfo_win_wf:
  assumes "wf_info info" "getStackInfo_win api info = Inr info'"
  shows "wf_info info' \<and> si_address info' = si_address info"
proof -
  from assms(2) obtain i1 where i1: "set_function_win api info = Inr i1" "info' = set_object_win api (set_file_win api i1)"
    by (auto simp: getStackInfo_win_def bindR_Inr_iff)
  from set_function_win_wf [OF assms(1) i1(1)] set_file_win_wf [of i1 api] set_object_win_wf [of "set_file_win api i1" api]
  show ?thesis unfolding i1(2) by simp
qed

text \<open>
  The list of the active threads holds at most the current one, and not even that when the snapshot has no
  first thread; its handle is closed on every path.
\<close>

lemma activeThreads_win_self:
  "activeThreads_win snapshot thread0 handles
     = (if snapshot = Some [] then [] else [thread0], handles)"
  by (cases snapshot) (simp_all add: activeThreads_win_def)

section \<open>Versions and bytes\<close>

lemma file_version_parts:
  "drop_bit 32 (file_version dwSize True True (Some (ms, ls))) = (if 0 < dwSize then ucast ms else 0)"
  "(ucast (file_version dwSize True True (Some (ms, ls))) :: 32 word) = (if 0 < dwSize then ls else 0)"
proof -
  let ?v = "ucast ls + push_bit 32 (ucast ms) :: 64 word"
  have l: "unat ls < 4294967296" and h: "unat ms < 4294967296"
    using unsigned_less [of ls] unsigned_less [of ms] by simp_all
  have v: "unat ?v = unat ls + unat ms * 4294967296"
    using l h by (simp add: unat_word_ariths unsigned_push_bit_eq push_bit_eq_mult unsigned_ucast_eq take_bit_eq_mod)
  have "unat (drop_bit 32 ?v) = unat ms" using l h unsigned_drop_bit_eq [of 32 ?v, where ?'a = nat] by (simp only: v) (simp add: drop_bit_eq_div take_bit_eq_mod)
  also have "\<dots> = unat (ucast ms :: 64 word)" using h by (simp add: unsigned_ucast_eq take_bit_eq_mod)
  finally have "drop_bit 32 ?v = ucast ms" by (simp add: word_unat_eq_iff)
  then show "drop_bit 32 (file_version dwSize True True (Some (ms, ls))) = (if 0 < dwSize then ucast ms else 0)"
    by (simp add: file_version_def)
  have "unat (ucast ?v :: 32 word) = unat ls" using l v by (simp add: unsigned_ucast_eq take_bit_eq_mod)
  then show "(ucast (file_version dwSize True True (Some (ms, ls))) :: 32 word) = (if 0 < dwSize then ls else 0)"
    by (simp add: file_version_def word_unat_eq_iff)
qed

text \<open>A read never returns more bytes than were asked for, so that nothing is lost.\<close>

lemma readProcMem_exact:
  assumes "snd (ReadProcessMemory qwBaseAddress (ucast nSize)) \<le> ucast nSize"
  shows "unat (snd (readProcMem ReadProcessMemory qwBaseAddress nSize))
    = unat (snd (ReadProcessMemory qwBaseAddress (ucast nSize)))"
proof -
  have n: "unat nSize < 4294967296" using unsigned_less [of nSize] by simp
  then have "unat (snd (ReadProcessMemory qwBaseAddress (ucast nSize))) \<le> unat nSize"
    using assms by (simp add: word_le_nat_alt unsigned_ucast_eq take_bit_eq_mod)
  with n show ?thesis by (simp add: readProcMem_def Let_def case_prod_unfold unsigned_ucast_eq take_bit_eq_mod)
qed

end
