(* ===== verification/MacOS.thy ===== *)
theory MacOS
  imports Resolve
begin

text \<open>
  The branches for macOS: the addresses at which the images of the program are loaded (\<open>loadAddress\<close>), the
  lines of the tool \<open>atos\<close> (\<open>split_atos\<close>), the look-up of files and lines with it
  (\<open>getFileAndLineObject\<close>) and the list of threads.
\<close>

section \<open>Load addresses\<close>

text \<open>
  The images of the dynamic linker are pairs of a name and an address. The map keeps the first image of a hash.
  \<open>strrchr\<close> gives a null pointer for a name without a slash, and the character behind it is read.
\<close>

type_synonym image_map = "(32 word \<times> 64 word) list"

fun after_slash :: "cstring \<Rightarrow> cstring option" where
  "after_slash [] = None"
| "after_slash (c # s) =
     (case after_slash s of Some t \<Rightarrow> Some t | None \<Rightarrow> if c = CHR ''/'' then Some s else None)"

fun insert_images :: "(cstring \<times> 64 word) list \<Rightarrow> image_map \<Rightarrow> image_map result" where
  "insert_images [] obj_map = Inr obj_map"
| "insert_images ((name, header) # images) obj_map =
     (case after_slash name of
        None \<Rightarrow> Inl NullPointer
      | Some p \<Rightarrow>
          insert_images images
            (if map_of obj_map (hashString p) = None then obj_map @ [(hashString p, header)] else obj_map))"

definition loadAddress :: "(cstring \<times> 64 word) list \<Rightarrow> 32 word \<Rightarrow> image_map \<Rightarrow> (64 word \<times> image_map) result" where
  "loadAddress images obj_hash obj_map =
     bindR (if obj_map = [] then insert_images images obj_map else Inr obj_map) (\<lambda>obj_map.
       Inr (case map_of obj_map obj_hash of Some address \<Rightarrow> address | None \<Rightarrow> 0, obj_map))"

section \<open>The lines of atos\<close>

text \<open>
  The locals of \<open>split_atos\<close> when it returns; an array that was not written is indeterminate. The function returns
  references to these locals.
\<close>

record atos_data =
  at_fun :: "cstring option"
  at_obj :: "cstring option"
  at_objPath :: "cstring option"
  at_file :: "cstring option"
  at_filePath :: "cstring option"
  at_line :: int

definition atos_new :: atos_data where
  "atos_new = \<lparr>at_fun = None, at_obj = None, at_objPath = None, at_file = None, at_filePath = None, at_line = 0\<rparr>"

text \<open>The file and the line, or only the file, from the text between the next parentheses.\<close>

definition split_location :: "cstring \<Rightarrow> atos_data \<Rightarrow> atos_data result" where
  "split_location tmp data =
     (let p1 = find_char (CHR ''('') tmp;
          p2 = find_char (CHR '')'') tmp;
          start = uadd64 (or_npos p1) 1;
          tmp = take (usub64 (usub64 (or_npos p2) (or_npos p1)) 1) (drop start tmp)
      in case find_char (CHR '':'') tmp of
           Some index \<Rightarrow>
             let (file, filePath) = copy_path (Some (take index tmp)) 64 64
             in bindR (stoi (drop (index + 1) tmp)) (\<lambda>line.
                  Inr (data\<lparr>at_file := Some file, at_filePath := Some filePath, at_line := line\<rparr>))
         | None \<Rightarrow>
             if p1 \<noteq> None
             then let (file, filePath) = copy_path (Some tmp) 64 64
                  in Inr (data\<lparr>at_file := Some file, at_filePath := Some filePath\<rparr>)
             else Inr data)"

definition split_atos :: "cstring \<Rightarrow> atos_data result" where
  "split_atos buf =
     (if buf = [] then Inr atos_new
      else case find_sub '' (in '' buf of
             None \<Rightarrow>
               bindR (cleanupFunctionName (copy_ptr (Some buf) 2048)) (\<lambda>fn. Inr (atos_new\<lparr>at_fun := Some fn\<rparr>))
           | Some index \<Rightarrow>
               bindR (cleanupFunctionName (copy_ptr (Some (take index buf)) 2048)) (\<lambda>fn.
               let tmp = drop (index + 5) buf;
                   index = find_char (CHR '')'') tmp;
                   (obj, objPath) = copy_path (Some (take (or_npos index) tmp)) 64 64
               in split_location (drop (uadd64 (or_npos index) 1) tmp)
                    (atos_new\<lparr>at_fun := Some fn, at_obj := Some obj, at_objPath := Some objPath\<rparr>)))"

section \<open>Files and lines\<close>

fun add_address :: "cstring \<Rightarrow> stack_info list \<Rightarrow> cstring result" where
  "add_address cmd [] = Inr cmd"
| "add_address cmd (s # ss) =
     (if length cmd < 4096 - 32
      then bindR (sprintf_cmd cmd ('' '' @ hex_str (unat (si_address s)))) (\<lambda>cmd'. add_address cmd' ss)
      else Inr cmd)"

definition atos_command :: "64 word \<Rightarrow> stack_info list \<Rightarrow> cstring result" where
  "atos_command addr info =
     (let s = hd info
      in bindR (sprintf_cmd []
             (if cstr (si_objectPath s) = []
              then ''atos -o '' @ cstr (si_object s) @ '' -f -l '' @ hex_str (unat addr)
              else ''atos -o '' @ cstr (si_objectPath s) @ ''/'' @ cstr (si_object s) @ '' -f -l '' @ hex_str (unat addr)))
           (\<lambda>cmd. bindR (add_address cmd info) (\<lambda>cmd. sprintf_cmd cmd '' 2> /dev/null'')))"

text \<open>
  What is done with the references that \<open>split_atos\<close> returned: each of them is read only under a condition, and
  each read is a use of a dead local.
\<close>

definition apply_atos :: "stack_info \<Rightarrow> stack_info result" where
  "apply_atos info =
     (if array_empty (si_function info) then Inl Dangling
      else if array_empty (si_object info) then Inl Dangling
      else if array_empty (si_filename info) then Inl Dangling
      else if si_line info = 0 then Inl Dangling
      else Inr info)"

text \<open>The row of frame \<open>i\<close> is \<open>output[2*i]\<close>, in a vector of 256 rows; its text ends at a NUL.\<close>

fun add_atos :: "cstring list \<Rightarrow> nat \<Rightarrow> nat list \<Rightarrow> stack_info list \<Rightarrow> stack_info list result" where
  "add_atos outp i [] info = Inr info"
| "add_atos outp i (p # ps) info =
     (if length outp \<le> 2 * i \<or> \<not> terminated (outp ! (2 * i)) then Inl OutOfBounds
      else bindR (split_atos (cstr (outp ! (2 * i)))) (\<lambda>data.
           bindR (apply_atos (info ! p)) (\<lambda>s. add_atos outp (Suc i) ps (info[p := s]))))"

definition getFileAndLineObject_mac ::
    "platform \<Rightarrow> (cstring \<times> 64 word) list \<Rightarrow> nat static_vector \<Rightarrow> stack_info list
      \<Rightarrow> image_map \<times> (int \<Rightarrow> disposition) \<Rightarrow> (stack_info list \<times> image_map \<times> (int \<Rightarrow> disposition)) result" where
  "getFileAndLineObject_mac pf images batch info = (\<lambda>(obj_map, d).
     if sv_empty batch then Inr (info, obj_map, d)
     else let ps = sv_elems batch
          in bindR (loadAddress images (hashString (si_object (info ! hd ps))) obj_map) (\<lambda>(load_address, obj_map).
             if load_address = 0 then Inr (info, obj_map, d)
             else bindR (atos_command load_address (map ((!) info) ps)) (\<lambda>cmd.
                  bindR (exec2_into (pf_popen pf) cmd (sv_new 256 (replicate 512 NUL)) d) (\<lambda>(outp, d').
                    if sv_size outp \<noteq> sv_size batch then Inr (info, obj_map, d')
                    else bindR (add_atos (d_data outp) 0 ps info) (\<lambda>info'. Inr (info', obj_map, d'))))))"

text \<open>The threads of the task are walked and none is added.\<close>

definition activeThreads_mac :: "64 word list \<Rightarrow> 64 word \<Rightarrow> 64 word list" where
  "activeThreads_mac thread_list thread0 = sort ([] @ [thread0])"

section \<open>Properties\<close>

lemma find_sub_append:
  assumes "find_sub s x = Some k"
  shows "find_sub s (x @ y) = Some k"
proof (rule find_sub_leastI)
  note d = find_sub_SomeD [OF assms] find_sub_bound [OF assms]
  show "k \<le> length (x @ y)" "prefix s (drop k (x @ y))" using d by auto
  fix j assume j: "j < k"
  show "\<not> prefix s (drop j (x @ y))"
  proof
    assume "prefix s (drop j (x @ y))"
    then have "prefix s (drop j x @ y)" using j d(2) by simp
    moreover have "length s \<le> length (drop j x)" using j d(2) by simp
    ultimately have "prefix s (drop j x)" by (meson prefix_length_prefix prefixI)
    with d(1) j show False by blast
  qed
qed

lemma find_char_prefix: "c \<notin> set x \<Longrightarrow> find_char c (x @ y) = map_option ((+) (length x)) (find_char c y)"
proof (induction x)
  case Nil
  show ?case by (simp add: option.map_ident)
next
  case (Cons a x)
  then have "find_char c ((a # x) @ y) = map_option Suc (map_option ((+) (length x)) (find_char c y))" by auto
  then show ?case by (simp add: option.map_comp comp_def)
qed

lemma location_in_parentheses:
  assumes "CHR '')'' \<notin> set file" "CHR '':'' \<notin> set file" "n < 2147483648" "length file < 18446744073709551600"
  shows "split_location ('' ('' @ file @ '':'' @ dec_str n @ '')'') data
    = Inr (data\<lparr>at_file := Some (fst (copy_path (Some file) 64 64)),
                at_filePath := Some (snd (copy_path (Some file) 64 64)), at_line := int n\<rparr>)"
proof -
  let ?tmp = "'' ('' @ file @ '':'' @ dec_str n @ '')''"
  have d: "CHR '')'' \<notin> set (dec_str n)"
    using num_str_digits [of 10 n] by (auto simp: is_digit_def digit_val_def)
  have p1: "find_char (CHR ''('') ?tmp = Some 1" by simp
  have p2: "find_char (CHR '')'') ?tmp = Some (length file + length (dec_str n) + 3)"
    using assms(1) d by (simp add: find_char_prefix)
  have tmp: "take (usub64 (usub64 (length file + length (dec_str n) + 3) 1) 1) (drop (uadd64 1 1) ?tmp)
      = file @ '':'' @ dec_str n"
    by (simp add: usub64_small uadd64_small npos_def)
  have colon: "find_char (CHR '':'') (file @ '':'' @ dec_str n) = Some (length file)"
    using find_char_notin [OF assms(2), of "dec_str n"] by simp
  have "stoi (dec_str n) = Inr (int n)" using stoi_dec [of "[]" n] assms(3) by (simp add: stops_def)
  then show ?thesis
    unfolding split_location_def p1 p2 or_npos_simps Let_def tmp colon
    by (simp split: prod.split)
qed

lemma location_missing:
  assumes "CHR ''('' \<notin> set text" "CHR '')'' \<notin> set text" "CHR '':'' \<notin> set text" "length text < npos"
  shows "split_location text data = Inr data"
proof -
  have "uadd64 npos 1 = 0" "usub64 (usub64 npos npos) 1 = npos" by (simp_all add: uadd64_def usub64_def npos_def)
  moreover have "take npos text = text" using assms(4) by simp
  ultimately show ?thesis using assms(1-3) by (simp add: split_location_def Let_def find_char_None_iff [THEN iffD2])
qed

text \<open>
  A line of \<open>atos\<close>. From the text of a function, an image in \<open>(in \<dots>)\<close> and a file with a line in the next
  parentheses, \<open>split_atos\<close> recovers exactly these parts, the names cut to their arrays; when the tool prints an offset
  instead of a file, the file stays indeterminate and the line 0.
\<close>

lemma split_atos_reads:
  assumes "find_sub '' (in '' (fn @ '' (in '') = Some (length fn)" "cleanupFunctionName (copy_ptr (Some fn) 2048) = Inr name"
    and "CHR '')'' \<notin> set obj" "length obj < 18446744073709551600"
    and "CHR '')'' \<notin> set file" "CHR '':'' \<notin> set file" "n < 2147483648" "length file < 18446744073709551600"
    and "CHR ''('' \<notin> set offset" "CHR '')'' \<notin> set offset" "CHR '':'' \<notin> set offset" "length offset < npos"
  defines "data \<equiv> atos_new\<lparr>at_fun := Some name, at_obj := Some (fst (copy_path (Some obj) 64 64)),
      at_objPath := Some (snd (copy_path (Some obj) 64 64))\<rparr>"
  shows "split_atos (fn @ '' (in '' @ obj @ '') ('' @ file @ '':'' @ dec_str n @ '')'')
      = Inr (data\<lparr>at_file := Some (fst (copy_path (Some file) 64 64)),
                  at_filePath := Some (snd (copy_path (Some file) 64 64)), at_line := int n\<rparr>)
    \<and> split_atos (fn @ '' (in '' @ obj @ '')'' @ offset) = Inr data"
proof -
  have split: "split_atos (fn @ '' (in '' @ obj @ CHR '')'' # rest) = split_location rest data" for rest
  proof -
    let ?buf = "fn @ '' (in '' @ obj @ CHR '')'' # rest"
    have "find_sub '' (in '' ?buf = Some (length fn)"
      using find_sub_append [OF assms(1), of "obj @ CHR '')'' # rest"] by simp
    moreover have "find_char (CHR '')'') (obj @ CHR '')'' # rest) = Some (length obj)"
      by (rule find_char_notin [OF assms(3)])
    moreover have "uadd64 (length obj) 1 = Suc (length obj)" using assms(4) by (simp add: uadd64_small npos_def)
    ultimately show ?thesis
      using assms(2) unfolding split_atos_def data_def by (simp add: Let_def split: prod.split)
  qed
  show ?thesis
    using split [of "'' ('' @ file @ '':'' @ dec_str n @ '')''"] split [of offset]
      location_in_parentheses [OF assms(5-8)] location_missing [OF assms(9-12)] by simp
qed

subsection \<open>What the branch achieves\<close>

text \<open>
  The arrays of a frame are never empty in the sense of \<open>std::array\<close>, so of the answer only the line
  could be used, and that is read from a dead local: a frame whose line is not yet known, as in every frame that
  comes from an address, ends the look-up in undefined behaviour.
\<close>

lemma apply_atos_dangling:
  "si_line info = 0 \<Longrightarrow> apply_atos info = Inl Dangling"
  "wf_info info \<Longrightarrow> si_line info \<noteq> 0 \<Longrightarrow> apply_atos info = Inr info"
  by (auto simp: apply_atos_def array_empty_def wf_info_def wf_sizes_def)

text \<open>The look-up of images: the first image with the hash of the name, whatever the order of the queries.\<close>

lemma insert_images_spec:
  assumes "\<forall>(name, a) \<in> set images. \<exists>d f. name = d @ CHR ''/'' # f \<and> CHR ''/'' \<notin> set f \<and> p name = f"
  shows "\<exists>m'. insert_images images m = Inr m'
    \<and> map_of m' = map_of (m @ map (\<lambda>(name, a). (hashString (p name), a)) images)"
  using assms
proof (induction images arbitrary: m)
  case (Cons i images)
  obtain name a where i: "i = (name, a)" by (cases i)
  with Cons.prems obtain d f where n: "name = d @ CHR ''/'' # f" "CHR ''/'' \<notin> set f" "p name = f" by auto
  have none: "CHR ''/'' \<notin> set x \<Longrightarrow> after_slash x = None" for x by (induction x) auto
  then have "after_slash (CHR ''/'' # f) = Some f" using n(2) by simp
  then have s: "after_slash name = Some f" unfolding n(1) by (induction d) auto
  let ?m = "if map_of m (hashString f) = None then m @ [(hashString f, a)] else m"
  from Cons.IH [of ?m] Cons.prems obtain m' where m': "insert_images images ?m = Inr m'"
    "map_of m' = map_of (?m @ map (\<lambda>(name, a). (hashString (p name), a)) images)" by auto
  have "map_of (?m @ xs) = map_of (m @ (hashString f, a) # xs)" for xs
    by (auto simp: fun_eq_iff map_add_def split: option.splits)
  with m' show ?case by (simp add: i s n(3))
qed simp

lemma loadAddress_first:
  assumes "\<forall>(name, a) \<in> set images. \<exists>d f. name = d @ CHR ''/'' # f \<and> CHR ''/'' \<notin> set f \<and> p name = f"
  shows "\<exists>m'. loadAddress images h []
      = Inr (case map_of (map (\<lambda>(name, a). (hashString (p name), a)) images) h of Some a \<Rightarrow> a | None \<Rightarrow> 0, m')"
  using insert_images_spec [OF assms, of "[]"] by (auto simp: loadAddress_def)

end
