(* ===== verification/Resources.thy ===== *)
theory Resources
  imports Complex_Main Number_Text
begin

text \<open>
  The parts of \<open>Utilities.cpp\<close> and \<open>Utilities.h\<close> that ask the system: the memory of the machine and of the program,
  on each platform, the difference of two times, the operating system the code is compiled for, and
  the functions that fail on purpose. What the system answers is a parameter.
\<close>

section \<open>The memory of the machine\<close>

text \<open>
  \<open>sysconf\<close> gives \<open>-1\<close> when it fails; the product is computed in \<open>size_t\<close>. On macOS the size counts only when
  \<open>sysctl\<close> returns 0; on Windows the field is read whether or not the call succeeded.
\<close>

definition getSystemMemory :: "64 word \<Rightarrow> 64 word \<Rightarrow> 64 word" where
  "getSystemMemory pages page_size = pages * page_size"

definition getSystemMemory_mac :: "int \<times> 64 word \<Rightarrow> 64 word" where
  "getSystemMemory_mac sysctl_result = (case sysctl_result of (rtn, sz) \<Rightarrow> if rtn = 0 then sz else 0)"

definition getSystemMemory_win :: "64 word \<Rightarrow> 64 word" where
  "getSystemMemory_win ullTotalPhys = ullTotalPhys"

section \<open>The memory of the program\<close>

text \<open>The fields of \<open>mallinfo2\<close>, and those of the older \<open>mallinfo\<close> that are used, which are \<open>int\<close>.\<close>

record mallinfo2 =
  mi_arena :: "64 word"
  mi_ordblks :: "64 word"
  mi_smblks :: "64 word"
  mi_hblks :: "64 word"
  mi_hblkhd :: "64 word"
  mi_usmblks :: "64 word"
  mi_fsmblks :: "64 word"
  mi_uordblks :: "64 word"
  mi_fordblks :: "64 word"
  mi_keepcost :: "64 word"

record mallinfo =
  mo_hblkhd :: "32 word"
  mo_uordblks :: "32 word"

definition getMemoryUsage2 :: "mallinfo2 \<Rightarrow> 64 word" where
  "getMemoryUsage2 meminfo = mi_hblkhd meminfo + mi_uordblks meminfo"

definition getMemoryUsage :: "mallinfo \<Rightarrow> 64 word" where
  "getMemoryUsage meminfo =
     (let size_hblkhd = ucast (mo_hblkhd meminfo); size_uordblks = ucast (mo_uordblks meminfo)
      in size_hblkhd + size_uordblks)"

text \<open>\<open>task_info\<close> on macOS; \<open>None\<close> when it does not return \<open>KERN_SUCCESS\<close>.\<close>

definition getMemoryUsage_mac :: "64 word option \<Rightarrow> 64 word" where
  "getMemoryUsage_mac t_info = (case t_info of None \<Rightarrow> 0 | Some virtual_size \<Rightarrow> virtual_size)"

definition memory_line :: "cstring \<Rightarrow> cstring \<Rightarrow> 64 word \<Rightarrow> cstring" where
  "memory_line indent field n = indent @ field @ '': 0x'' @ hex_str (unat n)"

definition printMemoryUsage :: "cstring \<Rightarrow> mallinfo2 \<Rightarrow> cstring list" where
  "printMemoryUsage indent mem =
     [memory_line indent ''arena'' (mi_arena mem),
      memory_line indent ''ordblks'' (mi_ordblks mem),
      memory_line indent ''smblks'' (mi_smblks mem),
      memory_line indent ''hblks'' (mi_hblks mem),
      memory_line indent ''hblkhd'' (mi_hblkhd mem),
      memory_line indent ''usmblks'' (mi_usmblks mem),
      memory_line indent ''fsmblks'' (mi_fsmblks mem),
      memory_line indent ''uordblks'' (mi_uordblks mem),
      memory_line indent ''fordblks'' (mi_fordblks mem),
      memory_line indent ''keepcost'' (mi_keepcost mem)]"

text \<open>The counters of a process on Windows.\<close>

record memory_counters =
  mc_PageFaultCount :: "32 word"
  mc_PeakWorkingSetSize :: "64 word"
  mc_WorkingSetSize :: "64 word"
  mc_QuotaPeakPagedPoolUsage :: "64 word"
  mc_QuotaPagedPoolUsage :: "64 word"
  mc_QuotaPeakNonPagedPoolUsage :: "64 word"
  mc_QuotaNonPagedPoolUsage :: "64 word"
  mc_PagefileUsage :: "64 word"
  mc_PeakPagefileUsage :: "64 word"
  mc_PrivateUsage :: "64 word"

definition getMemoryUsage_win :: "memory_counters \<Rightarrow> 64 word" where
  "getMemoryUsage_win mem = mc_PagefileUsage mem"

definition printMemoryUsage_win :: "cstring \<Rightarrow> memory_counters \<Rightarrow> cstring list" where
  "printMemoryUsage_win indent mem =
     [memory_line indent ''PageFaultCount'' (ucast (mc_PageFaultCount mem)),
      memory_line indent ''PeakWorkingSetSize'' (mc_PeakWorkingSetSize mem),
      memory_line indent ''WorkingSetSize'' (mc_WorkingSetSize mem),
      memory_line indent ''QuotaPeakPagedPoolUsage'' (mc_QuotaPeakPagedPoolUsage mem),
      memory_line indent ''QuotaPagedPoolUsage'' (mc_QuotaPagedPoolUsage mem),
      memory_line indent ''QuotaPeakNonPagedPoolUsage'' (mc_QuotaPeakNonPagedPoolUsage mem),
      memory_line indent ''QuotaNonPagedPoolUsage'' (mc_QuotaNonPagedPoolUsage mem),
      memory_line indent ''PagefileUsage'' (mc_PagefileUsage mem),
      memory_line indent ''PeakPagefileUsage'' (mc_PeakPagefileUsage mem),
      memory_line indent ''PrivateUsage'' (mc_PrivateUsage mem)]"

section \<open>Time\<close>

text \<open>
  A clock counts periods of \<open>num / den\<close> seconds in an integer. With nanoseconds the counts are
  subtracted as \<open>int64_t\<close>, otherwise the difference is converted, rounding towards zero.
\<close>

definition int64_range :: "int \<Rightarrow> bool" where
  "int64_range i \<longleftrightarrow> - 9223372036854775808 \<le> i \<and> i \<le> 9223372036854775807"

definition diff_ns :: "nat \<Rightarrow> nat \<Rightarrow> int \<Rightarrow> int \<Rightarrow> int result" where
  "diff_ns num den t2 t1 =
     (if num * 1000000000 = den
      then if int64_range (t2 - t1) then Inr (t2 - t1) else Inl Overflow
      else let n = (t2 - t1) * int num * 1000000000
           in Inr (sgn n * (\<bar>n\<bar> div int den)))"

text \<open>
  \<open>time\<close>: \<open>rnd\<close> rounds to the nearest \<open>double\<close>, the constant is rounded too. Sleeping asks the system for a number of nanoseconds.
\<close>

definition time :: "(rat \<Rightarrow> rat) \<Rightarrow> nat \<Rightarrow> nat \<Rightarrow> int \<Rightarrow> int \<Rightarrow> rat result" where
  "time rnd num den d_t0 now =
     bindR (diff_ns num den now d_t0) (\<lambda>ns. Inr (rnd (rnd (1 / 1000000000) * rnd (of_int ns))))"

definition util_sleep_ms :: "32 word \<Rightarrow> int" where
  "util_sleep_ms N = sint N * 1000000"

definition util_sleep_s :: "32 word \<Rightarrow> int" where
  "util_sleep_s N = sint N * 1000000000"

section \<open>The rest\<close>

definition tick :: "'a result" where
  "tick = Inl LogicError"

definition cause_segfault :: "'a result" where
  "cause_segfault = Inl NullPointer"

datatype OS = macOS | Linux | Windows | UnknownOS

text \<open>The macros that the compiler defines decide.\<close>

definition getOS :: "cstring list \<Rightarrow> OS" where
  "getOS defined_macros =
     (let D = (\<lambda>m. m \<in> set defined_macros)
      in if D ''WIN32'' \<or> D ''_WIN32'' \<or> D ''WIN64'' \<or> D ''_WIN64'' then Windows
         else if D ''__APPLE__'' then macOS
         else if D ''__linux'' \<or> D ''__linux__'' \<or> D ''__unix'' \<or> D ''__posix'' then Linux
         else UnknownOS)"

section \<open>Properties\<close>

text \<open>The fields of the older call are those of the newer one, cut to 32 bits.\<close>

definition cut_mallinfo :: "mallinfo2 \<Rightarrow> mallinfo" where
  "cut_mallinfo m = \<lparr>mo_hblkhd = ucast (mi_hblkhd m), mo_uordblks = ucast (mi_uordblks m)\<rparr>"

text \<open>
  The memory in use. With \<open>mallinfo2\<close> it is the sum of the mapped and the allocated bytes, which
  cannot wrap as long as the sum is below \<open>2^64\<close>. With the older call each part is counted modulo
  \<open>2^32\<close>: the answer never exceeds the truth, it is below 8 GB whatever the program uses, and it is exact if and only
  if both parts are below 4 GB.
\<close>

lemma getMemoryUsage_bounds:
  assumes "unat (mi_hblkhd m) + unat (mi_uordblks m) < 18446744073709551616"
  shows "unat (getMemoryUsage2 m) = unat (mi_hblkhd m) + unat (mi_uordblks m)
    \<and> unat (getMemoryUsage (cut_mallinfo m)) = unat (mi_hblkhd m) mod 4294967296 + unat (mi_uordblks m) mod 4294967296
    \<and> getMemoryUsage (cut_mallinfo m) \<le> getMemoryUsage2 m
    \<and> (getMemoryUsage (cut_mallinfo m) = getMemoryUsage2 m
        \<longleftrightarrow> unat (mi_hblkhd m) < 4294967296 \<and> unat (mi_uordblks m) < 4294967296)"
proof -
  let ?h = "unat (mi_hblkhd m)" and ?u = "unat (mi_uordblks m)"
  have two: "unat (getMemoryUsage2 m) = ?h + ?u"
    using assms by (simp add: getMemoryUsage2_def unat_word_ariths)
  have part: "unat (ucast (ucast w :: 32 word) :: 64 word) = unat w mod 4294967296" for w :: "64 word"
    by (simp add: unsigned_ucast_eq take_bit_eq_mod unat_mod_distrib)
  have lt: "?h mod 4294967296 < 4294967296" "?u mod 4294967296 < 4294967296" by simp_all
  then have "?h mod 4294967296 + ?u mod 4294967296 < 18446744073709551616" by linarith
  then have old: "unat (getMemoryUsage (cut_mallinfo m)) = ?h mod 4294967296 + ?u mod 4294967296"
    unfolding getMemoryUsage_def cut_mallinfo_def Let_def by (simp add: unat_word_ariths part)
  have le: "?h mod 4294967296 \<le> ?h" "?u mod 4294967296 \<le> ?u" by simp_all
  have "getMemoryUsage (cut_mallinfo m) = getMemoryUsage2 m \<longleftrightarrow> ?h mod 4294967296 + ?u mod 4294967296 = ?h + ?u"
    by (simp add: word_unat_eq_iff two old)
  also have "\<dots> \<longleftrightarrow> ?h mod 4294967296 = ?h \<and> ?u mod 4294967296 = ?u" using le by linarith
  also have "\<dots> \<longleftrightarrow> ?h < 4294967296 \<and> ?u < 4294967296" by (metis lt mod_less)
  finally show ?thesis using two old le by (simp add: word_le_nat_alt)
qed

text \<open>
  When \<open>sysconf\<close> fails on Linux the answer is not 0, as the documentation says, but almost the whole range.
\<close>

lemma getSystemMemory_failure: "unat (getSystemMemory (- 1) 4096) = 18446744073709547520"
  by (simp add: getSystemMemory_def)

text \<open>A clock that counts nanoseconds and one that counts, say, microseconds give the same difference.\<close>

lemma diff_ns_exact:
  assumes "1000000000 * num = k * den" "0 < den" "int64_range (t2 - t1)"
  shows "diff_ns num den t2 t1 = Inr ((t2 - t1) * int k)"
proof (cases "num * 1000000000 = den")
  case True
  then have "k = 1" using assms(1,2) by (simp add: mult.commute)
  with True assms(3) show ?thesis by (simp add: diff_ns_def)
next
  case False
  have "(t2 - t1) * int num * 1000000000 = (t2 - t1) * int (1000000000 * num)" by simp
  also have "\<dots> = (t2 - t1) * int k * int den" unfolding assms(1) by simp
  finally have n: "(t2 - t1) * int num * 1000000000 = (t2 - t1) * int k * int den" .
  have "sgn x * (\<bar>x * int den\<bar> div int den) = x" "sgn (x * int den) = sgn x" for x
    using assms(2) by (simp_all add: abs_mult sgn_mult mult_sgn_abs)
  with False show ?thesis unfolding diff_ns_def Let_def n by simp
qed

text \<open>Whatever a rounding does, it is monotone and keeps 0: then \<open>time\<close> never goes backwards.\<close>

lemma time_mono:
  assumes "mono rnd" "rnd 0 = 0" "time rnd num den t0 now1 = Inr x" "time rnd num den t0 now2 = Inr y" "now1 \<le> now2"
    "num * 1000000000 = den"
  shows "x \<le> y"
proof -
  have c: "0 \<le> rnd (1 / 1000000000)" using monoD [OF assms(1), of 0 "1 / 1000000000"] assms(2) by simp
  have "rnd (of_int (now1 - t0)) \<le> rnd (of_int (now2 - t0))"
    using assms(5) by (intro monoD [OF assms(1)]) simp
  from monoD [OF assms(1) mult_left_mono [OF this c]]
  have "rnd (rnd (1 / 1000000000) * rnd (of_int (now1 - t0))) \<le> rnd (rnd (1 / 1000000000) * rnd (of_int (now2 - t0)))" .
  then show ?thesis using assms(3,4,6) by (auto simp: time_def diff_ns_def bindR_Inr_iff split: if_splits)
qed

lemma time_witness: "time (\<lambda>x. x) 1 1000000000 5 7 = Inr (1 / 500000000)"
  by (simp add: time_def diff_ns_def int64_range_def)

text \<open>No number of seconds that is an \<open>int\<close> is too long for the clock.\<close>

lemma sleep_in_range: "int64_range (util_sleep_ms N)" "int64_range (util_sleep_s N)"
proof -
  have "- 2147483648 \<le> sint N" "sint N < 2147483648" using sint_ge [of N] sint_lt [of N] by simp_all
  then show "int64_range (util_sleep_ms N)" "int64_range (util_sleep_s N)" by (simp_all add: int64_range_def util_sleep_ms_def util_sleep_s_def)
qed

end
