(* ===== verification/Program_End.thy ===== *)
theory Program_End
  imports Abort Exec
begin

text \<open>
  How a program ends: a signal that is raised and an exception that nobody catches find the handlers that the
  library has installed, which make the report, print it and stop the program. The main function of
  \<open>TestTerminate.cpp\<close>, which provokes each of these ends, is built from them.
\<close>

section \<open>The surroundings of an error\<close>

text \<open>
  What the making of a report asks for: the platform, the stacks of the threads, which threads are registered and which is
  the current one, the stacks of the other processes, the symbols that are loaded; the memory in use and the trace of the
  current thread.
\<close>

record 'tid surroundings =
  su_platform :: platform
  su_backtrace :: "'tid backtracer"
  su_threads :: "'tid list"
  su_self :: 'tid
  su_remote :: multi_stack_info
  su_symbols :: symbols_cache
  su_bytes :: "64 word"
  su_trace :: "64 word list"

definition report :: "'tid surroundings \<Rightarrow> abort_error \<Rightarrow> reporter" where
  "report m err = what_report (su_platform m) (su_backtrace m) (su_threads m) (su_self m) (su_remote m) err (su_symbols m)"

text \<open>
  What can become of the program: it returns from \<open>main\<close>, a signal kills it, \<open>terminate\<close> ends it, it waits for the
  mutex or is stopped, it faults, or it goes on.
\<close>

datatype outcome =
    Returned int error_state
  | KilledBy int error_state
  | Ended ending
  | Waiting
  | Faulted fault
  | GoesOn error_state

definition SIGABRT :: int where "SIGABRT = 6"
definition SIGSEGV :: int where "SIGSEGV = 11"

text \<open>
  \<open>abort_fun( err )\<close>. An empty \<open>std::function\<close> throws; what a function of the user does is not known, here it
  returns. \<open>terminate\<close> asks the error for its text when it prints it, after the handlers are removed.
\<close>

definition call_abort_fun :: "'tid surroundings \<Rightarrow> abort_error \<Rightarrow> error_state \<Rightarrow> outcome" where
  "call_abort_fun m err s =
     (case es_abort_fun s of
        NoFunction \<Rightarrow> Faulted LogicError
      | IgnoreError \<Rightarrow> GoesOn s
      | UserFunction n \<Rightarrow> GoesOn s
      | CallTerminate \<Rightarrow>
          (case terminate (report m err) s of
             Inl e \<Rightarrow> Faulted e
           | Inr None \<Rightarrow> Waiting
           | Inr (Some e) \<Rightarrow> Ended e))"

text \<open>
  The default actions of Linux: some signals are ignored (\<open>SIGCHLD\<close>, \<open>SIGCONT\<close>, \<open>SIGURG\<close>, \<open>SIGWINCH\<close>), some stop the program
  (\<open>SIGSTOP\<close>, \<open>SIGTSTP\<close>, \<open>SIGTTIN\<close>, \<open>SIGTTOU\<close>), all others kill it.
\<close>

definition default_ignored :: "int \<Rightarrow> bool" where
  "default_ignored sig \<longleftrightarrow> sig \<in> {17, 18, 23, 28}"

definition default_stops :: "int \<Rightarrow> bool" where
  "default_stops sig \<longleftrightarrow> sig \<in> {19, 20, 21, 22}"

text \<open>
  A signal that is raised: its default action is taken, a handler of the library makes an error of it, the one that is
  installed while addresses are resolved calls \<open>exit( -1 )\<close>; the handler of the stack requests returns.
\<close>

definition raise_signal :: "'tid surroundings \<Rightarrow> int \<Rightarrow> error_state \<Rightarrow> outcome" where
  "raise_signal m sig s =
     (case sg_disp (es_signals s) sig of
        SIG_DFL \<Rightarrow> (if default_ignored sig then GoesOn s else if default_stops sig then Waiting else KilledBy sig s)
      | TerminateHandler \<Rightarrow> call_abort_fun m (terminateFunctionSignal (su_bytes m) (su_trace m) sig s) s
      | StackInfoHandler \<Rightarrow> Returned (-1) s
      | _ \<Rightarrow> GoesOn s)"

text \<open>\<open>std::abort\<close>: when \<open>SIGABRT\<close> is ignored or its handler returns, it is raised again with its default action.\<close>

definition std_abort :: "'tid surroundings \<Rightarrow> error_state \<Rightarrow> outcome" where
  "std_abort m s = (case raise_signal m SIGABRT s of GoesOn s2 \<Rightarrow> KilledBy SIGABRT s2 | r \<Rightarrow> r)"

text \<open>An exception that nobody catches: when the handler of \<open>std::terminate\<close> returns, the program is aborted.\<close>

definition uncaught :: "'tid surroundings \<Rightarrow> active_exception \<Rightarrow> error_state \<Rightarrow> outcome" where
  "uncaught m active s =
     (case es_terminate s of
        DefaultTerminate \<Rightarrow> std_abort m s
      | NullTermFunc \<Rightarrow> std_abort m s
      | TermFunc \<Rightarrow>
          (case term_func (su_bytes m) (su_trace m) active s of
             (err, s1) \<Rightarrow>
               (case call_abort_fun m err s1 of GoesOn s2 \<Rightarrow> std_abort m s2 | r \<Rightarrow> r)))"

section \<open>TestTerminate\<close>

definition TestTerminate_main :: "'tid surroundings \<Rightarrow> cstring \<Rightarrow> 32 word \<Rightarrow> cstring list \<Rightarrow> error_state \<Rightarrow> outcome" where
  "TestTerminate_main m file line argv s =
     (if length argv \<noteq> 2 then Returned (-1) s
      else case setErrorHandlers NoFunction (setAbortBehavior True 2 s) of
             Inl e \<Rightarrow> Faulted e
           | Inr s1 \<Rightarrow>
               if argv ! 1 = ''signal''
               then (case raise_signal m 6 s1 of GoesOn s2 \<Rightarrow> Returned (-1) s2 | r \<Rightarrow> r)
               else if argv ! 1 = ''abort''
               then uncaught m (AbortError (abort_with (su_bytes m) (su_trace m) ''StackTrace::Utilities::abort'' file line s1)) s1
               else if argv ! 1 = ''throw'' then uncaught m (StdException ''test throw'') s1
               else if argv ! 1 = ''segfault''
               then (case raise_signal m SIGSEGV s1 of GoesOn s2 \<Rightarrow> Faulted NullPointer | r \<Rightarrow> r)
               else Returned (-1) (s1\<lparr>es_perr := es_perr s1 @ [''Unknown argument'' @ newline]\<rparr>))"

text \<open>What a program has written to its error stream.\<close>

fun error_output :: "outcome \<Rightarrow> cstring" where
  "error_output (Returned n s) = concat (es_perr s)"
| "error_output (KilledBy sig s) = concat (es_perr s)"
| "error_output (Ended e) = concat (es_perr (case e of StdAbort s \<Rightarrow> s | MPIAbort s \<Rightarrow> s))"
| "error_output (GoesOn s) = concat (es_perr s)"
| "error_output Waiting = []"
| "error_output (Faulted f) = []"

section \<open>Properties\<close>

lemma skip_nuls_append: "NUL \<notin> set a \<Longrightarrow> skip_nuls (a @ b) = a @ skip_nuls b"
proof (induction a)
  case (Cons c a)
  then show ?case by (cases "a @ b") auto
qed simp

text \<open>Whatever follows, the message begins with the reason and the source.\<close>

lemma report_prefix:
  assumes "report m err s = Inr (txt, c, s')" "NUL \<notin> set (ae_file err)"
  shows "prefix (what_reason err @ what_source err) txt" "NUL \<notin> set txt"
proof -
  let ?h = "what_reason err @ what_source err"
  obtain r where h: "what_head err = ?h @ r" by (simp add: what_head_def)
  have d: "NUL \<notin> set (dec_str n)" for n
    using num_str_digits [of 10 n] by (auto simp: is_digit_def digit_val_def)
  have nul: "NUL \<notin> set ?h" using assms(2) d by (simp add: what_reason_def what_source_def)
  from assms(1) obtain t where "txt = cstr (erase_nuls 0 (what_head err @ t))"
    by (auto simp: report_def what_report_def what_def bindR_Inr_iff)
  then show "NUL \<notin> set txt" by (auto simp: cstr_def dest: set_takeWhileD)
  note \<open>txt = _\<close>
  also have "cstr (erase_nuls 0 (what_head err @ t)) = cstr (?h @ skip_nuls (r @ t))"
    using erase_nuls_spec [of "[]" "what_head err @ t"] skip_nuls_append [OF nul, of "r @ t"] by (simp add: h)
  also have "\<dots> = ?h @ cstr (skip_nuls (r @ t))"
    unfolding cstr_def using nul by (subst takeWhile_append2) auto
  finally show "prefix (what_reason err @ what_source err) txt" by simp
qed

definition library_only :: "error_state \<Rightarrow> bool" where
  "library_only s \<longleftrightarrow> (\<forall>sig. sg_disp (es_signals s) sig \<in> {SIG_DFL, TerminateHandler})"

lemma library_only_clear:
  "\<forall>sig. sg_disp s sig \<in> {SIG_DFL, TerminateHandler}
    \<Longrightarrow> \<forall>sig. sg_disp (clearSignals s) sig \<in> {SIG_DFL, TerminateHandler}"
  by (simp add: clearSignals_spec)

text \<open>
  How an error that reaches the abort function ends the program: with its message, a C string with its reason first, and in a state
  where \<open>SIGABRT\<close> kills it.
\<close>

definition ends_with_report :: "'tid surroundings \<Rightarrow> cstring \<Rightarrow> outcome \<Rightarrow> bool" where
  "ends_with_report m reason r \<longleftrightarrow>
     (\<exists>e. r = Ended e \<and> prefix reason (error_output r) \<and> NUL \<notin> set (error_output r)
       \<and> std_abort m (final_state e) = KilledBy SIGABRT (final_state e))"

lemma call_terminate_ends:
  assumes "error_reachable (\<lambda>_. SIG_DFL) mpi s" "library_only s" "es_abort_fun s = CallTerminate"
    "\<forall>s. returns (report m err s)" "NUL \<notin> set (ae_file err)"
  shows "ends_with_report m (what_reason err @ what_source err) (call_abort_fun m err s)"
proof -
  have inv: "error_inv s" using error_reachable_inv [OF assms(1)] by simp
  then have k: "handlers_known (es_signals s)" by (simp add: error_inv_def)
  obtain t c s' where r: "report m err (report_state s) = Inr (t, c, s')"
    using assms(4) [rule_format, of "report_state s"] by (auto simp: returns_iff)
  from terminate_once [OF inv r [unfolded report_def]] obtain e where e: "terminate (report m err) s = Inr (Some e)"
    "ending_signals (asks_threads err (su_threads m) (su_self m)) (es_signals s) (sg_disp (es_signals (final_state e)))"
    "es_perr (final_state e) = [t]" unfolding report_def by blast
  have "SIGABRT \<noteq> SIGCHLD" "SIGABRT \<noteq> get_thread_callstack_signal"
    by (simp_all add: SIGABRT_def SIGCHLD_def callstack_signal(1))
  then have "sg_disp (es_signals (final_state e)) SIGABRT \<in> {SIG_DFL, TerminateHandler}"
    using e(2) assms(2) by (simp add: ending_signals_def library_only_def)
  then have "sg_disp (es_signals (final_state e)) SIGABRT = SIG_DFL"
    using ending_signals_no_terminate [OF e(2) k, of SIGABRT] by simp
  moreover have "call_abort_fun m err s = Ended e"
    by (simp add: call_abort_fun_def assms(3) e(1))
  moreover have "error_output (Ended e) = t" using e(3) by (simp add: final_state_def)
  ultimately show ?thesis
    using report_prefix [OF r assms(5)] by (simp add: ends_with_report_def std_abort_def raise_signal_def default_ignored_def default_stops_def SIGABRT_def)
qed

lemma ends_with_report_weaken:
  "ends_with_report m a r \<Longrightarrow> prefix b a \<Longrightarrow> ends_with_report m b r"
  unfolding ends_with_report_def using prefix_order.trans by blast

text \<open>The two ways into the abort function, from a state that \<open>setErrorHandlers\<close> has made.\<close>

lemma raised_signal_ends:
  assumes "error_reachable (\<lambda>_. SIG_DFL) mpi s" "library_only s" "es_abort_fun s = CallTerminate"
    "sg_disp (es_signals s) sig = TerminateHandler" "\<forall>err s. ae_stack err = su_trace m \<longrightarrow> returns (report m err s)"
  shows "ends_with_report m (what_reason (terminateFunctionSignal (su_bytes m) (su_trace m) sig s)) (raise_signal m sig s)"
proof -
  let ?err = "terminateFunctionSignal (su_bytes m) (su_trace m) sig s"
  have f: "ae_stack ?err = su_trace m" "ae_file ?err = []"
    by (simp_all add: terminateFunctionSignal_def abort_error_new_def)
  then have "what_source ?err = []" by (simp add: what_source_def)
  with call_terminate_ends [OF assms(1-3), of m ?err] assms(5) f
  have "ends_with_report m (what_reason ?err) (call_abort_fun m ?err s)" by simp
  then show ?thesis by (simp add: raise_signal_def assms(4))
qed

lemma uncaught_ends:
  assumes "error_reachable (\<lambda>_. SIG_DFL) mpi s" "library_only s" "es_abort_fun s = CallTerminate"
    "es_terminate s = TermFunc" "\<not> es_tried_throw s"
    "rethrow (su_bytes m) (su_trace m) active False = (Some err, True)" "ae_stack err = su_trace m" "NUL \<notin> set (ae_file err)"
    "\<forall>err s. ae_stack err = su_trace m \<longrightarrow> returns (report m err s)"
  shows "ends_with_report m (what_reason err @ what_source err) (uncaught m active s)"
proof -
  let ?s = "s\<lparr>es_tried_throw := True, es_signals := clearSignals (es_signals s)\<rparr>"
  have t: "term_func (su_bytes m) (su_trace m) active s = (err, ?s)"
    by (subst term_func.simps) (simp add: assms(5,6))
  have "error_reachable (\<lambda>_. SIG_DFL) mpi ?s"
    by (rule error_reachable.Next [OF assms(1) error_step.Terminated [OF t]])
  moreover have "library_only ?s"
    using library_only_clear [of "es_signals s"] assms(2) by (simp add: library_only_def)
  moreover have "es_abort_fun ?s = CallTerminate" by (simp add: assms(3))
  ultimately have "ends_with_report m (what_reason err @ what_source err) (call_abort_fun m err ?s)"
    using assms(7-9) by (intro call_terminate_ends) auto
  moreover have "uncaught m active s = call_abort_fun m err ?s"
    using calculation by (auto simp: uncaught_def assms(4) t ends_with_report_def)
  ultimately show ?thesis by simp
qed

lemma signal_reasons:
  "what_reason (terminateFunctionSignal bytes trace 6 s) = ''Unhandled signal (6) caught''"
  "what_reason (terminateFunctionSignal bytes trace SIGSEGV s) = ''Unhandled signal (11) caught''"
proof -
  have "dec_str 6 = ''6''" "dec_str 11 = ''11''" by code_simp+
  then show "what_reason (terminateFunctionSignal bytes trace 6 s) = ''Unhandled signal (6) caught''"
    "what_reason (terminateFunctionSignal bytes trace SIGSEGV s) = ''Unhandled signal (11) caught''"
    by (simp_all add: what_reason_def terminateFunctionSignal_def SIGSEGV_def)
qed

lemma TestTerminate_ends:
  assumes "\<forall>err s. ae_stack err = su_trace m \<longrightarrow> returns (report m err s)" "file \<noteq> []" "NUL \<notin> set file"
  shows "let run = (\<lambda>arg. TestTerminate_main m file line [''TestTerminate'', arg] (error_state0 (\<lambda>_. SIG_DFL) mpi))
    in ends_with_report m ''Unhandled signal (6) caught'' (run ''signal'')
     \<and> ends_with_report m ''Program abort called in file'' (run ''abort'')
     \<and> ends_with_report m ''Unhandled exception caught'' (run ''throw'')
     \<and> ends_with_report m ''Unhandled signal (11) caught'' (run ''segfault'')"
proof -
  let ?run = "\<lambda>arg. TestTerminate_main m file line [''TestTerminate'', arg] (error_state0 (\<lambda>_. SIG_DFL) mpi)"
  obtain s where s: "setErrorHandlers NoFunction (setAbortBehavior True 2 (error_state0 (\<lambda>_. SIG_DFL) mpi)) = Inr s"
    "error_reachable (\<lambda>_. SIG_DFL) mpi s" "es_abort_fun s = CallTerminate" "es_terminate s = TermFunc"
    "\<not> es_tried_throw s"
    and d: "sg_disp (es_signals s) = disp_after defaultSignalsToCatch TerminateHandler (\<lambda>_. SIG_DFL)"
    using setErrorHandlers_initial [of True 2 mpi] by blast
  have lib: "library_only s" by (simp add: library_only_def d disp_after_def)
  have caught: "sg_disp (es_signals s) 6 = TerminateHandler" "sg_disp (es_signals s) SIGSEGV = TerminateHandler"
    by (simp_all add: d disp_after_def defaultSignalsToCatch_def erase_value_def set_allSignals catchable_def signal_numbers
        SIGSEGV_def)
  have signal: "ends_with_report m (what_reason (terminateFunctionSignal (su_bytes m) (su_trace m) sig s)) (raise_signal m sig s)"
    if "sg_disp (es_signals s) sig = TerminateHandler" for sig
    by (rule raised_signal_ends [OF s(2) lib s(3) that assms(1)])
  have exc: "ends_with_report m (what_reason err @ what_source err) (uncaught m active s)"
    if "rethrow (su_bytes m) (su_trace m) active False = (Some err, True)" "ae_stack err = su_trace m" "NUL \<notin> set (ae_file err)"
    for active err
    by (rule uncaught_ends [OF s(2) lib s(3,4,5) that assms(1)])
  have "ends_with_report m ''Unhandled signal (6) caught'' (?run ''signal'')"
    using signal [OF caught(1)] unfolding signal_reasons
    by (auto simp: TestTerminate_main_def s(1) ends_with_report_def)
  moreover have "ends_with_report m ''Unhandled signal (11) caught'' (?run ''segfault'')"
    using signal [OF caught(2)] unfolding signal_reasons
    by (auto simp: TestTerminate_main_def s(1) ends_with_report_def)
  moreover have "ends_with_report m ''Program abort called in file'' (?run ''abort'')"
  proof -
    let ?err = "abort_with (su_bytes m) (su_trace m) ''StackTrace::Utilities::abort'' file line s"
    let ?done = "complete_error (su_bytes m) (su_trace m) ?err"
    have f: "ae_type ?done = Abort" "ae_file ?done = file" "ae_stack ?done = su_trace m"
      by (simp_all add: complete_error_def abort_with_def abort_error_new_def Let_def)
    then have "ends_with_report m (what_reason ?done @ what_source ?done) (uncaught m (AbortError ?err) s)"
      using assms(3) by (intro exc) (simp_all add: rethrow_def)
    from ends_with_report_weaken [OF this, of "''Program abort called in file''"] show ?thesis
      by (simp add: TestTerminate_main_def s(1) what_reason_def what_source_def f assms(2))
  qed
  moreover have "ends_with_report m ''Unhandled exception caught'' (?run ''throw'')"
  proof -
    let ?err = "abort_error_new\<lparr>ae_message := ''test throw''\<rparr>"
    let ?done = "complete_error (su_bytes m) (su_trace m) ?err"
    have f: "ae_type ?done = Exception" "ae_file ?done = []" "ae_stack ?done = su_trace m"
      by (simp_all add: complete_error_def abort_error_new_def Let_def)
    then have "ends_with_report m (what_reason ?done @ what_source ?done) (uncaught m (StdException ''test throw'') s)"
      by (intro exc) (simp_all add: rethrow_def)
    then show ?thesis by (simp add: TestTerminate_main_def s(1) what_reason_def what_source_def f)
  qed
  ultimately show ?thesis by (simp add: Let_def)
qed

text \<open>
  Property C8: every way in which \<open>TestTerminate\<close> goes wrong (a raised \<open>SIGABRT\<close>, a call of \<open>abort\<close>, an exception that
  nobody catches, a segmentation fault) ends with a report on the error stream that begins with its reason, whenever the
  reports themselves can be made, and in a state where the \<open>SIGABRT\<close> of \<open>std::abort\<close> kills the program instead of
  starting another report.
\<close>

theorem TestTerminate_reports:
  assumes "\<forall>err s. ae_stack err = su_trace m \<longrightarrow> returns (report m err s)" "file \<noteq> []" "NUL \<notin> set file"
  shows "let run = (\<lambda>arg. TestTerminate_main m file line [''TestTerminate'', arg] (error_state0 (\<lambda>_. SIG_DFL) mpi))
    in ends_with_report m ''Unhandled signal (6) caught'' (run ''signal'')
     \<and> ends_with_report m ''Program abort called in file'' (run ''abort'')
     \<and> ends_with_report m ''Unhandled exception caught'' (run ''throw'')
     \<and> ends_with_report m ''Unhandled signal (11) caught'' (run ''segfault'')"
  by (rule TestTerminate_ends [OF assms])

theorem TestTerminate_reports_witness:
  "let m = \<lparr>su_platform = bare_platform, su_backtrace = (\<lambda>tid buffer. (0, buffer)), su_threads = [], su_self = (0 :: nat),
      su_remote = ms_empty_tree, su_symbols = \<lparr>sc_loaded = False, sc_data = []\<rparr>, su_bytes = 0, su_trace = []\<rparr>
   in ends_with_report m ''Program abort called in file''
        (TestTerminate_main m ''TestTerminate.cpp'' 24 [''TestTerminate'', ''abort''] (error_state0 (\<lambda>_. SIG_DFL) False))"
proof -
  let ?m = "\<lparr>su_platform = bare_platform, su_backtrace = (\<lambda>tid buffer. (0, buffer)), su_threads = [], su_self = (0 :: nat),
      su_remote = ms_empty_tree, su_symbols = \<lparr>sc_loaded = False, sc_data = []\<rparr>, su_bytes = 0, su_trace = []\<rparr>"
  have "\<forall>err s. ae_stack err = su_trace ?m \<longrightarrow> returns (report ?m err s)"
    by (simp add: report_def what_report_def what_def what_stack_def)
  from TestTerminate_reports [OF this, of "''TestTerminate.cpp''" 24 False] show ?thesis by (simp add: Let_def)
qed

end
