(* ===== verification/Exec_Parallel.thy ===== *)
theory Exec_Parallel
  imports Exec
begin

text \<open>
  Commands that are run by several threads at once, as \<open>test_exec\<close> of \<open>TestStack.cpp\<close> does: \<open>exec2\<close> saves, changes and
  restores the disposition of \<open>SIGCHLD\<close>, which all threads of the process share, and the test collects its verdict
  in two shared variables. A run is a schedule: the list of the threads in the order in which they make their
  steps.
\<close>

section \<open>The threads\<close>

text \<open>
  Where a thread is in its loop of calls, with the number of calls that are left: before the call, in the call with
  the saved disposition, before the disposition is restored, with the output; then at the reads and
  the writes of \<open>pass = pass && pass_local\<close> and of \<open>count += N\<close>.
\<close>

datatype exec_phase =
    Calling nat
  | Running nat disposition
  | Restoring nat disposition cstring
  | ReadPass
  | WritePass bool
  | ReadCount
  | WriteCount int
  | Finished

record exec_thread =
  et_phase :: exec_phase
  et_pass_local :: bool

record exec_world =
  ew_sigchld :: disposition
  ew_pass :: bool
  ew_count :: int
  ew_threads :: "exec_thread list"

text \<open>
  The output of the calls of a thread, \<open>None\<close> where no process could be started: then \<open>exec2\<close> returns without
  restoring the disposition, and \<open>exec\<close> returns the empty string.
\<close>

type_synonym outputs = "nat \<Rightarrow> nat \<Rightarrow> cstring option"

definition expected_output :: cstring where
  "expected_output = ''test'' @ [CHR 0x0A]"

definition set_thread :: "nat \<Rightarrow> exec_thread \<Rightarrow> exec_world \<Rightarrow> exec_world" where
  "set_thread i t w = w\<lparr>ew_threads := (ew_threads w)[i := t]\<rparr>"

text \<open>The next step of thread \<open>i\<close>; \<open>N\<close> is the number of calls that every thread makes.\<close>

definition exec_step :: "outputs \<Rightarrow> nat \<Rightarrow> nat \<Rightarrow> exec_world \<Rightarrow> exec_world" where
  "exec_step outs N i w =
     (if length (ew_threads w) \<le> i then w
      else let t = ew_threads w ! i
           in case et_phase t of
                Calling k \<Rightarrow>
                  (if k = 0 then set_thread i (t\<lparr>et_phase := ReadPass\<rparr>) w
                   else set_thread i (t\<lparr>et_phase := Running (k - 1) (ew_sigchld w)\<rparr>) (w\<lparr>ew_sigchld := SIG_IGN\<rparr>))
              | Running k sig \<Rightarrow>
                  (case outs i k of
                     None \<Rightarrow> set_thread i \<lparr>et_phase = Calling k, et_pass_local = False\<rparr> w
                   | Some out \<Rightarrow> set_thread i (t\<lparr>et_phase := Restoring k sig out\<rparr>) w)
              | Restoring k sig out \<Rightarrow>
                  set_thread i \<lparr>et_phase = Calling k, et_pass_local = (et_pass_local t \<and> out = expected_output)\<rparr>
                    (w\<lparr>ew_sigchld := sig\<rparr>)
              | ReadPass \<Rightarrow> set_thread i (t\<lparr>et_phase := WritePass (ew_pass w)\<rparr>) w
              | WritePass pass \<Rightarrow>
                  set_thread i (t\<lparr>et_phase := ReadCount\<rparr>) (w\<lparr>ew_pass := (pass \<and> et_pass_local t)\<rparr>)
              | ReadCount \<Rightarrow> set_thread i (t\<lparr>et_phase := WriteCount (ew_count w)\<rparr>) w
              | WriteCount c \<Rightarrow> set_thread i (t\<lparr>et_phase := Finished\<rparr>) (w\<lparr>ew_count := c + int N\<rparr>)
              | Finished \<Rightarrow> w)"

fun exec_run :: "outputs \<Rightarrow> nat \<Rightarrow> nat list \<Rightarrow> exec_world \<Rightarrow> exec_world" where
  "exec_run outs N [] w = w"
| "exec_run outs N (i # schedule) w = exec_run outs N schedule (exec_step outs N i w)"

definition exec_start :: "nat \<Rightarrow> nat \<Rightarrow> disposition \<Rightarrow> exec_world" where
  "exec_start n N d =
     \<lparr>ew_sigchld = d, ew_pass = True, ew_count = 0,
      ew_threads = replicate n \<lparr>et_phase = Calling N, et_pass_local = True\<rparr>\<rparr>"

definition all_finished :: "exec_world \<Rightarrow> bool" where
  "all_finished w \<longleftrightarrow> (\<forall>t \<in> set (ew_threads w). et_phase t = Finished)"

text \<open>The verdict: \<open>pass = pass && count == 8000\<close> for eight threads of 1000 calls.\<close>

definition exec_verdict :: "nat \<Rightarrow> nat \<Rightarrow> exec_world \<Rightarrow> bool" where
  "exec_verdict n N w \<longleftrightarrow> ew_pass w \<and> ew_count w = int n * int N"

section \<open>What no schedule can break\<close>

definition known :: "disposition \<Rightarrow> disposition \<Rightarrow> bool" where
  "known d x \<longleftrightarrow> x = d \<or> x = SIG_IGN"

definition finished_threads :: "exec_world \<Rightarrow> int" where
  "finished_threads w = int (length (filter (\<lambda>t. et_phase t = Finished) (ew_threads w)))"

definition all_right :: "outputs \<Rightarrow> nat \<Rightarrow> nat \<Rightarrow> bool" where
  "all_right outs n N \<longleftrightarrow> (\<forall>i < n. \<forall>k < N. outs i k = Some expected_output)"

definition phase_ok :: "bool \<Rightarrow> disposition \<Rightarrow> nat \<Rightarrow> int \<Rightarrow> exec_phase \<Rightarrow> bool" where
  "phase_ok right d N done p =
     (case p of
        Calling k \<Rightarrow> k \<le> N
      | Running k sig \<Rightarrow> k < N \<and> known d sig
      | Restoring k sig out \<Rightarrow> k < N \<and> known d sig \<and> (right \<longrightarrow> out = expected_output)
      | WritePass pass \<Rightarrow> right \<longrightarrow> pass
      | WriteCount c \<Rightarrow> int N dvd c \<and> 0 \<le> c \<and> c \<le> int N * done
      | _ \<Rightarrow> True)"

definition exec_inv :: "outputs \<Rightarrow> disposition \<Rightarrow> nat \<Rightarrow> exec_world \<Rightarrow> bool" where
  "exec_inv outs d N w =
     (let right = all_right outs (length (ew_threads w)) N
      in known d (ew_sigchld w) \<and> (right \<longrightarrow> ew_pass w)
       \<and> int N dvd ew_count w \<and> 0 \<le> ew_count w \<and> ew_count w \<le> int N * finished_threads w
       \<and> (0 < finished_threads w \<longrightarrow> int N \<le> ew_count w)
       \<and> (\<forall>t \<in> set (ew_threads w). phase_ok right d N (finished_threads w) (et_phase t) \<and> (right \<longrightarrow> et_pass_local t)))"

lemma length_filter_update:
  assumes "i < length xs" "\<not> P (xs ! i)"
  shows "length (filter P (xs[i := x])) = length (filter P xs) + (if P x then 1 else 0)"
proof -
  have "filter P xs = filter P (take i xs) @ filter P (drop (Suc i) xs)"
    using assms by (subst id_take_nth_drop [OF assms(1)]) simp
  then show ?thesis using assms by (simp add: upd_conv_take_nth_drop)
qed

lemma set_thread_simps [simp]:
  "ew_sigchld (set_thread i t w) = ew_sigchld w" "ew_pass (set_thread i t w) = ew_pass w"
  "ew_count (set_thread i t w) = ew_count w" "ew_threads (set_thread i t w) = (ew_threads w)[i := t]"
  by (simp_all add: set_thread_def)

lemma finished_set_thread:
  assumes "i < length (ew_threads w)" "et_phase (ew_threads w ! i) \<noteq> Finished"
  shows "finished_threads (set_thread i t w) = finished_threads w + (if et_phase t = Finished then 1 else 0)"
  using length_filter_update [of i "ew_threads w" "\<lambda>t. et_phase t = Finished" t] assms
  by (simp add: finished_threads_def)

lemma phase_ok_mono: "phase_ok right d N m p \<Longrightarrow> m \<le> m' \<Longrightarrow> phase_ok right d N m' p"
  using mult_left_mono [of m m' "int N"] by (auto simp: phase_ok_def split: exec_phase.splits)

lemma exec_inv_update:
  assumes "exec_inv outs d N w" "i < length (ew_threads w)" "et_phase (ew_threads w ! i) \<noteq> Finished"
    and "ew_threads w' = ew_threads w" "known d (ew_sigchld w')"
    and "all_right outs (length (ew_threads w)) N \<longrightarrow> ew_pass w' \<and> et_pass_local t"
    and "et_phase t = Finished \<longrightarrow> int N dvd ew_count w' \<and> int N \<le> ew_count w' \<and> ew_count w' \<le> int N * (finished_threads w + 1)"
    and "et_phase t \<noteq> Finished \<longrightarrow> ew_count w' = ew_count w
          \<and> phase_ok (all_right outs (length (ew_threads w)) N) d N (finished_threads w) (et_phase t)"
  shows "exec_inv outs d N (set_thread i t w')"
proof -
  let ?right = "all_right outs (length (ew_threads w)) N" and ?m = "finished_threads (set_thread i t w')"
  have "finished_threads w' = finished_threads w" using assms(4) by (simp add: finished_threads_def)
  then have m: "?m = finished_threads w + (if et_phase t = Finished then 1 else 0)"
    using finished_set_thread [of i w' t] assms(2,3,4) by simp
  have inv: "int N dvd ew_count w" "0 \<le> ew_count w" "ew_count w \<le> int N * finished_threads w"
    "0 < finished_threads w \<longrightarrow> int N \<le> ew_count w"
    "\<forall>t \<in> set (ew_threads w). phase_ok ?right d N (finished_threads w) (et_phase t) \<and> (?right \<longrightarrow> et_pass_local t)"
    using assms(1) by (simp_all add: exec_inv_def Let_def)
  have "phase_ok ?right d N ?m (et_phase t)"
  proof (cases "et_phase t = Finished")
    case False
    with assms(8) m show ?thesis by simp
  qed (simp add: phase_ok_def)
  moreover have "\<forall>u \<in> set (ew_threads w). phase_ok ?right d N ?m (et_phase u) \<and> (?right \<longrightarrow> et_pass_local u)"
    using inv(5) m phase_ok_mono [of ?right d N "finished_threads w" _ ?m] by simp
  ultimately have "\<forall>u \<in> set ((ew_threads w)[i := t]). phase_ok ?right d N ?m (et_phase u) \<and> (?right \<longrightarrow> et_pass_local u)"
    using assms(6) set_update_subset_insert [of "ew_threads w" i t] by blast
  then show ?thesis
    using inv assms(4-8) m by (cases "et_phase t = Finished") (simp_all add: exec_inv_def Let_def)
qed

lemma exec_step_inv:
  assumes "exec_inv outs d N w"
  shows "exec_inv outs d N (exec_step outs N i w)"
proof (cases "i < length (ew_threads w)")
  case True
  let ?t = "ew_threads w ! i" and ?right = "all_right outs (length (ew_threads w)) N"
  have t: "phase_ok ?right d N (finished_threads w) (et_phase ?t)" "?right \<longrightarrow> et_pass_local ?t"
    using assms nth_mem [OF True] by (simp_all add: exec_inv_def Let_def)
  have w: "known d (ew_sigchld w)" "?right \<longrightarrow> ew_pass w" "int N dvd ew_count w" "0 \<le> ew_count w"
    "ew_count w \<le> int N * finished_threads w"
    using assms by (simp_all add: exec_inv_def Let_def)
  have out: "k < N \<Longrightarrow> ?right \<longrightarrow> outs i k = Some expected_output" for k
    using True by (simp add: all_right_def)
  note upd = exec_inv_update [OF assms True]
  show ?thesis
  proof (cases "et_phase ?t")
    case (Calling k)
    then have step: "exec_step outs N i w =
        (if k = 0 then set_thread i (?t\<lparr>et_phase := ReadPass\<rparr>) w
         else set_thread i (?t\<lparr>et_phase := Running (k - 1) (ew_sigchld w)\<rparr>) (w\<lparr>ew_sigchld := SIG_IGN\<rparr>))"
      using True by (simp add: exec_step_def Let_def)
    show ?thesis
    proof (cases "k = 0")
      case zero: True
      show ?thesis unfolding step if_P [OF zero] by (rule upd) (use Calling t w in \<open>simp_all add: phase_ok_def\<close>)
    next
      case False
      show ?thesis unfolding step if_not_P [OF False]
        by (rule upd) (use Calling t w False in \<open>simp_all add: phase_ok_def known_def\<close>)
    qed
  next
    case (Running k sig)
    then have k: "k < N" "known d sig" using t(1) by (simp_all add: phase_ok_def)
    show ?thesis
    proof (cases "outs i k")
      case None
      then have step: "exec_step outs N i w = set_thread i \<lparr>et_phase = Calling k, et_pass_local = False\<rparr> w"
        using True Running by (simp add: exec_step_def)
      show ?thesis unfolding step by (rule upd) (use Running k w out [OF k(1)] None in \<open>simp_all add: phase_ok_def\<close>)
    next
      case (Some x)
      then have step: "exec_step outs N i w = set_thread i (?t\<lparr>et_phase := Restoring k sig x\<rparr>) w"
        using True Running by (simp add: exec_step_def)
      show ?thesis unfolding step
        by (rule upd) (use Running k t w out [OF k(1)] Some in \<open>simp_all add: phase_ok_def\<close>)
    qed
  next
    case (Restoring k sig x)
    then have step: "exec_step outs N i w = set_thread i
        \<lparr>et_phase = Calling k, et_pass_local = (et_pass_local ?t \<and> x = expected_output)\<rparr> (w\<lparr>ew_sigchld := sig\<rparr>)"
      using True by (simp add: exec_step_def Let_def)
    show ?thesis unfolding step by (rule upd) (use Restoring t w in \<open>simp_all add: phase_ok_def\<close>)
  next
    case ReadPass
    then have step: "exec_step outs N i w = set_thread i (?t\<lparr>et_phase := WritePass (ew_pass w)\<rparr>) w"
      using True by (simp add: exec_step_def Let_def)
    show ?thesis unfolding step by (rule upd) (use ReadPass t w in \<open>simp_all add: phase_ok_def\<close>)
  next
    case (WritePass pass)
    then have step: "exec_step outs N i w
        = set_thread i (?t\<lparr>et_phase := ReadCount\<rparr>) (w\<lparr>ew_pass := (pass \<and> et_pass_local ?t)\<rparr>)"
      using True by (simp add: exec_step_def Let_def)
    show ?thesis unfolding step by (rule upd) (use WritePass t w in \<open>simp_all add: phase_ok_def\<close>)
  next
    case ReadCount
    then have step: "exec_step outs N i w = set_thread i (?t\<lparr>et_phase := WriteCount (ew_count w)\<rparr>) w"
      using True by (simp add: exec_step_def Let_def)
    show ?thesis unfolding step by (rule upd) (use ReadCount t w in \<open>simp_all add: phase_ok_def\<close>)
  next
    case (WriteCount c)
    then have step: "exec_step outs N i w = set_thread i (?t\<lparr>et_phase := Finished\<rparr>) (w\<lparr>ew_count := c + int N\<rparr>)"
      using True by (simp add: exec_step_def Let_def)
    show ?thesis unfolding step
      by (rule upd) (use WriteCount t w in \<open>simp_all add: phase_ok_def algebra_simps\<close>)
  next
    case Finished
    then show ?thesis using True assms by (simp add: exec_step_def Let_def)
  qed
qed (use assms in \<open>simp add: exec_step_def\<close>)

lemma exec_run_inv: "exec_inv outs d N w \<Longrightarrow> exec_inv outs d N (exec_run outs N schedule w)"
  by (induction schedule arbitrary: w) (simp_all add: exec_step_inv)

lemma exec_start_inv: "exec_inv outs d N (exec_start n N d)"
  by (auto simp: exec_inv_def exec_start_def known_def finished_threads_def phase_ok_def Let_def)

section \<open>Schedules\<close>

text \<open>Worlds in which no thread has seen a wrong output, and what schedules reach from them.\<close>

definition good_thread :: "exec_phase \<Rightarrow> exec_thread" where
  "good_thread p = \<lparr>et_phase = p, et_pass_local = True\<rparr>"

definition good_world :: "disposition \<Rightarrow> int \<Rightarrow> exec_thread list \<Rightarrow> exec_world" where
  "good_world d c ts = \<lparr>ew_sigchld = d, ew_pass = True, ew_count = c, ew_threads = ts\<rparr>"

definition leads :: "outputs \<Rightarrow> nat \<Rightarrow> exec_world \<Rightarrow> exec_world \<Rightarrow> bool" where
  "leads outs N w w' \<longleftrightarrow> (\<exists>schedule. exec_run outs N schedule w = w')"

lemma exec_run_append: "exec_run outs N (s @ s') w = exec_run outs N s' (exec_run outs N s w)"
  by (induction s arbitrary: w) simp_all

lemma leads_refl: "leads outs N w w"
  unfolding leads_def by (rule exI [of _ "[]"]) simp

lemma leads_trans [trans]: "leads outs N w w' \<Longrightarrow> leads outs N w' w'' \<Longrightarrow> leads outs N w w''"
  unfolding leads_def by (metis exec_run_append)

lemma leads_step: "exec_step outs N i w = w' \<Longrightarrow> leads outs N w w'"
  unfolding leads_def by (intro exI [of _ "[i]"]) simp

lemmas good_step = exec_step_def set_thread_def good_world_def good_thread_def Let_def

lemma finish_call:
  assumes "all_right outs n N" "length xs < n" "k < N"
  shows "leads outs N (good_world e c (xs @ good_thread (Running k d) # ys)) (good_world d c (xs @ good_thread (Calling k) # ys))"
proof -
  have "outs (length xs) k = Some expected_output" using assms by (simp add: all_right_def)
  then have "leads outs N (good_world e c (xs @ good_thread (Running k d) # ys))
      (good_world e c (xs @ good_thread (Restoring k d expected_output) # ys))"
    by (intro leads_step [of _ _ "length xs"]) (simp add: good_step)
  also have "leads outs N \<dots> (good_world d c (xs @ good_thread (Calling k) # ys))"
    by (intro leads_step [of _ _ "length xs"]) (simp add: good_step)
  finally show ?thesis .
qed

lemma start_call:
  "leads outs N (good_world d c (xs @ good_thread (Calling (Suc k)) # ys))
    (good_world SIG_IGN c (xs @ good_thread (Running k d) # ys))"
  by (intro leads_step [of _ _ "length xs"]) (simp add: good_step)

lemma calls_alone:
  assumes "all_right outs n N" "length xs < n" "k \<le> N"
  shows "leads outs N (good_world d c (xs @ good_thread (Calling k) # ys)) (good_world d c (xs @ good_thread ReadPass # ys))"
  using assms(3)
proof (induction k)
  case 0
  show ?case by (intro leads_step [of _ _ "length xs"]) (simp add: good_step)
next
  case (Suc k)
  note start_call
  also have "leads outs N (good_world SIG_IGN c (xs @ good_thread (Running k d) # ys))
      (good_world d c (xs @ good_thread (Calling k) # ys))"
    using Suc.prems by (intro finish_call [OF assms(1,2)]) simp
  also have "leads outs N \<dots> (good_world d c (xs @ good_thread ReadPass # ys))" using Suc by simp
  finally show ?case .
qed

lemma read_count:
  "leads outs N (good_world d c (xs @ good_thread ReadPass # ys)) (good_world d c (xs @ good_thread (WriteCount c) # ys))"
proof -
  have "leads outs N (good_world d c (xs @ good_thread ReadPass # ys)) (good_world d c (xs @ good_thread (WritePass True) # ys))"
    by (intro leads_step [of _ _ "length xs"]) (simp add: good_step)
  also have "leads outs N \<dots> (good_world d c (xs @ good_thread ReadCount # ys))"
    by (intro leads_step [of _ _ "length xs"]) (simp add: good_step)
  also have "leads outs N \<dots> (good_world d c (xs @ good_thread (WriteCount c) # ys))"
    by (intro leads_step [of _ _ "length xs"]) (simp add: good_step)
  finally show ?thesis .
qed

lemma write_count:
  "leads outs N (good_world d c (xs @ good_thread (WriteCount e) # ys))
    (good_world d (e + int N) (xs @ good_thread Finished # ys))"
  by (intro leads_step [of _ _ "length xs"]) (simp add: good_step)

lemma alone:
  assumes "all_right outs n N" "length xs < n" "k \<le> N"
  shows "leads outs N (good_world d c (xs @ good_thread (Calling k) # ys))
    (good_world d (c + int N) (xs @ good_thread Finished # ys))"
  using leads_trans [OF calls_alone [OF assms] leads_trans [OF read_count write_count]] .

lemma one_after_the_other:
  assumes "all_right outs n N" "length xs + m \<le> n"
  shows "leads outs N (good_world d c (xs @ replicate m (good_thread (Calling N))))
    (good_world d (c + int m * int N) (xs @ replicate m (good_thread Finished)))"
  using assms(2)
proof (induction m arbitrary: xs c)
  case (Suc m)
  have "leads outs N (good_world d c (xs @ good_thread (Calling N) # replicate m (good_thread (Calling N))))
      (good_world d (c + int N) ((xs @ [good_thread Finished]) @ replicate m (good_thread (Calling N))))"
    using alone [OF assms(1), of xs N d c "replicate m (good_thread (Calling N))"] Suc.prems by simp
  also have "leads outs N \<dots> (good_world d (c + int N + int m * int N)
      ((xs @ [good_thread Finished]) @ replicate m (good_thread Finished)))"
    using Suc.prems by (intro Suc.IH) simp
  finally show ?case by (simp add: algebra_simps)
qed (simp add: leads_refl)

lemma all_read:
  assumes "all_right outs n N" "length xs + m \<le> n"
  shows "leads outs N (good_world d c (xs @ replicate m (good_thread (Calling N))))
    (good_world d c (xs @ replicate m (good_thread (WriteCount c))))"
  using assms(2)
proof (induction m arbitrary: xs)
  case (Suc m)
  have "leads outs N (good_world d c (xs @ good_thread (Calling N) # replicate m (good_thread (Calling N))))
      (good_world d c ((xs @ [good_thread (WriteCount c)]) @ replicate m (good_thread (Calling N))))"
    using leads_trans [OF calls_alone [OF assms(1), of xs N d c] read_count] Suc.prems by simp
  also have "leads outs N \<dots> (good_world d c ((xs @ [good_thread (WriteCount c)]) @ replicate m (good_thread (WriteCount c))))"
    using Suc.prems by (intro Suc.IH) simp
  finally show ?case by simp
qed (simp add: leads_refl)

lemma all_write:
  "0 < m \<Longrightarrow> leads outs N (good_world d c (xs @ replicate m (good_thread (WriteCount e))))
    (good_world d (e + int N) (xs @ replicate m (good_thread Finished)))"
proof (induction m arbitrary: xs c)
  case (Suc m)
  note first = write_count [of outs N d c xs e "replicate m (good_thread (WriteCount e))"]
  show ?case
  proof (cases "m = 0")
    case False
    then have "leads outs N (good_world d (e + int N) ((xs @ [good_thread Finished]) @ replicate m (good_thread (WriteCount e))))
        (good_world d (e + int N) ((xs @ [good_thread Finished]) @ replicate m (good_thread Finished)))"
      by (intro Suc.IH) simp
    with first show ?thesis using leads_trans by fastforce
  qed (use first in simp)
qed simp

text \<open>Two calls that overlap: the one that ends last restores the disposition that the other one has set.\<close>

lemma overlapping_calls:
  assumes "all_right outs (m + 2) (Suc N)"
  shows "leads outs (Suc N) (good_world d 0 (replicate (m + 2) (good_thread (Calling (Suc N)))))
    (good_world SIG_IGN (int (m + 2) * int (Suc N)) (replicate (m + 2) (good_thread Finished)))"
proof -
  let ?new = "good_thread (Calling (Suc N))" and ?fin = "good_thread Finished" and ?n = "int (Suc N)"
  have "leads outs (Suc N) (good_world d 0 ([] @ ?new # ?new # replicate m ?new))
      (good_world SIG_IGN 0 ([] @ good_thread (Running N d) # ?new # replicate m ?new))"
    by (rule start_call)
  also have "\<dots> = good_world SIG_IGN 0 ([good_thread (Running N d)] @ ?new # replicate m ?new)" by simp
  also have "leads outs (Suc N) \<dots>
      (good_world SIG_IGN 0 ([good_thread (Running N d)] @ good_thread (Running N SIG_IGN) # replicate m ?new))"
    by (rule start_call)
  also have "good_world SIG_IGN 0 ([good_thread (Running N d)] @ good_thread (Running N SIG_IGN) # replicate m ?new)
      = good_world SIG_IGN 0 ([] @ good_thread (Running N d) # good_thread (Running N SIG_IGN) # replicate m ?new)" by simp
  also have "leads outs (Suc N) \<dots>
      (good_world d 0 ([] @ good_thread (Calling N) # good_thread (Running N SIG_IGN) # replicate m ?new))"
    by (rule finish_call [OF assms]) simp_all
  also have "leads outs (Suc N) \<dots> (good_world d (0 + ?n) ([] @ ?fin # good_thread (Running N SIG_IGN) # replicate m ?new))"
    by (rule alone [OF assms]) simp_all
  also have "\<dots> = good_world d ?n ([?fin, good_thread (Running N SIG_IGN)] @ replicate m ?new)" by simp
  also have "leads outs (Suc N) \<dots> (good_world d (?n + int m * ?n) ([?fin, good_thread (Running N SIG_IGN)] @ replicate m ?fin))"
    by (rule one_after_the_other [OF assms]) simp
  also have "\<dots> = good_world d (?n + int m * ?n) ([?fin] @ good_thread (Running N SIG_IGN) # replicate m ?fin)" by simp
  also have "leads outs (Suc N) \<dots> (good_world SIG_IGN (?n + int m * ?n) ([?fin] @ good_thread (Calling N) # replicate m ?fin))"
    by (rule finish_call [OF assms]) simp_all
  also have "leads outs (Suc N) \<dots> (good_world SIG_IGN (?n + int m * ?n + ?n) ([?fin] @ ?fin # replicate m ?fin))"
    by (rule alone [OF assms]) simp_all
  finally show ?thesis by (simp add: algebra_simps)
qed

text \<open>A call whose steps are not interrupted is \<open>exec\<close> itself, the failing start of a process included.\<close>

lemma call_is_exec:
  assumes "exec popen cmd d = Inr ((code, out), d')"
    and "outs (length xs) k = (if popen (cstr cmd) = None then None else Some out)"
  shows "leads outs N
    \<lparr>ew_sigchld = d SIGCHLD, ew_pass = p, ew_count = c, ew_threads = xs @ \<lparr>et_phase = Calling (Suc k), et_pass_local = b\<rparr> # ys\<rparr>
    \<lparr>ew_sigchld = d' SIGCHLD, ew_pass = p, ew_count = c,
     ew_threads = xs @ \<lparr>et_phase = Calling k, et_pass_local = (b \<and> out = expected_output)\<rparr> # ys\<rparr>"
proof (cases "popen (cstr cmd)")
  case None
  with assms(1) have "out = []" "d' SIGCHLD = SIG_IGN"
    by (auto simp: exec_def exec2_def os_signal_def SIGCHLD_catchable)
  with None assms(2) show ?thesis
    unfolding leads_def
    by (intro exI [of _ "[length xs, length xs]"]) (simp add: good_step expected_output_def)
next
  case (Some r)
  with assms(1) have "d' = d" by (cases r) (auto simp: exec_def exec2_def bindR_Inr_iff exec2_disposition)
  with Some assms(2) show ?thesis
    unfolding leads_def
    by (intro exI [of _ "[length xs, length xs, length xs]"]) (simp add: good_step)
qed

section \<open>Properties\<close>

text \<open>
  Property C21: commands that several threads run at once, every one with the right output. Under every schedule
  \<open>pass\<close> stays true, the disposition of \<open>SIGCHLD\<close> ends as it was or ignored, and \<open>count\<close> is between the share of one thread and
  the sum. When the threads run one after the other all is well. But the accesses are not synchronised: there is a
  schedule in which two overlapping calls leave \<open>SIGCHLD\<close> ignored for the rest of the program, although the test passes,
  and one in which the additions to \<open>count\<close> get lost, so that the test fails although every command was run correctly.
\<close>

theorem exec_in_parallel:
  assumes "all_right outs n N" "2 \<le> n" "0 < N"
  shows "(\<forall>schedule. let w = exec_run outs N schedule (exec_start n N d) in all_finished w \<longrightarrow>
      ew_pass w \<and> ew_sigchld w \<in> {d, SIG_IGN} \<and> int N dvd ew_count w \<and> int N \<le> ew_count w \<and> ew_count w \<le> int n * int N)
    \<and> (\<exists>schedule. let w = exec_run outs N schedule (exec_start n N d) in all_finished w \<and> exec_verdict n N w \<and> ew_sigchld w = d)
    \<and> (\<exists>schedule. let w = exec_run outs N schedule (exec_start n N d) in
         all_finished w \<and> exec_verdict n N w \<and> ew_sigchld w = SIG_IGN)
    \<and> (\<exists>schedule. let w = exec_run outs N schedule (exec_start n N d) in all_finished w \<and> \<not> exec_verdict n N w)"
proof (intro conjI allI)
  have start: "exec_start n N d = good_world d 0 ([] @ replicate n (good_thread (Calling N)))"
    by (simp add: exec_start_def good_world_def good_thread_def)
  have fin: "all_finished (good_world e c (replicate n (good_thread Finished)))" for e c
    by (simp add: all_finished_def good_world_def good_thread_def)
  have reach: "\<exists>schedule. let w = exec_run outs N schedule (exec_start n N d) in all_finished w \<and> Q w"
    if "leads outs N (exec_start n N d) (good_world e c (replicate n (good_thread Finished)))"
      "Q (good_world e c (replicate n (good_thread Finished)))" for Q e c
    using that fin [of e c] unfolding leads_def Let_def by metis
  fix schedule
  let ?w = "exec_run outs N schedule (exec_start n N d)"
  have len: "length (ew_threads (exec_run outs N s w)) = length (ew_threads w)" for s w
    by (induction s arbitrary: w) (auto simp: exec_step_def Let_def split: exec_phase.split option.split)
  have n: "length (ew_threads ?w) = n" by (simp add: len exec_start_def)
  have inv: "exec_inv outs d N ?w" by (intro exec_run_inv exec_start_inv)
  have "all_finished ?w \<Longrightarrow> finished_threads ?w = int n"
    using n by (simp add: all_finished_def finished_threads_def filter_id_conv [THEN iffD2])
  with inv assms n show "let w = ?w in all_finished w \<longrightarrow> ew_pass w \<and> ew_sigchld w \<in> {d, SIG_IGN}
      \<and> int N dvd ew_count w \<and> int N \<le> ew_count w \<and> ew_count w \<le> int n * int N"
    by (auto simp: exec_inv_def Let_def known_def mult.commute)
  have "leads outs N (exec_start n N d) (good_world d (0 + int n * int N) ([] @ replicate n (good_thread Finished)))"
    unfolding start by (rule one_after_the_other [OF assms(1)]) simp
  then show "\<exists>schedule. let w = exec_run outs N schedule (exec_start n N d) in
      all_finished w \<and> exec_verdict n N w \<and> ew_sigchld w = d"
    by (intro reach) (simp_all add: exec_verdict_def good_world_def)
  obtain m M where m: "n = m + 2" "N = Suc M" using assms(2,3) by (metis add.commute le_Suc_ex not0_implies_Suc not_gr_zero)
  have "leads outs N (exec_start n N d) (good_world SIG_IGN (int n * int N) (replicate n (good_thread Finished)))"
    using overlapping_calls [of outs m M d] assms(1) start unfolding m by simp
  then show "\<exists>schedule. let w = exec_run outs N schedule (exec_start n N d) in
      all_finished w \<and> exec_verdict n N w \<and> ew_sigchld w = SIG_IGN"
    by (intro reach) (simp_all add: exec_verdict_def good_world_def)
  have "leads outs N (exec_start n N d) (good_world d 0 ([] @ replicate n (good_thread (WriteCount 0))))"
    unfolding start by (rule all_read [OF assms(1)]) simp
  also have "leads outs N \<dots> (good_world d (0 + int N) ([] @ replicate n (good_thread Finished)))"
    using assms(2) by (intro all_write) simp
  finally have lost: "leads outs N (exec_start n N d) (good_world d (int N) (replicate n (good_thread Finished)))" by simp
  have "int N * 1 \<noteq> int N * int n" unfolding mult_cancel_left using assms(2,3) by simp
  then have "int N \<noteq> int n * int N" by (simp add: mult.commute)
  with lost show "\<exists>schedule. let w = exec_run outs N schedule (exec_start n N d) in all_finished w \<and> \<not> exec_verdict n N w"
    by (intro reach) (simp_all only: exec_verdict_def good_world_def exec_world.simps simp_thms)
qed

theorem exec_in_parallel_witness:
  "\<exists>schedule. let w = exec_run (\<lambda>_ _. Some (''test'' @ [CHR 0x0A])) 1000 schedule (exec_start 8 1000 SIG_DFL) in
     all_finished w \<and> ew_pass w \<and> ew_count w = 8000 \<and> ew_sigchld w = SIG_IGN"
  using exec_in_parallel [of "\<lambda>_ _. Some (''test'' @ [CHR 0x0A])" 8 1000 SIG_DFL]
  by (auto simp: all_right_def expected_output_def exec_verdict_def Let_def)

end
