(* ===== verification/Test_Utilities.thy ===== *)
theory Test_Utilities
  imports Resources Abort
begin

text \<open>
  The test driver \<open>TestUtilities.cpp\<close>: the collection of results (\<open>UnitTest\<close>), the functions that fill and check a
  block of memory, and the decisions of \<open>main\<close> on what it measures. What is measured is a parameter.
\<close>

unbundle bit_operations_syntax

section \<open>Results of tests\<close>

record unit_test =
  ut_passes :: "cstring list"
  ut_failure :: "cstring list"
  ut_expected :: "cstring list"

definition unit_test_new :: unit_test where
  "unit_test_new = \<lparr>ut_passes = [], ut_failure = [], ut_expected = []\<rparr>"

definition passes :: "cstring \<Rightarrow> unit_test \<Rightarrow> unit_test" where
  "passes msg ut = ut\<lparr>ut_passes := ut_passes ut @ [msg]\<rparr>"

definition failure :: "cstring \<Rightarrow> unit_test \<Rightarrow> unit_test" where
  "failure msg ut = ut\<lparr>ut_failure := ut_failure ut @ [msg]\<rparr>"

definition expected :: "cstring \<Rightarrow> unit_test \<Rightarrow> unit_test" where
  "expected msg ut = ut\<lparr>ut_expected := ut_expected ut @ [msg]\<rparr>"

text \<open>The lines that are printed; \<open>printf( "%s", msg.data() )\<close> stops at a NUL.\<close>

definition print_tests :: "unit_test \<Rightarrow> cstring list" where
  "print_tests ut =
     [''Tests passed:''] @ map (\<lambda>msg. ''   '' @ cstr msg) (ut_passes ut)
     @ [''Tests expected failed:''] @ map (\<lambda>msg. ''   '' @ cstr msg) (ut_expected ut)
     @ [''Tests failed:''] @ map (\<lambda>msg. ''   '' @ cstr msg) (ut_failure ut)"

text \<open>The number of failures as an \<open>int\<close>.\<close>

definition N_failed :: "unit_test \<Rightarrow> 32 word" where
  "N_failed ut = of_nat (length (ut_failure ut))"

definition clear_tests :: "unit_test \<Rightarrow> unit_test" where
  "clear_tests ut = ut\<lparr>ut_passes := [], ut_failure := [], ut_expected := []\<rparr>"

section \<open>Memory\<close>

definition abs_diff :: "64 word \<Rightarrow> 64 word \<Rightarrow> 64 word" where
  "abs_diff a b = (if b \<le> a then a - b else b - a)"

definition fill_magic :: "64 word" where
  "fill_magic = 0x9E3779B97F4A7C15"

text \<open>
  The loop of \<open>fill\<close> from index \<open>i\<close> on in steps of \<open>Ns\<close>, with the flag \<open>pass\<close>; the array has the length of the list.
  Indices are natural numbers, as no array reaches the limit of \<open>uint64_t\<close>.
\<close>

function fill_loop :: "nat \<Rightarrow> nat \<Rightarrow> nat \<Rightarrow> bool \<Rightarrow> 64 word list \<Rightarrow> (bool \<times> 64 word list) result" where
  "fill_loop N Ns i pass x =
     (if i < N \<and> 0 < Ns
      then if length x \<le> i then Inl OutOfBounds
           else let z = fill_magic XOR of_nat i; x' = x[i := z]
                in fill_loop N Ns (i + Ns) (x' ! i = z) x'
      else Inr (pass, x))"
  by pat_completeness auto
termination
  by (relation "measure (\<lambda>(N, Ns, i, pass, x). N - i)") auto

declare fill_loop.simps [simp del]

definition fill :: "64 word list \<Rightarrow> nat \<Rightarrow> 64 word list result" where
  "fill x N =
     (let Ns = (if N < 10000 then 1 else 13)
      in bindR (fill_loop N Ns 0 True x) (\<lambda>(pass, x'). if \<not> pass then Inl LogicError else Inr x'))"

definition check :: "64 word list \<Rightarrow> unit result" where
  "check x =
     (if x = [] then Inl OutOfBounds
      else if x ! 0 \<noteq> fill_magic then Inl LogicError
      else Inr ())"

section \<open>The tests\<close>

record src_location =
  sl_file :: cstring
  sl_line :: "32 word"
  sl_column :: "32 word"
  sl_function :: cstring

definition test_source_location :: "src_location \<Rightarrow> src_location \<Rightarrow> unit_test \<Rightarrow> unit_test" where
  "test_source_location s1 s2 ut =
     (let test1 = contains (sl_function s1) ''main'';
          test2 = contains (sl_function s2) ''test_source_location''
      in if test1 \<and> test2 then passes ''source_location::current()'' ut
         else if test2 \<and> sl_line s1 = 0 then expected ''source_location::current()'' ut
         else failure ''source_location::current()'' ut)"

text \<open>The three values of the memory in use: before, while and after a block was allocated.\<close>

type_synonym usage = "64 word \<times> 64 word \<times> 64 word"

definition test_OS :: "OS \<Rightarrow> unit_test \<Rightarrow> unit_test" where
  "test_OS os ut =
     (if os = Linux then passes ''OS: Linux'' ut
      else if os = Windows then passes ''OS: Windows'' ut
      else if os = macOS then passes ''OS: macOS'' ut
      else failure ''Known OS'' ut)"

definition test_system_memory :: "64 word \<Rightarrow> unit_test \<Rightarrow> unit_test" where
  "test_system_memory system_bytes ut =
     (if 0 < system_bytes then passes ''getSystemMemory'' ut else failure ''getSystemMemory'' ut)"

definition test_memory_usage :: "OS \<Rightarrow> bool \<Rightarrow> usage \<Rightarrow> unit_test \<Rightarrow> unit_test" where
  "test_memory_usage os valgrind u ut =
     (case u of (n_bytes1, n_bytes2, n_bytes3) \<Rightarrow>
        if n_bytes1 = 0
        then (if valgrind then expected ''getMemoryUsage returns 0'' ut else failure ''getMemoryUsage returns 0'' ut)
        else let ut = passes ''getMemoryUsage returns non-zero'' ut;
                 ut = (if n_bytes1 < n_bytes2 then passes ''getMemoryUsage increases size'' ut
                       else if os = macOS then expected ''getMemoryUsage does not increase size'' ut
                       else failure ''getMemoryUsage increases size'' ut)
             in if n_bytes1 = n_bytes3 then passes ''getMemoryUsage decreases size properly'' ut
                else if os \<noteq> Linux then expected ''getMemoryUsage does not decrease size properly'' ut
                else failure ''getMemoryUsage does not decrease size properly'' ut)"

text \<open>
  The two tests of large blocks: the name of the test, the size that must be reached and the one that must not,
  and the message, cut to \<open>msg[4096]\<close>.
\<close>

definition test_large :: "cstring \<Rightarrow> 64 word \<Rightarrow> 64 word \<Rightarrow> usage \<Rightarrow> unit_test \<Rightarrow> unit_test" where
  "test_large name lower upper u ut =
     (case u of (n_bytes1, n_bytes2, n_bytes3) \<Rightarrow>
        if lower < n_bytes2 \<and> n_bytes2 < n_bytes1 + upper \<and> abs_diff n_bytes1 n_bytes3 < 0x1000000
        then passes name ut
        else failure (take 4095 (name @ '': 0x'' @ hex_str (unat n_bytes1) @ '' 0x'' @ hex_str (unat n_bytes2)
                                 @ '' 0x'' @ hex_str (unat n_bytes3))) ut)"

definition test_executable :: "cstring \<Rightarrow> unit_test \<Rightarrow> unit_test" where
  "test_executable exe ut =
     (if contains exe ''TestUtilities'' then passes ''getExecutable'' ut else failure ''getExecutable'' ut)"

text \<open>\<open>abort\<close> throws an \<open>abort_error\<close>, so that of the handlers the first one is taken.\<close>

definition test_abort :: "abort_error \<Rightarrow> unit_test \<Rightarrow> unit_test" where
  "test_abort err ut =
     (if ae_message err = ''test_error'' then passes ''Caught error'' ut
      else failure ''Failed to catch error with proper message'' ut)"

section \<open>The main function\<close>

text \<open>
  What a run finds: the operating system, the two locations of the test and the one in front of \<open>abort\<close>, valgrind, the memory of the system, the memory in use
  around the blocks and the contents of new blocks, the executable, and what \<open>abort\<close> puts in its error.
  The comparisons of \<open>system_bytes\<close> with \<open>4e9\<close> and \<open>8e9\<close> are exact: these numbers are doubles.
\<close>

record utilities_run =
  ur_os :: OS
  ur_s1 :: src_location
  ur_s2 :: src_location
  ur_here :: src_location
  ur_valgrind :: bool
  ur_system_bytes :: "64 word"
  ur_small :: usage
  ur_large :: usage
  ur_huge :: usage
  ur_tmp :: "64 word list"
  ur_tmp_large :: "64 word list"
  ur_tmp_huge :: "64 word list option"
  ur_executable :: cstring
  ur_bytes :: "64 word"
  ur_trace :: "64 word list"
  ur_errors :: error_state

definition fill_and_check :: "64 word list \<Rightarrow> nat \<Rightarrow> unit result" where
  "fill_and_check tmp N = bindR (fill tmp N) check"

text \<open>The tests of large blocks start from the value that the test before them has left in \<open>n_bytes1\<close>.\<close>

definition run_large :: "utilities_run \<Rightarrow> unit_test \<Rightarrow> (64 word \<times> unit_test) result" where
  "run_large r ut =
     (if 4000000000 \<le> ur_system_bytes r \<and> 0 < fst (ur_small r)
      then bindR (fill_and_check (ur_tmp_large r) 0x10000001) (\<lambda>_.
             Inr (fst (ur_large r), test_large ''Memtest 2-4 GB'' 0x80000000 0x81000000 (ur_large r) ut))
      else Inr (fst (ur_small r), ut))"

definition run_huge :: "utilities_run \<Rightarrow> 64 word \<Rightarrow> unit_test \<Rightarrow> unit_test result" where
  "run_huge r n_bytes1 ut =
     (if 8000000000 \<le> ur_system_bytes r \<and> 0 < n_bytes1
      then (case ur_tmp_huge r of
              None \<Rightarrow> Inr (expected ''Unable to allocate variable of size 4 GB'' ut)
            | Some tmp2 \<Rightarrow> bindR (fill_and_check tmp2 0x20000000) (\<lambda>_.
                Inr (test_large ''Memtest >4 GB'' 0x100000000 0x110000000 (ur_huge r) ut)))
      else Inr ut)"

definition TestUtilities_main :: "utilities_run \<Rightarrow> 32 word result" where
  "TestUtilities_main r =
     (let ut = unit_test_new;
          ut = test_OS (ur_os r) ut;
          ut = test_source_location (ur_s1 r) (ur_s2 r) ut;
          ut = test_system_memory (ur_system_bytes r) ut
      in bindR (fill_and_check (ur_tmp r) 0x100000) (\<lambda>_.
         let ut = test_memory_usage (ur_os r) (ur_valgrind r) (ur_small r) ut
         in bindR (run_large r ut) (\<lambda>(n_bytes1, ut).
            bindR (run_huge r n_bytes1 ut) (\<lambda>ut.
              let ut = test_executable (ur_executable r) ut;
                  ut = test_abort (abort_with (ur_bytes r) (ur_trace r) ''test_error'' (sl_file (ur_here r)) (sl_line (ur_here r)) (ur_errors r)) ut
              in Inr (N_failed ut)))))"

section \<open>Properties\<close>

lemma abs_diff_distance: "uint (abs_diff a b) = \<bar>uint a - uint b\<bar>"
proof -
  have "b \<le> a \<Longrightarrow> uint (a - b) = uint a - uint b" "a \<le> b \<Longrightarrow> uint (b - a) = uint b - uint a"
    by (simp_all add: uint_minus_simple_alt)
  then show ?thesis by (auto simp: abs_diff_def word_le_def)
qed

text \<open>The loop writes every \<open>Ns\<close>-th word from \<open>i\<close> on, and only these.\<close>

lemma fill_loop_spec:
  assumes "0 < Ns" "N \<le> length x"
  shows "\<exists>x'. fill_loop N Ns i True x = Inr (True, x') \<and> length x' = length x
    \<and> (\<forall>j < length x. x' ! j = (if i \<le> j \<and> j < N \<and> Ns dvd j - i then fill_magic XOR of_nat j else x ! j))"
  using assms
proof (induction N Ns i True x rule: fill_loop.induct)
  case (1 N Ns i x)
  show ?case
  proof (cases "i < N")
    case False
    then show ?thesis by (subst fill_loop.simps) auto
  next
    case True
    let ?z = "fill_magic XOR of_nat i"
    have step: "fill_loop N Ns i True x = fill_loop N Ns (i + Ns) True (x[i := ?z])"
      using True 1(2,3) by (subst fill_loop.simps) (simp add: Let_def)
    from 1(1) [OF _ _ refl refl] True 1(2,3) obtain x' where x': "fill_loop N Ns (i + Ns) True (x[i := ?z]) = Inr (True, x')"
      "length x' = length x"
      "\<forall>j < length x. x' ! j = (if i + Ns \<le> j \<and> j < N \<and> Ns dvd j - (i + Ns) then fill_magic XOR of_nat j else x[i := ?z] ! j)"
      by auto
    have "x' ! j = (if i \<le> j \<and> j < N \<and> Ns dvd j - i then fill_magic XOR of_nat j else x ! j)" if j: "j < length x" for j
    proof -
      have "i + Ns \<le> j \<Longrightarrow> Ns dvd j - (i + Ns) \<longleftrightarrow> Ns dvd j - i"
        by (metis Nat.diff_diff_right diff_diff_left dvd_diff_nat dvd_minus_self dvd_refl le_add1 le_diff_conv2 add.commute add_leD1 not_less)
      moreover have "i < j \<Longrightarrow> j < i + Ns \<Longrightarrow> \<not> Ns dvd j - i" using nat_dvd_not_less by auto
      ultimately show ?thesis using x'(3) j True by (cases "j = i"; cases "j < i"; cases "j < i + Ns") auto
    qed
    with x' step show ?thesis by auto
  qed
qed

lemma fill_and_check_ok:
  assumes "0 < N" "N \<le> length x"
  shows "fill_and_check x N = Inr ()"
proof -
  have "0 < (if N < 10000 then 1 else 13 :: nat)" by simp
  from fill_loop_spec [OF this assms(2), of 0] obtain x' where
    "fill_loop N (if N < 10000 then 1 else 13) 0 True x = Inr (True, x')" "length x' = length x" "x' ! 0 = fill_magic"
    using assms by fastforce
  moreover have "x' \<noteq> []" using assms \<open>length x' = length x\<close> by auto
  ultimately show ?thesis by (simp add: fill_and_check_def fill_def check_def Let_def)
qed

lemma failures_simps [simp]:
  "ut_failure (passes m ut) = ut_failure ut" "ut_failure (expected m ut) = ut_failure ut"
  "ut_failure (failure m ut) = ut_failure ut @ [m]"
  by (simp_all add: passes_def expected_def failure_def)

text \<open>When a test adds no failure, and that it adds at most two.\<close>

definition source_location_ok :: "src_location \<Rightarrow> src_location \<Rightarrow> bool" where
  "source_location_ok s1 s2 \<longleftrightarrow>
     contains (sl_function s2) ''test_source_location'' \<and> (contains (sl_function s1) ''main'' \<or> sl_line s1 = 0)"

definition memory_usage_ok :: "OS \<Rightarrow> bool \<Rightarrow> usage \<Rightarrow> bool" where
  "memory_usage_ok os valgrind u \<longleftrightarrow>
     (case u of (n_bytes1, n_bytes2, n_bytes3) \<Rightarrow>
        if n_bytes1 = 0 then valgrind
        else (n_bytes1 < n_bytes2 \<or> os = macOS) \<and> (n_bytes1 = n_bytes3 \<or> os \<noteq> Linux))"

definition large_ok :: "64 word \<Rightarrow> 64 word \<Rightarrow> usage \<Rightarrow> bool" where
  "large_ok lower upper u \<longleftrightarrow>
     (case u of (n_bytes1, n_bytes2, n_bytes3) \<Rightarrow>
        lower < n_bytes2 \<and> n_bytes2 < n_bytes1 + upper \<and> \<bar>uint n_bytes1 - uint n_bytes3\<bar> < 0x1000000)"

definition adds :: "nat \<Rightarrow> unit_test \<Rightarrow> bool \<Rightarrow> unit_test \<Rightarrow> bool" where
  "adds k ut good ut' \<longleftrightarrow> (\<exists>f. ut_failure ut' = ut_failure ut @ f \<and> length f \<le> k \<and> (f = [] \<longleftrightarrow> good))"

lemma adds_refl: "adds 0 ut True ut"
  by (simp add: adds_def)

lemma adds_trans:
  assumes "adds k ut good ut'" "adds k' ut' good' ut''"
  shows "adds (k + k') ut (good \<and> good') ut''"
proof -
  obtain f f' where "ut_failure ut' = ut_failure ut @ f" "length f \<le> k" "f = [] \<longleftrightarrow> good"
    "ut_failure ut'' = ut_failure ut' @ f'" "length f' \<le> k'" "f' = [] \<longleftrightarrow> good'"
    using assms unfolding adds_def by blast
  then show ?thesis unfolding adds_def by (intro exI [of _ "f @ f'"]) auto
qed

lemma adds_verdict:
  assumes "adds k unit_test_new good ut" "k < 4294967296"
  shows "N_failed ut = 0 \<longleftrightarrow> good"
proof -
  obtain f where f: "ut_failure ut = f" "length f \<le> k" "f = [] \<longleftrightarrow> good"
    using assms(1) by (auto simp: adds_def unit_test_new_def)
  have "unat (of_nat (length f) :: 32 word) = length f"
    using f(2) assms(2) by (simp add: unat_of_nat take_bit_eq_mod)
  with f show ?thesis by (auto simp: N_failed_def unat_eq_zero)
qed

lemma adds_tests:
  "adds 1 ut (os \<noteq> UnknownOS) (test_OS os ut)"
  "adds 1 ut (source_location_ok s1 s2) (test_source_location s1 s2 ut)"
  "adds 1 ut (0 < system_bytes) (test_system_memory system_bytes ut)"
  "adds 1 ut (contains exe ''TestUtilities'') (test_executable exe ut)"
  "adds 1 ut (ae_message err = ''test_error'') (test_abort err ut)"
  by (cases os) (auto simp: adds_def test_OS_def test_source_location_def source_location_ok_def test_system_memory_def
      test_executable_def test_abort_def Let_def)

lemma adds_memory_usage: "adds 2 ut (memory_usage_ok os valgrind u) (test_memory_usage os valgrind u ut)"
  by (cases u) (auto simp: adds_def test_memory_usage_def memory_usage_ok_def Let_def)

lemma adds_large: "adds 1 ut (large_ok lower upper u) (test_large name lower upper u ut)"
proof -
  obtain a b c where u: "u = (a, b, c)" by (cases u)
  have "abs_diff a c < 0x1000000 \<longleftrightarrow> \<bar>uint a - uint c\<bar> < 0x1000000"
    unfolding abs_diff_distance [symmetric] by (simp add: word_less_def)
  then show ?thesis by (auto simp: u adds_def test_large_def large_ok_def)
qed

lemma adds_run_large:
  assumes "0x10000001 \<le> length (ur_tmp_large r)"
  defines "large \<equiv> 4000000000 \<le> ur_system_bytes r \<and> 0 < fst (ur_small r)"
  shows "\<exists>ut'. run_large r ut = Inr (if large then fst (ur_large r) else fst (ur_small r), ut')
    \<and> adds 1 ut (large \<longrightarrow> large_ok 0x80000000 0x81000000 (ur_large r)) ut'"
proof (cases large)
  case True
  with adds_large [of ut "0x80000000" "0x81000000" "ur_large r" "''Memtest 2-4 GB''"]
    fill_and_check_ok [of "0x10000001" "ur_tmp_large r"] assms(1) show ?thesis
    unfolding run_large_def large_def by simp
next
  case False
  then show ?thesis unfolding run_large_def large_def by (auto simp: adds_def)
qed

lemma adds_run_huge:
  assumes "\<forall>tmp. ur_tmp_huge r = Some tmp \<longrightarrow> 0x20000000 \<le> length tmp"
  shows "\<exists>ut'. run_huge r n_bytes1 ut = Inr ut'
    \<and> adds 1 ut (8000000000 \<le> ur_system_bytes r \<and> 0 < n_bytes1 \<and> ur_tmp_huge r \<noteq> None
        \<longrightarrow> large_ok 0x100000000 0x110000000 (ur_huge r)) ut'"
proof (cases "8000000000 \<le> ur_system_bytes r \<and> 0 < n_bytes1")
  case True
  show ?thesis
  proof (cases "ur_tmp_huge r")
    case None
    with True show ?thesis by (auto simp: run_huge_def adds_def)
  next
    case (Some tmp)
    with True adds_large [of ut "0x100000000" "0x110000000" "ur_huge r" "''Memtest >4 GB''"]
      fill_and_check_ok [of "0x20000000" tmp] assms show ?thesis
      unfolding run_huge_def by simp
  qed
qed (auto simp: run_huge_def adds_def)

text \<open>
  Property C39: the verdict of \<open>TestUtilities\<close>. With blocks as large as they are asked for, filling and checking them never
  fails, and the number of failures that \<open>main\<close> returns is 0 exactly when the measured values are right: the
  operating system is known, the locations name their functions, the memory in use grows with a block and shrinks back (on
  Linux, to the same value), a block of 2 GB and one of 4 GB show up with their sizes when the machine has room for them, and the
  executable has its name.
\<close>

theorem TestUtilities_verdict:
  assumes "0x100000 \<le> length (ur_tmp r)" "0x10000001 \<le> length (ur_tmp_large r)"
    "\<forall>tmp. ur_tmp_huge r = Some tmp \<longrightarrow> 0x20000000 \<le> length tmp"
  shows "\<exists>n. TestUtilities_main r = Inr n \<and> (n = 0 \<longleftrightarrow>
      ur_os r \<noteq> UnknownOS \<and> source_location_ok (ur_s1 r) (ur_s2 r) \<and> 0 < ur_system_bytes r
      \<and> memory_usage_ok (ur_os r) (ur_valgrind r) (ur_small r)
      \<and> (let large = 4000000000 \<le> ur_system_bytes r \<and> 0 < fst (ur_small r);
             n_bytes1 = (if large then fst (ur_large r) else fst (ur_small r))
         in (large \<longrightarrow> large_ok 0x80000000 0x81000000 (ur_large r))
          \<and> (8000000000 \<le> ur_system_bytes r \<and> 0 < n_bytes1 \<and> ur_tmp_huge r \<noteq> None \<longrightarrow>
               large_ok 0x100000000 0x110000000 (ur_huge r)))
      \<and> contains (ur_executable r) ''TestUtilities'')"
proof -
  let ?large = "4000000000 \<le> ur_system_bytes r \<and> 0 < fst (ur_small r)"
  let ?n1 = "if ?large then fst (ur_large r) else fst (ur_small r)"
  let ?err = "abort_with (ur_bytes r) (ur_trace r) ''test_error'' (sl_file (ur_here r)) (sl_line (ur_here r)) (ur_errors r)"
  define ut3 where "ut3 = test_system_memory (ur_system_bytes r)
    (test_source_location (ur_s1 r) (ur_s2 r) (test_OS (ur_os r) unit_test_new))"
  define ut4 where "ut4 = test_memory_usage (ur_os r) (ur_valgrind r) (ur_small r) ut3"
  obtain ut5 where l: "run_large r ut4 = Inr (?n1, ut5)"
    "adds 1 ut4 (?large \<longrightarrow> large_ok 0x80000000 0x81000000 (ur_large r)) ut5"
    using adds_run_large [OF assms(2), of ut4] by blast
  obtain ut6 where h: "run_huge r ?n1 ut5 = Inr ut6"
    "adds 1 ut5 (8000000000 \<le> ur_system_bytes r \<and> 0 < ?n1 \<and> ur_tmp_huge r \<noteq> None
        \<longrightarrow> large_ok 0x100000000 0x110000000 (ur_huge r)) ut6"
    using adds_run_huge [OF assms(3), of ?n1 ut5] by blast
  define ut8 where "ut8 = test_abort ?err (test_executable (ur_executable r) ut6)"
  have msg: "ae_message ?err = ''test_error''" by (simp add: abort_with_def)
  have "fill_and_check (ur_tmp r) 0x100000 = Inr ()" using assms(1) by (intro fill_and_check_ok) simp_all
  then have main: "TestUtilities_main r = Inr (N_failed ut8)"
    unfolding TestUtilities_main_def Let_def ut3_def [symmetric] by (simp add: ut4_def [symmetric] l(1) h(1) ut8_def)
  note first = adds_trans [OF adds_trans [OF adds_tests(1) [of unit_test_new "ur_os r"] adds_tests(2) [of _ "ur_s1 r" "ur_s2 r"]]
      adds_tests(3) [of _ "ur_system_bytes r"], folded ut3_def]
  note last = adds_trans [OF adds_tests(4) [of ut6 "ur_executable r"] adds_tests(5) [of _ ?err], folded ut8_def]
  note all = adds_trans [OF adds_trans [OF adds_trans [OF adds_trans [OF first
      adds_memory_usage [of ut3 "ur_os r" "ur_valgrind r" "ur_small r", folded ut4_def]] l(2)] h(2)] last]
  from adds_verdict [OF all] main msg show ?thesis by (simp add: Let_def)
qed

text \<open>A machine with 16 GB on which all is well.\<close>

definition good_run :: utilities_run where
  "good_run =
     \<lparr>ur_os = Linux,
      ur_s1 = \<lparr>sl_file = ''TestUtilities.cpp'', sl_line = 131, sl_column = 5, sl_function = ''int main(int, char**)''\<rparr>,
      ur_s2 = \<lparr>sl_file = ''TestUtilities.cpp'', sl_line = 97, sl_column = 15, sl_function = ''void test_source_location(UnitTest&)''\<rparr>,
      ur_here = \<lparr>sl_file = ''TestUtilities.cpp'', sl_line = 247, sl_column = 9, sl_function = ''int main(int, char**)''\<rparr>,
      ur_valgrind = False, ur_system_bytes = 16000000000,
      ur_small = (1000, 8389608, 1000), ur_large = (1000, 2147484656, 1000), ur_huge = (1000, 4294968296, 1000),
      ur_tmp = replicate 1048576 0, ur_tmp_large = replicate 268435457 0, ur_tmp_huge = Some (replicate 536870912 0),
      ur_executable = ''/usr/bin/TestUtilities'', ur_bytes = 0, ur_trace = [], ur_errors = error_state0 (\<lambda>_. SIG_DFL) False\<rparr>"

theorem TestUtilities_verdict_witness: "TestUtilities_main good_run = Inr 0"
proof -
  have c: "contains ''int main(int, char**)'' ''main''" "contains ''/usr/bin/TestUtilities'' ''TestUtilities''"
    "contains ''void test_source_location(UnitTest&)'' ''test_source_location''"
    by (simp_all add: contains_def)
  from TestUtilities_verdict [of good_run] show ?thesis
    by (simp add: good_run_def c source_location_ok_def memory_usage_ok_def large_ok_def Let_def)
qed

end
