(* ===== verification/Test_Stack.thy ===== *)
theory Test_Stack
  imports Test_Utilities Exec_Parallel Program_End Parser Threads Environment
begin

text \<open>
  The test driver \<open>TestStack.cpp\<close>: the collection of results over the ranks of MPI, the sleeping loops, and the tests
  of signals, of call stacks, of the active threads, of reading a stack from a file, of the ends of a program and of the
  names of types. The tests work on the models of what they test; \<open>main\<close> is in \<open>Test_Run\<close>.
\<close>

section \<open>Results over the ranks\<close>

text \<open>\<open>MPI_Allreduce\<close> with \<open>MPI_SUM\<close>; every rank gets the sum of the \<open>int\<close> values.\<close>

definition sumReduce :: "32 word list \<Rightarrow> 32 word" where
  "sumReduce xs = sum_list xs"

text \<open>Between the barriers one rank prints: the lines appear in the order of the ranks.\<close>

definition printAll :: "cstring list list \<Rightarrow> cstring list" where
  "printAll messages =
     concat (map (\<lambda>(rank, msgs). map (\<lambda>msg. ''   Rank '' @ dec_str rank @ '': '' @ msg) msgs)
                 (zip [0..<length messages] messages))"

definition print_ranks :: "unit_test list \<Rightarrow> cstring list" where
  "print_ranks uts =
     [[], ''Tests passed:''] @ (case uts of [] \<Rightarrow> [] | ut # _ \<Rightarrow> map (\<lambda>msg. ''   '' @ msg) (ut_passes ut))
     @ [[], ''Tests expected failed:''] @ printAll (map ut_expected uts)
     @ [[], ''Tests failed:''] @ printAll (map ut_failure uts)"

definition N_failed_ranks :: "unit_test list \<Rightarrow> 32 word" where
  "N_failed_ranks uts = sumReduce (map N_failed uts)"

definition addMessage :: "unit_test \<Rightarrow> bool \<Rightarrow> cstring \<Rightarrow> bool \<Rightarrow> unit_test" where
  "addMessage ut pass msg expect =
     (if pass then passes msg ut else if expect then expected msg ut else failure msg ut)"

section \<open>Sleeping\<close>

text \<open>\<open>duration_cast\<close> to milliseconds truncates towards zero; the clock counts nanoseconds.\<close>

definition to_ms :: "int \<Rightarrow> int" where
  "to_ms x = (if 0 \<le> x then x div 1000000 else - (- x div 1000000))"

text \<open>
  The loop from the reading \<open>t1\<close> on; \<open>t2\<close> is the last reading and \<open>clock\<close> holds the readings behind the next sleeps.
  The result are the times that \<open>sleep_for\<close> was asked for and the last reading, or \<open>None\<close> when the readings are used up and the
  loop is still sleeping.
\<close>

fun sleep_loop :: "int \<Rightarrow> int \<Rightarrow> int \<Rightarrow> int list \<Rightarrow> (int list \<times> int) option" where
  "sleep_loop N t1 t2 [] = (if to_ms (t2 - t1) < N then None else Some ([], t2))"
| "sleep_loop N t1 t2 (t # clock) =
     (if to_ms (t2 - t1) < N
      then map_option (\<lambda>(asked_for, t3). ((N - to_ms (t2 - t1)) # asked_for, t3)) (sleep_loop N t1 t clock)
      else Some ([], t2))"

text \<open>The thread registers itself first.\<close>

definition sleep_ms :: "64 word \<Rightarrow> registry \<Rightarrow> int \<Rightarrow> int \<Rightarrow> int \<Rightarrow> int list \<Rightarrow> registry \<times> (int list \<times> int) option" where
  "sleep_ms self v N t1 t2 clock = (registerThread self v, sleep_loop N t1 t2 clock)"

text \<open>\<open>1000 * N\<close> is computed as an \<open>int\<close>.\<close>

definition sleep_s :: "64 word \<Rightarrow> registry \<Rightarrow> int \<Rightarrow> int \<Rightarrow> int \<Rightarrow> int list \<Rightarrow> (registry \<times> (int list \<times> int) option) result" where
  "sleep_s self v N t1 t2 clock =
     (if 2147483647 < 1000 * N \<or> 1000 * N < -2147483648 then Inl Overflow
      else Inr (registerThread self v, sleep_loop (1000 * N) t1 t2 clock))"

section \<open>Signals\<close>

definition handleSignal :: "int \<Rightarrow> int list \<Rightarrow> int list result" where
  "handleSignal s GlobalSignals =
     (if 0 \<le> s \<and> s < int (length GlobalSignals) then Inr (GlobalSignals[nat s := 1]) else Inl OutOfBounds)"

text \<open>
  Raising the signals in turn. \<open>None\<close> is a program that does not go on: killed or stopped by the default action, or in a handler
  that does not return; \<open>handleSignal\<close> is the user function 0, other functions of the user return.
\<close>

fun raise_all :: "int list \<Rightarrow> (int \<Rightarrow> disposition) \<Rightarrow> int list \<Rightarrow> int list option result" where
  "raise_all [] d GlobalSignals = Inr (Some GlobalSignals)"
| "raise_all (sig # signals) d GlobalSignals =
     (if d sig = UserHandler 0 then bindR (handleSignal sig GlobalSignals) (raise_all signals d)
      else case d sig of
             SIG_DFL \<Rightarrow> if default_ignored sig then raise_all signals d GlobalSignals else Inr None
           | TerminateHandler \<Rightarrow> Inr None
           | StackInfoHandler \<Rightarrow> Inr None
           | _ \<Rightarrow> raise_all signals d GlobalSignals)"

text \<open>The names that are printed. The numbers are below 128, where no name is null.\<close>

definition signal_lines :: "(int \<Rightarrow> cstring option) \<Rightarrow> int list \<Rightarrow> cstring list" where
  "signal_lines strsignal signals =
     map (\<lambda>i. ''  '' @ int_str i @ '': '' @ (case signalName strsignal i of None \<Rightarrow> [] | Some name \<Rightarrow> cstr name))
       [1..max 1 (last signals)]"

fun check_signals :: "int list \<Rightarrow> int list \<Rightarrow> bool \<Rightarrow> bool \<Rightarrow> unit_test \<Rightarrow> bool \<times> unit_test" where
  "check_signals [] GlobalSignals valgrind pass results = (pass, results)"
| "check_signals (sig # signals) GlobalSignals valgrind pass results =
     (let val = GlobalSignals ! nat sig
      in if val \<noteq> 1
         then let msg = ''Signal '' @ int_str sig @ '' not set correctly ('' @ int_str val @ '')''
              in check_signals signals GlobalSignals valgrind False
                   (if valgrind then expected msg results else failure msg results)
         else check_signals signals GlobalSignals valgrind pass results)"

definition testSignal ::
    "nat \<Rightarrow> (int \<Rightarrow> cstring option) \<Rightarrow> bool \<Rightarrow> signal_state \<Rightarrow> int list \<Rightarrow> unit_test
      \<Rightarrow> (unit_test \<times> signal_state \<times> int list \<times> cstring list) option result" where
  "testSignal rank strsignal valgrind s GlobalSignals results =
     (if rank \<noteq> 0 then Inr (Some (results, s, GlobalSignals, []))
      else let signals = allSignalsToCatch; out = signal_lines strsignal signals
           in bindR (setSignals signals (UserHandler 0) s) (\<lambda>s1.
              bindR (raise_all signals (sg_disp s1) GlobalSignals) (\<lambda>raised.
                case raised of
                  None \<Rightarrow> Inr None
                | Some gs \<Rightarrow>
                    bindR (clearSignals_of signals s1) (\<lambda>s2.
                      let (pass, results) = check_signals signals gs valgrind True results
                      in Inr (Some (if pass then passes ''Signals set/caught'' results else results, s2, gs, out))))))"

section \<open>Call stacks and threads\<close>

text \<open>A frame is decoded when its function has the name that is looked for.\<close>

definition names_function :: "cstring \<Rightarrow> stack_info \<Rightarrow> bool" where
  "names_function name item \<longleftrightarrow> strstr name (cstr (si_function item)) \<noteq> None"

definition testCurrentStack :: "stack_info list \<Rightarrow> unit_test \<Rightarrow> unit_test \<times> bool" where
  "testCurrentStack call_stack results =
     (if call_stack \<noteq> []
      then let results = passes ''non empty call stack'' results;
               decoded_symbols = list_ex (names_function ''get_call_stack'') call_stack
           in (addMessage results decoded_symbols ''call stack decoded function symbols'' False, decoded_symbols)
      else (failure ''non empty call stack'' results, False))"

text \<open>\<open>long_enough\<close> is \<open>std::abs( t4 - t1 ) > 0.9\<close>.\<close>

definition testThreadStack :: "OS \<Rightarrow> stack_info list \<Rightarrow> bool \<Rightarrow> bool \<Rightarrow> unit_test \<Rightarrow> unit_test" where
  "testThreadStack os call_stack long_enough decoded_symbols results =
     (if call_stack \<noteq> []
      then let results = passes ''non empty call stack (thread)'' results;
               pass = (list_ex (names_function ''sleep_ms'') call_stack \<and> long_enough)
           in if pass then passes ''call stack (thread)'' results
              else if \<not> decoded_symbols then results
              else if os = Windows then expected ''call stack (thread)'' results
              else failure ''call stack (thread)'' results
      else failure ''non empty call stack (thread)'' results)"

text \<open>The stacks of all threads, and of all processes, cleaned and printed.\<close>

definition print_cleaned :: "multi_stack_info \<Rightarrow> cstring list result" where
  "print_cleaned call_stack = bindR (cleanupStackTrace call_stack) (\<lambda>t. ms_print t [])"

text \<open>
  The handles of the calling thread and of the two threads it has started, against what \<open>activeThreads\<close> returned. The
  test never fails.
\<close>

definition testActiveThreads :: "nat \<Rightarrow> 64 word list \<Rightarrow> 64 word \<Rightarrow> 64 word \<Rightarrow> 64 word \<Rightarrow> unit_test \<Rightarrow> unit_test" where
  "testActiveThreads rank active0 self thread1 thread2 results =
     (if rank \<noteq> 0 then results
      else let thread_ids = sort [self, thread1, thread2];
               active = sort active0;
               found_all = list_all (\<lambda>id. 0 < count_list active id) thread_ids
           in if found_all then passes ''StackTrace::activeThreads'' results
              else if length active = 1 \<and> active ! 0 = self
              then expected ''StackTrace::activeThreads only is able to return self'' results
              else expected ''StackTrace::activeThreads does not find all active threads'' results)"

section \<open>A stack from a file\<close>

text \<open>
  The contents of the file, or \<open>None\<close> when it cannot be opened. The buffer is read as a C string.
\<close>

definition testStackFile :: "cstring option \<Rightarrow> cstring \<Rightarrow> unit_test \<Rightarrow> (unit_test \<times> cstring list) result" where
  "testStackFile contents filename results =
     (case contents of
        None \<Rightarrow> Inr (failure (''Unable to open file '' @ filename) results, [])
      | Some buf \<Rightarrow>
          bindR (generateFromString (cstr buf)) (\<lambda>stack.
          bindR (cleanupStackTrace stack) (\<lambda>stack.
          bindR (ms_print stack []) (\<lambda>out. Inr (results, out)))))"

fun testStackFiles :: "(cstring \<Rightarrow> cstring option) \<Rightarrow> cstring list \<Rightarrow> unit_test \<Rightarrow> (unit_test \<times> cstring list) result" where
  "testStackFiles contents [] results = Inr (results, [])"
| "testStackFiles contents (name # names) results =
     bindR (testStackFile (contents name) name results) (\<lambda>(results, out).
     bindR (testStackFiles contents names results) (\<lambda>(results, more). Inr (results, out @ more)))"

section \<open>Commands and types\<close>

definition test_exec :: "exec_world \<Rightarrow> unit_test \<Rightarrow> unit_test" where
  "test_exec w results = addMessage results (exec_verdict 8 1000 w) ''exec called in parallel'' False"

type_synonym popen = "cstring \<Rightarrow> (cstring \<times> int \<times> bool) option"

definition TestTerminate_output :: "popen \<Rightarrow> cstring \<Rightarrow> cstring \<Rightarrow> (int \<Rightarrow> disposition) \<Rightarrow> (cstring \<times> (int \<Rightarrow> disposition)) result" where
  "TestTerminate_output popen rootPath arg d =
     bindR (exec popen (rootPath @ ''TestTerminate '' @ arg @ '' 2>&1'') d) (\<lambda>((code, msg), d'). Inr (msg, d'))"

definition testTerminate ::
    "OS \<Rightarrow> nat \<Rightarrow> popen \<Rightarrow> cstring \<Rightarrow> (int \<Rightarrow> disposition) \<Rightarrow> unit_test \<Rightarrow> (unit_test \<times> (int \<Rightarrow> disposition)) result" where
  "testTerminate os rank popen rootPath d results =
     (if os = Windows then Inr (expected ''Skipping abort test for Windows'' results, d)
      else if rank \<noteq> 0 then Inr (results, d)
      else bindR (TestTerminate_output popen rootPath ''signal'' d) (\<lambda>(msg1, d).
           bindR (TestTerminate_output popen rootPath ''abort'' d) (\<lambda>(msg2, d).
           bindR (TestTerminate_output popen rootPath ''throw'' d) (\<lambda>(msg3, d).
           bindR (TestTerminate_output popen rootPath ''segfault'' d) (\<lambda>(msg4, d).
             let expect = (os = Windows);
                 r1 = addMessage results (contains msg1 ''Unhandled signal (6) caught'') ''Unhandled signal (6) caught'' expect;
                 r2 = addMessage r1 (contains msg2 ''Program abort called in file'') ''Program abort called in file'' expect;
                 r3 = addMessage r2 (contains msg3 ''Unhandled exception caught'') ''Unhandled exception caught'' expect;
                 r4 = addMessage r3 (contains msg4 ''Unhandled signal (11) caught'') ''Unhandled signal (11) caught'' expect
             in Inr (r4, d))))))"

text \<open>The names that \<open>typeid\<close> gives to the four types, and the demangler.\<close>

definition testTypeName :: "(cstring \<Rightarrow> cstring option) \<Rightarrow> cstring \<times> cstring \<times> cstring \<times> cstring \<Rightarrow> unit_test \<Rightarrow> unit_test result" where
  "testTypeName demangle ids results =
     (case ids of (i, f, d, c) \<Rightarrow>
        bindR (bindR (getTypeName demangle i) (\<lambda>ti. if ti \<noteq> ''int'' then Inr False else
        bindR (getTypeName demangle f) (\<lambda>tf. if tf \<noteq> ''float'' then Inr False else
        bindR (getTypeName demangle d) (\<lambda>td. if td \<noteq> ''double'' then Inr False else
        bindR (getTypeName demangle c) (\<lambda>tc. Inr (tc = ''std::complex<double>''))))))
          (\<lambda>pass. Inr (addMessage results pass ''getTypeName'' False)))"

section \<open>The path of the executable\<close>

text \<open>\<open>rootPath.rfind( "TestStack" )\<close>; without the name \<open>resize( npos )\<close> throws.\<close>

fun rfind :: "cstring \<Rightarrow> cstring \<Rightarrow> nat option" where
  "rfind s [] = (if s = [] then Some 0 else None)"
| "rfind s (c # cs) =
     (case rfind s cs of
        Some i \<Rightarrow> Some (Suc i)
      | None \<Rightarrow> if prefix s (c # cs) then Some 0 else None)"

definition root_path :: "cstring \<Rightarrow> cstring result" where
  "root_path argv0 =
     (case rfind ''TestStack'' argv0 of
        None \<Rightarrow> Inl LengthError
      | Some index \<Rightarrow> Inr (if take index argv0 = [] then ''./'' else take index argv0))"

section \<open>Properties of the helpers\<close>

lemma to_ms_mono: "x \<le> y \<Longrightarrow> to_ms x \<le> to_ms y"
  by (auto simp: to_ms_def zdiv_mono1 intro: order_trans [of _ 0] zdiv_mono1)

lemma to_ms_add: "0 \<le> x \<Longrightarrow> to_ms (x + 1000000) = to_ms x + 1"
  by (simp add: to_ms_def)

lemma to_ms_reached: "0 < N \<Longrightarrow> N \<le> to_ms x \<Longrightarrow> N * 1000000 \<le> x"
proof -
  assume "0 < N" "N \<le> to_ms x"
  then have "0 \<le> x" "N \<le> x div 1000000" by (auto simp: to_ms_def split: if_splits)
  then show ?thesis by linarith
qed

lemma sleep_loop_ends:
  assumes "t1 \<le> t2" "successively (\<lambda>a b. a + 1000000 \<le> b) (t2 # clock)" "N - to_ms (t2 - t1) \<le> int (length clock)"
  shows "\<exists>asked_for t3. sleep_loop N t1 t2 clock = Some (asked_for, t3) \<and> N \<le> to_ms (t3 - t1)
    \<and> int (length asked_for) \<le> max 0 (N - to_ms (t2 - t1)) \<and> (\<forall>n \<in> set asked_for. 1 \<le> n \<and> n \<le> N - to_ms (t2 - t1))"
  using assms
proof (induction clock arbitrary: t2)
  case (Cons t clock)
  show ?case
  proof (cases "to_ms (t2 - t1) < N")
    case True
    have t: "t2 + 1000000 \<le> t" "successively (\<lambda>a b. a + 1000000 \<le> b) (t # clock)"
      using Cons.prems(2) by (simp_all add: successively_Cons)
    have ms: "to_ms (t2 - t1) + 1 \<le> to_ms (t - t1)"
      using to_ms_mono [of "t2 - t1 + 1000000" "t - t1"] to_ms_add [of "t2 - t1"] t(1) Cons.prems(1) by simp
    have "t1 \<le> t" "N - to_ms (t - t1) \<le> int (length clock)" using t(1) ms Cons.prems(1,3) by simp_all
    from Cons.IH [OF this(1) t(2) this(2)] obtain asked_for t3 where ih: "sleep_loop N t1 t clock = Some (asked_for, t3)"
      "N \<le> to_ms (t3 - t1)" "int (length asked_for) \<le> max 0 (N - to_ms (t - t1))"
      "\<forall>n \<in> set asked_for. 1 \<le> n \<and> n \<le> N - to_ms (t - t1)" by blast
    let ?asked = "(N - to_ms (t2 - t1)) # asked_for"
    have "sleep_loop N t1 t2 (t # clock) = Some (?asked, t3)" using True ih(1) by simp
    moreover have "int (length ?asked) \<le> max 0 (N - to_ms (t2 - t1))" using ih(3) ms True by simp
    moreover have "\<forall>n \<in> set ?asked. 1 \<le> n \<and> n \<le> N - to_ms (t2 - t1)" using ih(4) ms True by force
    ultimately show ?thesis using ih(2) by blast
  qed simp
qed simp

text \<open>
  Property C40: the sleep of the tests. Although a signal may end a sleep early, the loop returns: when every sleep lets at
  least a millisecond pass, after at most \<open>N\<close> sleeps, each asked for a positive time that is not longer than
  \<open>N\<close>, and not before \<open>N\<close> milliseconds are over.
\<close>

theorem sleep_ms_returns:
  assumes "0 < N" "t1 \<le> t2" "successively (\<lambda>a b. a + 1000000 \<le> b) (t2 # clock)" "N \<le> int (length clock)"
  shows "\<exists>asked_for t3. sleep_ms self v N t1 t2 clock = (registerThread self v, Some (asked_for, t3)) \<and> t1 + N * 1000000 \<le> t3
    \<and> int (length asked_for) \<le> N \<and> (\<forall>n \<in> set asked_for. 1 \<le> n \<and> n \<le> N)"
proof -
  have z: "0 \<le> to_ms (t2 - t1)" using assms(2) by (simp add: to_ms_def)
  with assms(4) have "N - to_ms (t2 - t1) \<le> int (length clock)" by simp
  from sleep_loop_ends [OF assms(2,3) this] obtain asked_for t3 where r: "sleep_loop N t1 t2 clock = Some (asked_for, t3)"
    "N \<le> to_ms (t3 - t1)" "int (length asked_for) \<le> max 0 (N - to_ms (t2 - t1))"
    "\<forall>n \<in> set asked_for. 1 \<le> n \<and> n \<le> N - to_ms (t2 - t1)" by blast
  from to_ms_reached [OF assms(1) r(2)] have "t1 + N * 1000000 \<le> t3" by simp
  moreover have "int (length asked_for) \<le> N" using r(3) z assms(1) by simp
  moreover have "\<forall>n \<in> set asked_for. 1 \<le> n \<and> n \<le> N" using r(4) z by fastforce
  ultimately show ?thesis using r(1) by (auto simp: sleep_ms_def)
qed

theorem sleep_ms_returns_witness:
  "\<exists>v asked_for t3. sleep_ms 77 registry_new 3 0 0 [1500000, 2600000, 9000000] = (v, Some (asked_for, t3)) \<and> 3000000 \<le> t3"
  using sleep_ms_returns [of 3 0 0 "[1500000, 2600000, 9000000]" 77 registry_new] by fastforce

section \<open>The test of the signals\<close>

lemma raise_handled:
  assumes "\<forall>sig \<in> set signals. d sig = UserHandler 0 \<and> 0 \<le> sig \<and> sig < int (length gs)"
  shows "\<exists>gs'. raise_all signals d gs = Inr (Some gs') \<and> length gs' = length gs
    \<and> (\<forall>i < length gs. gs' ! i = (if int i \<in> set signals then 1 else gs ! i))"
  using assms
proof (induction signals arbitrary: gs)
  case (Cons sig signals)
  then have sig: "d sig = UserHandler 0" "0 \<le> sig" "sig < int (length gs)" by auto
  from Cons.IH [of "gs[nat sig := 1]"] Cons.prems obtain gs' where gs': "raise_all signals d (gs[nat sig := 1]) = Inr (Some gs')"
    "length gs' = length gs" "\<forall>i < length gs. gs' ! i = (if int i \<in> set signals then 1 else gs[nat sig := 1] ! i)" by auto
  then have "\<forall>i < length gs. gs' ! i = (if int i \<in> set (sig # signals) then 1 else gs ! i)"
    using sig by (auto simp: nth_list_update)
  moreover have "raise_all (sig # signals) d gs = Inr (Some gs')" using sig gs'(1) by (simp add: handleSignal_def)
  ultimately show ?case using gs'(2) by blast
qed simp

lemma check_signals_set:
  "\<forall>sig \<in> set signals. gs ! nat sig = 1 \<Longrightarrow> check_signals signals gs valgrind pass results = (pass, results)"
  by (induction signals) (simp_all add: Let_def)

lemma catchable_in_table: "catchable sig \<Longrightarrow> 0 \<le> sig \<and> sig < 256"
  by (auto simp: catchable_def signal_numbers)

lemma signals_delivered:
  assumes "length (sg_set s) = 256" "length gs = 1024"
  shows "\<exists>s' gs' out. testSignal 0 strsignal valgrind s gs results
      = Inr (Some (passes ''Signals set/caught'' results, s', gs', out))
    \<and> (\<forall>sig. sg_disp s' sig = (if catchable sig then SIG_DFL else sg_disp s sig))
    \<and> (\<forall>i < 1024. gs' ! i = (if catchable (int i) then 1 else gs ! i))
    \<and> length out = 64"
proof -
  let ?sigs = allSignalsToCatch
  have cat: "sig \<in> set ?sigs \<longleftrightarrow> catchable sig" for sig by (rule set_allSignals)
  have tab: "\<forall>sig \<in> set ?sigs. 0 \<le> sig \<and> sig < int (length (sg_set s))"
    using catchable_in_table by (simp add: cat assms(1))
  define s1 where "s1 = s\<lparr>sg_disp := disp_after ?sigs (UserHandler 0) (sg_disp s), sg_set := set_after ?sigs True (sg_set s)\<rparr>"
  have set: "setSignals ?sigs (UserHandler 0) s = Inr s1"
    using tab by (simp add: setSignals_eq s1_def)
  have "\<forall>sig \<in> set ?sigs. sg_disp s1 sig = UserHandler 0 \<and> 0 \<le> sig \<and> sig < int (length gs)"
    using catchable_in_table assms(2) by (force simp: s1_def disp_after_def cat)
  from raise_handled [OF this] obtain gs' where gs': "raise_all ?sigs (sg_disp s1) gs = Inr (Some gs')"
    "\<forall>i < 1024. gs' ! i = (if int i \<in> set ?sigs then 1 else gs ! i)" using assms(2) by auto
  have "gs' ! nat sig = 1" if "sig \<in> set ?sigs" for sig
  proof -
    have "0 \<le> sig" "nat sig < 1024" using catchable_in_table [of sig] that cat by auto
    with gs'(2) that show ?thesis by simp
  qed
  then have chk: "check_signals ?sigs gs' valgrind True results = (True, results)" by (intro check_signals_set) simp
  define s2 where "s2 = s1\<lparr>sg_disp := disp_after ?sigs SIG_DFL (sg_disp s1), sg_set := set_after ?sigs False (sg_set s1)\<rparr>"
  have clr: "clearSignals_of ?sigs s1 = Inr s2"
    using tab by (simp add: clearSignals_of_eq s1_def s2_def)
  have "last ?sigs = 64"
    by (simp add: allSignalsToCatch_def signal_numbers upto_rec_numeral)
  then have "length (signal_lines strsignal ?sigs) = 64" by (simp add: signal_lines_def)
  moreover have "testSignal 0 strsignal valgrind s gs results
      = Inr (Some (passes ''Signals set/caught'' results, s2, gs', signal_lines strsignal ?sigs))"
    by (simp add: testSignal_def set gs'(1) chk clr)
  moreover have "\<forall>sig. sg_disp s2 sig = (if catchable sig then SIG_DFL else sg_disp s sig)"
    by (simp add: s2_def s1_def disp_after_def cat)
  moreover have "\<forall>i < 1024. gs' ! i = (if catchable (int i) then 1 else gs ! i)" using gs'(2) by (simp add: cat)
  ultimately show ?thesis by blast
qed

text \<open>
  Property C25: the test of the signals passes on the model of the handlers, from any state of the program. Every signal that can
  be caught is delivered to the handler of the test exactly where its entry of the table shows it. Afterwards all these signals have their
  default action: the handlers of \<open>setErrorHandlers\<close> that \<open>main\<close> had installed are gone for the tests that follow.
\<close>

theorem testSignal_passes:
  assumes "length (sg_set s) = 256" "length gs = 1024"
  shows "\<exists>s' gs' out. testSignal 0 strsignal valgrind s gs results
      = Inr (Some (passes ''Signals set/caught'' results, s', gs', out))
    \<and> (\<forall>sig. sg_disp s' sig = (if catchable sig then SIG_DFL else sg_disp s sig))
    \<and> (\<forall>i < 1024. gs' ! i = (if catchable (int i) then 1 else gs ! i))
    \<and> length out = 64"
  by (rule signals_delivered [OF assms])

theorem testSignal_passes_witness:
  "\<exists>s gs out. testSignal 0 (\<lambda>_. Some ''name'') False (signal_state0 (\<lambda>_. TerminateHandler)) (replicate 1024 0) unit_test_new
      = Inr (Some (passes ''Signals set/caught'' unit_test_new, s, gs, out))
    \<and> sg_disp s 6 = SIG_DFL \<and> sg_disp s 9 = TerminateHandler \<and> gs ! 11 = 1 \<and> gs ! 9 = 0"
proof -
  from testSignal_passes [of "signal_state0 (\<lambda>_. TerminateHandler)" "replicate 1024 0" "\<lambda>_. Some ''name''" False unit_test_new]
  obtain s gs out where r: "testSignal 0 (\<lambda>_. Some ''name'') False (signal_state0 (\<lambda>_. TerminateHandler)) (replicate 1024 0) unit_test_new
      = Inr (Some (passes ''Signals set/caught'' unit_test_new, s, gs, out))"
    "\<forall>sig. sg_disp s sig = (if catchable sig then SIG_DFL else sg_disp (signal_state0 (\<lambda>_. TerminateHandler)) sig)"
    "\<forall>i < 1024. gs ! i = (if catchable (int i) then 1 else replicate 1024 0 ! i)"
    by (auto simp: signal_state0_def)
  then show ?thesis by (simp add: catchable_def signal_numbers signal_state0_def)
qed

section \<open>The test of the ends of a program\<close>

lemma contains_report:
  "ends_with_report m reason r \<Longrightarrow> contains (error_output r) reason"
  by (auto simp: ends_with_report_def contains_def find_sub_None_iff)

lemma TestTerminate_output_runs:
  assumes "NUL \<notin> set rootPath" "arg \<in> {''signal'', ''abort'', ''throw'', ''segfault''}"
    "popen (rootPath @ ''TestTerminate '' @ arg @ '' 2>&1'') = Some (error_output r, code, echild)"
    "ends_with_report m reason r"
  shows "TestTerminate_output popen rootPath arg d = Inr (error_output r, d)"
proof -
  have "NUL \<notin> set (rootPath @ ''TestTerminate '' @ arg @ '' 2>&1'')" using assms(1,2) by auto
  then have "cstr (rootPath @ ''TestTerminate '' @ arg @ '' 2>&1'') = rootPath @ ''TestTerminate '' @ arg @ '' 2>&1''"
    by (rule cstr_eq_self)
  moreover have "NUL \<notin> set (error_output r)" using assms(4) by (auto simp: ends_with_report_def)
  ultimately show ?thesis
    using exec_result [of popen "rootPath @ ''TestTerminate '' @ arg @ '' 2>&1''" d] assms(3)
    by (simp add: TestTerminate_output_def)
qed

text \<open>
  Property C24: the test of the ends passes, from the commands to the handlers. When the shell runs \<open>TestTerminate\<close> with its
  four arguments and passes on what the program writes to its error stream, and reports can be made, then
  \<open>testTerminate\<close> finds all four reports, adds four passed tests and no failure, and leaves the signals as they were.
\<close>

theorem testTerminate_passes:
  assumes "\<forall>err s. ae_stack err = su_trace m \<longrightarrow> returns (report m err s)" "file \<noteq> []" "NUL \<notin> set file" "NUL \<notin> set rootPath"
    and "\<forall>arg \<in> {''signal'', ''abort'', ''throw'', ''segfault''}. \<exists>code echild.
      popen (rootPath @ ''TestTerminate '' @ arg @ '' 2>&1'')
        = Some (error_output (TestTerminate_main m file line [''TestTerminate'', arg] (error_state0 (\<lambda>_. SIG_DFL) mpi)), code, echild)"
  shows "testTerminate Linux 0 popen rootPath d results
    = Inr (results\<lparr>ut_passes := ut_passes results @ [''Unhandled signal (6) caught'', ''Program abort called in file'',
        ''Unhandled exception caught'', ''Unhandled signal (11) caught'']\<rparr>, d)"
proof -
  let ?run = "\<lambda>arg. TestTerminate_main m file line [''TestTerminate'', arg] (error_state0 (\<lambda>_. SIG_DFL) mpi)"
  have ends: "ends_with_report m ''Unhandled signal (6) caught'' (?run ''signal'')"
    "ends_with_report m ''Program abort called in file'' (?run ''abort'')"
    "ends_with_report m ''Unhandled exception caught'' (?run ''throw'')"
    "ends_with_report m ''Unhandled signal (11) caught'' (?run ''segfault'')"
    using TestTerminate_ends [OF assms(1-3), of line mpi] unfolding Let_def by blast+
  have out: "TestTerminate_output popen rootPath arg d' = Inr (error_output (?run arg), d')"
    if "arg \<in> {''signal'', ''abort'', ''throw'', ''segfault''}" "ends_with_report m reason (?run arg)" for arg reason d'
  proof -
    from bspec [OF assms(5) that(1)] obtain code echild
      where "popen (rootPath @ ''TestTerminate '' @ arg @ '' 2>&1'') = Some (error_output (?run arg), code, echild)" by blast
    with TestTerminate_output_runs [of rootPath arg popen "?run arg" code echild m reason d'] assms(4) that show ?thesis by blast
  qed
  have o: "TestTerminate_output popen rootPath ''signal'' d' = Inr (error_output (?run ''signal''), d')"
    "TestTerminate_output popen rootPath ''abort'' d' = Inr (error_output (?run ''abort''), d')"
    "TestTerminate_output popen rootPath ''throw'' d' = Inr (error_output (?run ''throw''), d')"
    "TestTerminate_output popen rootPath ''segfault'' d' = Inr (error_output (?run ''segfault''), d')" for d'
    by (rule out [OF _ ends(1)], simp) (rule out [OF _ ends(2)], simp, rule out [OF _ ends(3)], simp, rule out [OF _ ends(4)], simp)
  show ?thesis
    unfolding testTerminate_def o
    by (simp add: contains_report [OF ends(1)] contains_report [OF ends(2)] contains_report [OF ends(3)]
        contains_report [OF ends(4)] addMessage_def passes_def)
qed

theorem testTerminate_passes_witness:
  "\<exists>popen. testTerminate Linux 0 popen ''./'' (\<lambda>_. SIG_DFL) unit_test_new
     = Inr (\<lparr>ut_passes = [''Unhandled signal (6) caught'', ''Program abort called in file'',
        ''Unhandled exception caught'', ''Unhandled signal (11) caught''], ut_failure = [], ut_expected = []\<rparr>, \<lambda>_. SIG_DFL)"
proof -
  let ?m = "\<lparr>su_platform = bare_platform, su_backtrace = (\<lambda>tid buffer. (0, buffer)), su_threads = [], su_self = (0 :: nat),
      su_remote = ms_empty_tree, su_symbols = \<lparr>sc_loaded = False, sc_data = []\<rparr>, su_bytes = 0, su_trace = []\<rparr>"
  let ?run = "\<lambda>arg. TestTerminate_main ?m ''TestTerminate.cpp'' 24 [''TestTerminate'', arg] (error_state0 (\<lambda>_. SIG_DFL) False)"
  let ?cmd = "\<lambda>arg. ''./'' @ ''TestTerminate '' @ arg @ '' 2>&1''"
  let ?popen = "\<lambda>cmd. Some (error_output (?run (takeWhile (\<lambda>c. c \<noteq> CHR 0x20) (drop 16 cmd))), 134 :: int, False)"
  have 1: "\<forall>err s. ae_stack err = su_trace ?m \<longrightarrow> returns (report ?m err s)"
    by (simp add: report_def what_report_def what_def what_stack_def)
  have 2: "\<forall>arg \<in> {''signal'', ''abort'', ''throw'', ''segfault''}. \<exists>code echild.
      ?popen (?cmd arg) = Some (error_output (?run arg), code, echild)" by (simp add: ex_bool_eq)
  have "testTerminate Linux 0 ?popen ''./'' (\<lambda>_. SIG_DFL) unit_test_new
      = Inr (unit_test_new\<lparr>ut_passes := ut_passes unit_test_new @ [''Unhandled signal (6) caught'', ''Program abort called in file'',
        ''Unhandled exception caught'', ''Unhandled signal (11) caught'']\<rparr>, \<lambda>_. SIG_DFL)"
    by (rule testTerminate_passes [OF 1 _ _ _ 2]) simp_all
  then show ?thesis unfolding unit_test_new_def by auto
qed

section \<open>Helpers for the run of all tests\<close>

lemma N_failed_ranks_zero:
  assumes "sum_list (map (\<lambda>ut. length (ut_failure ut)) uts) < 4294967296"
  shows "N_failed_ranks uts = 0 \<longleftrightarrow> (\<forall>ut \<in> set uts. ut_failure ut = [])"
proof -
  have "N_failed_ranks uts = of_nat (sum_list (map (\<lambda>ut. length (ut_failure ut)) uts))"
    by (induction uts) (simp_all add: N_failed_ranks_def sumReduce_def N_failed_def)
  moreover have "(of_nat n :: 32 word) = 0 \<longleftrightarrow> n = 0" if "n < 4294967296" for n
    using that by (auto simp: word_of_nat_eq_0_iff dvd_imp_le)
  ultimately show ?thesis using assms by (auto simp: sum_list_eq_0_iff)
qed

lemma rfind_last:
  assumes "s \<noteq> []" "rfind s (tl s @ v) = None"
  shows "rfind s (u @ s @ v) = Some (length u)"
proof -
  obtain c t where s: "s = c # t" using assms(1) by (cases s) auto
  have "rfind s (s @ v) = Some 0" using assms(2) by (simp add: s)
  then show ?thesis by (induction u) simp_all
qed

lemma root_path_spec:
  assumes "rfind ''TestStack'' (''estStack'' @ v) = None"
  shows "root_path (u @ ''TestStack'' @ v) = Inr (if u = [] then ''./'' else u)"
  using rfind_last [of "''TestStack''" v u] assms by (simp add: root_path_def)

lemma testTypeName_passes:
  assumes "getTypeName demangle i = Inr ''int''" "getTypeName demangle f = Inr ''float''"
    "getTypeName demangle d = Inr ''double''" "getTypeName demangle c = Inr ''std::complex<double>''"
  shows "testTypeName demangle (i, f, d, c) results = Inr (passes ''getTypeName'' results)"
  using assms by (simp add: testTypeName_def addMessage_def)

lemma testActiveThreads_never_fails: "ut_failure (testActiveThreads rank active self t1 t2 results) = ut_failure results"
  by (simp add: testActiveThreads_def Let_def)

text \<open>What the tests do to the handlers.\<close>

lemma exec_disposition:
  assumes "exec popen cmd d = Inr (r, d')"
  shows "d' = d \<or> d' = d(SIGCHLD := SIG_IGN)"
proof (cases "popen (cstr cmd)")
  case None
  with assms show ?thesis by (auto simp: exec_def exec2_def os_signal_def SIGCHLD_catchable)
next
  case (Some x)
  with assms show ?thesis by (cases x) (auto simp: exec_def exec2_def bindR_Inr_iff exec2_disposition)
qed

lemma handlers_known_sigchld:
  "handlers_known sg \<Longrightarrow> h \<noteq> TerminateHandler \<Longrightarrow> handlers_known (sg\<lparr>sg_disp := (sg_disp sg)(SIGCHLD := h)\<rparr>)"
  by (simp add: handlers_known_def)

lemma testTerminate_disposition:
  assumes "testTerminate os rank popen rootPath d results = Inr (results', d')"
  shows "d' = d \<or> d' = d(SIGCHLD := SIG_IGN)"
proof -
  have "e' = e \<or> e' = e(SIGCHLD := SIG_IGN)" if "TestTerminate_output popen rootPath arg e = Inr (msg, e')" for arg e msg e'
    using that exec_disposition [of popen "rootPath @ ''TestTerminate '' @ arg @ '' 2>&1''" e]
    by (auto simp: TestTerminate_output_def bindR_Inr_iff)
  note out = this
  show ?thesis
    using assms by (auto simp: testTerminate_def bindR_Inr_iff Let_def split: if_splits dest!: out)
qed

lemma testSignal_known:
  assumes "testSignal rank strsignal valgrind s gs results = Inr (Some (results', s', gs', out))" "handlers_known s"
  shows "handlers_known s'"
proof (cases "rank = 0")
  case True
  with assms(1) obtain s1 where s1: "setSignals allSignalsToCatch (UserHandler 0) s = Inr s1"
    by (auto simp: testSignal_def bindR_Inr_iff)
  moreover from this True assms(1) obtain y where "raise_all allSignalsToCatch (sg_disp s1) gs = Inr (Some y)"
    by (auto simp: testSignal_def bindR_Inr_iff split: option.splits)
  ultimately have "clearSignals_of allSignalsToCatch s1 = Inr s'"
    using True assms(1) by (cases "check_signals allSignalsToCatch y valgrind True results")
      (auto simp: testSignal_def bindR_Inr_iff Let_def split: if_splits)
  then show ?thesis using handlers_known_set [OF assms(2) s1] handlers_known_clear_of by blast
qed (use assms in \<open>simp add: testSignal_def\<close>)

end
