(* ===== verification/MPI_Collectives.thy ===== *)
theory MPI_Collectives
  imports Prelude
begin

text \<open>
  The collective operations of MPI that the test driver uses on \<open>MPI_COMM_WORLD\<close>. The processes have to call them in the same
  order: the next operation takes place when every process calls it; processes that wait in different operations, or for a process that
  calls no more, do not go on.
\<close>

datatype collective = InitThread | Barrier | Bcast | CommDup | CommFree | Allreduce | FinalizeMPI

text \<open>The calls of each process, in the order of the program; whether all of them take place.\<close>

function in_step :: "collective list list \<Rightarrow> bool" where
  "in_step calls =
     (if list_all (\<lambda>cs. cs = []) calls then True
      else if list_all (\<lambda>cs. cs \<noteq> [] \<and> hd cs = hd (hd calls)) calls then in_step (map tl calls)
      else False)"
  by pat_completeness auto
termination
proof (relation "measure (\<lambda>calls. length (hd calls))")
  fix calls :: "collective list list"
  assume "\<not> list_all (\<lambda>cs. cs = []) calls" "list_all (\<lambda>cs. cs \<noteq> [] \<and> hd cs = hd (hd calls)) calls"
  then show "(map tl calls, calls) \<in> measure (\<lambda>calls. length (hd calls))"
    by (cases calls) (auto simp: list_all_iff)
qed simp

declare in_step.simps [simp del]

text \<open>The processes stay in step exactly when they make the same calls.\<close>

lemma in_step_same: "in_step (cs # css) \<longleftrightarrow> (\<forall>ds \<in> set css. ds = cs)"
proof (induction cs arbitrary: css)
  case Nil
  show ?case by (subst in_step.simps) (auto simp: list_all_iff)
next
  case (Cons c cs)
  have "in_step ((c # cs) # css) \<longleftrightarrow> (\<forall>ds \<in> set css. ds \<noteq> [] \<and> hd ds = c) \<and> in_step (cs # map tl css)"
    by (subst in_step.simps) (auto simp: list_all_iff)
  also have "\<dots> \<longleftrightarrow> (\<forall>ds \<in> set css. ds \<noteq> [] \<and> hd ds = c) \<and> (\<forall>ds \<in> set css. tl ds = cs)"
    unfolding Cons.IH by simp
  also have "\<dots> \<longleftrightarrow> (\<forall>ds \<in> set css. ds = c # cs)"
    by (metis list.collapse list.distinct(1) list.sel(1,3))
  finally show ?case .
qed

end
