(* ===== verification/Test_Run.thy ===== *)
theory Test_Run
  imports Test_Stack Global_Stacks MPI_Collectives
begin

text \<open>
  The \<open>main\<close> function of \<open>TestStack.cpp\<close>: one process of MPI with its tests in their order, the start and the end of
  MPI, of the handlers and of the monitor thread around them, and the processes together, whose exit code is the number
  of all failures when their collective operations match. The signals are those of Linux.
\<close>

section \<open>What a process finds\<close>

text \<open>
  Its arguments, the end of the parallel commands, the demangler and the names of the types, the
  threads, the stacks of the current and of another thread, the trees of all threads and of all processes (the second time by
  every rank), the number of symbols, the executable, the C library, valgrind, the files, the memory of the system and the
  shell; whether MPI supports threads and how many threads are registered when rank 0 starts the monitor; the threads whose stacks
  are asked for (the one of the test of a thread, then those that are registered at the three calls for all stacks), whether the commands that
  resolve the addresses can be started; what the report of an error asks for, the place of the call of \<open>abort\<close> and the
  readings of the clock around the loops that throw.
\<close>

record 'tid stack_run =
  sr_argv :: "cstring list"
  sr_exec :: exec_world
  sr_demangle :: "cstring \<Rightarrow> cstring option"
  sr_type_ids :: "cstring \<times> cstring \<times> cstring \<times> cstring"
  sr_threads :: "64 word list \<times> 64 word \<times> 64 word \<times> 64 word"
  sr_call_stack :: "stack_info list"
  sr_thread_stack :: "stack_info list"
  sr_long_enough :: bool
  sr_full :: multi_stack_info
  sr_global :: multi_stack_info
  sr_global_all :: multi_stack_info
  sr_symbols :: nat
  sr_executable :: cstring
  sr_strsignal :: "int \<Rightarrow> cstring option"
  sr_valgrind :: bool
  sr_files :: "cstring \<Rightarrow> cstring option"
  sr_bytes :: "64 word"
  sr_popen :: popen
  sr_multiple :: bool
  sr_registered :: nat
  sr_asked :: "'tid \<times> 'tid list \<times> 'tid list \<times> 'tid list"
  sr_commands :: bool
  sr_surroundings :: "'tid surroundings"
  sr_source :: "cstring \<times> 32 word"
  sr_clock :: "int \<times> int \<times> int"

section \<open>The remaining tests\<close>

text \<open>\<open>getGlobalCallStacks\<close> is called by rank 0, or by all ranks; only the first call is printed.\<close>

definition testGlobalStack :: "nat \<Rightarrow> bool \<Rightarrow> multi_stack_info \<Rightarrow> cstring list result" where
  "testGlobalStack rank all t =
     bindR (cleanupStackTrace (if rank = 0 \<or> all then t else ms_empty_tree)) (\<lambda>call_stack.
       if rank = 0 \<and> \<not> all then ms_print call_stack [] else Inr [])"

text \<open>The comparisons with \<open>1e7\<close> and \<open>1e14\<close> are exact.\<close>

definition testSystemMemory :: "64 word \<Rightarrow> unit_test \<Rightarrow> unit_test" where
  "testSystemMemory bytes results =
     addMessage results (10000000 < bytes \<and> bytes < 100000000000000) ''getSystemMemory'' False"

text \<open>
  The cost of one of ten calls: the cast to microseconds and the division truncate towards zero, and the result is narrowed to
  an \<open>int\<close>.
\<close>

definition trunc_div :: "int \<Rightarrow> int \<Rightarrow> int" where
  "trunc_div a n = (if 0 \<le> a then a div n else - (- a div n))"

definition throw_cost :: "int \<Rightarrow> int" where
  "throw_cost dt = sint (word_of_int (trunc_div (trunc_div dt 1000) 10) :: 32 word)"

text \<open>
  Rank 0 catches an error of \<open>abort\<close> and prints its report, then it measures; \<open>s\<close> holds the default type of the
  stack and the signals, which the report changes. The errors that are caught in the loops are not looked at.
\<close>

definition test_throw ::
    "nat \<Rightarrow> 'tid surroundings \<Rightarrow> cstring \<times> 32 word \<Rightarrow> int \<times> int \<times> int \<Rightarrow> error_state
      \<Rightarrow> (cstring list \<times> symbols_cache \<times> error_state) result" where
  "test_throw rank m source clock s =
     (if rank \<noteq> 0 then Inr ([], su_symbols m, s)
      else case (source, clock) of
        ((file, line), (t1, t2, t3)) \<Rightarrow>
          bindR (report m (abort_with (su_bytes m) (su_trace m) ''Test'' file line s) s) (\<lambda>(txt, cache, s').
            Inr ([''Testing abort:'', txt,
                  ''Cost for std::logic_error: '' @ int_str (throw_cost (t2 - t1)) @ ''us'',
                  ''Cost to call abort(): '' @ int_str (throw_cost (t3 - t2)) @ ''us'', []], cache, s')))"

section \<open>One process\<close>

definition startup :: "error_state \<Rightarrow> error_state" where
  "startup s = s\<lparr>es_mpi_running := MPI_Initialized 1 0\<rparr>"

definition shutdown :: "error_state \<Rightarrow> error_state" where
  "shutdown s = s\<lparr>es_mpi_running := MPI_Initialized 1 1\<rparr>"

text \<open>The state of the error handlers with the signals of it replaced.\<close>

definition with_disp :: "(int \<Rightarrow> disposition) \<Rightarrow> error_state \<Rightarrow> error_state" where
  "with_disp d s = s\<lparr>es_signals := (es_signals s)\<lparr>sg_disp := d\<rparr>\<rparr>"

text \<open>The files that rank 0 reads.\<close>

definition stack_files :: "'tid stack_run \<Rightarrow> cstring \<Rightarrow> cstring list" where
  "stack_files r rootPath = (rootPath @ ''ExampleStack.txt'') # tl (sr_argv r)"

text \<open>The signals behind the resolution of the stacks of some threads.\<close>

definition stacks_taken :: "'tid stack_run \<Rightarrow> 'tid list \<Rightarrow> (int \<Rightarrow> disposition) \<Rightarrow> (int \<Rightarrow> disposition)" where
  "stacks_taken r threads d =
     (let d1 = install_callstack_handler threads (su_self (sr_surroundings r)) d
      in if sr_commands r then d1 else os_signal SIGCHLD SIG_IGN d1)"

text \<open>\<open>testStackFile\<close> calls \<open>barrier\<close> when it cannot open its file.\<close>

fun testStackFiles_calls :: "(cstring \<Rightarrow> cstring option) \<Rightarrow> cstring list \<Rightarrow> collective list" where
  "testStackFiles_calls contents [] = []"
| "testStackFiles_calls contents (name # names) =
     (if contents name = None then Barrier # testStackFiles_calls contents names else testStackFiles_calls contents names)"

text \<open>
  The tests up to the one of the signals, and those behind it, on one rank, with the collective operations that they
  call: \<open>testCurrentStack\<close>, \<open>testThreadStack\<close> and \<open>testFullStack\<close> begin with a barrier, \<open>testGlobalStack\<close> and
  \<open>test_throw\<close> have two, \<open>testTerminate\<close> ends with one. What the tests print is left out, but for the line at the end of \<open>main\<close>.
\<close>

definition TestStack_first ::
    "OS \<Rightarrow> nat \<Rightarrow> 'tid stack_run \<Rightarrow> error_state \<Rightarrow> (unit_test \<times> collective list \<times> error_state) result" where
  "TestStack_first os rank r s =
     (let results = test_exec (sr_exec r) unit_test_new;
          d = (sg_disp (es_signals s))(SIGCHLD := ew_sigchld (sr_exec r));
          (thread, full, global, global_all) = sr_asked r
      in bindR (testTypeName (sr_demangle r) (sr_type_ids r) results) (\<lambda>results.
         let results = (case sr_threads r of (active, self, t1, t2) \<Rightarrow> testActiveThreads rank active self t1 t2 results);
             (results, decoded_symbols) = testCurrentStack (sr_call_stack r) results;
             d = stacks_taken r [] d;
             results = testThreadStack os (sr_thread_stack r) (sr_long_enough r) decoded_symbols results;
             d = stacks_taken r [thread] d
         in bindR (if rank = 0 then print_cleaned (sr_full r) else bindR (cleanupStackTrace (sr_full r)) (\<lambda>t. Inr [])) (\<lambda>_.
            let d = stacks_taken r full d
            in bindR (testGlobalStack rank False (sr_global r)) (\<lambda>_.
            let d = (if rank = 0 then stacks_taken r global d else d)
            in bindR (testGlobalStack rank True (sr_global_all r)) (\<lambda>_.
              let d = stacks_taken r global_all d;
                  results = (if sr_symbols r \<noteq> 0 then passes ''Read symbols from executable'' results else results)
              in Inr (addMessage results (contains (sr_executable r) ''TestStack'') ''getExecutable'' False,
                   [Barrier, Barrier, Barrier, Barrier, Barrier, Barrier, Barrier], with_disp d s))))))"

definition TestStack_last ::
    "OS \<Rightarrow> nat \<Rightarrow> 'tid stack_run \<Rightarrow> cstring \<Rightarrow> unit_test \<Rightarrow> error_state
      \<Rightarrow> (unit_test \<times> collective list \<times> symbols_cache \<times> error_state) result" where
  "TestStack_last os rank r rootPath results s =
     (let results = passes ''Caught exception'' results;
          names = stack_files r rootPath
      in bindR (if rank = 0 then testStackFiles (sr_files r) names results else Inr (results, [])) (\<lambda>(results, out).
         bindR (test_throw rank (sr_surroundings r) (sr_source r) (sr_clock r) s) (\<lambda>(out, cache, s1).
         bindR (testTerminate os rank (sr_popen r) rootPath (sg_disp (es_signals s1)) (testSystemMemory (sr_bytes r) results)) (\<lambda>(results, d).
           Inr (results,
                (if rank = 0 then testStackFiles_calls (sr_files r) names else []) @ [Barrier] @ [Barrier, Barrier]
                  @ (if os = Windows then [] else [Barrier]),
                cache, with_disp d s1)))))"

text \<open>The tests of a rank, or \<open>None\<close> when a signal has ended it.\<close>

definition TestStack_tests ::
    "OS \<Rightarrow> nat \<Rightarrow> 'tid stack_run \<Rightarrow> error_state
      \<Rightarrow> (unit_test \<times> collective list \<times> symbols_cache \<times> error_state) option result" where
  "TestStack_tests os rank r s1 =
     bindR (if sr_argv r = [] then Inl NullPointer else root_path (hd (sr_argv r))) (\<lambda>rootPath.
     bindR (TestStack_first os rank r s1) (\<lambda>(results, calls1, s2).
     bindR (testSignal rank (sr_strsignal r) (sr_valgrind r) (es_signals s2) (replicate 1024 0) results) (\<lambda>tested.
       case tested of
         None \<Rightarrow> Inr None
       | Some (results, sg, gs, out) \<Rightarrow>
           bindR (TestStack_last os rank r rootPath results (s2\<lparr>es_signals := sg\<rparr>)) (\<lambda>(results, calls2, cache, s3).
             Inr (Some (results, calls1 @ [Barrier, Barrier] @ calls2, cache, s3))))))"

text \<open>
  The life of a rank: its results, its handlers, the monitor and the symbols at the end, and all its collective operations; \<open>None\<close> is
  also \<open>std::terminate\<close> in the start of the monitor. \<open>N_threads\<close> is the number that rank 0 broadcasts when the monitor is started;
  \<open>print\<close> calls \<open>printAll\<close> twice, which has a barrier for every rank.
\<close>

record rank_end =
  re_results :: unit_test
  re_errors :: error_state
  re_monitor :: monitor_state
  re_symbols :: symbols_cache
  re_calls :: "collective list"

definition globalCallStackInitialize_calls :: "bool \<Rightarrow> bool \<Rightarrow> nat \<Rightarrow> collective list" where
  "globalCallStackInitialize_calls mpi_running thread_multiple N_threads =
     (if \<not> mpi_running then [] else if \<not> thread_multiple then []
      else Bcast # (if N_threads = 1 then [] else [CommDup]))"

definition print_calls :: "nat \<Rightarrow> collective list" where
  "print_calls procs = replicate procs Barrier @ replicate procs Barrier"

definition TestStack_rank ::
    "OS \<Rightarrow> nat \<Rightarrow> nat \<Rightarrow> nat \<Rightarrow> 'tid stack_run \<Rightarrow> error_state \<Rightarrow> rank_end option result" where
  "TestStack_rank os procs N_threads rank r s0 =
     bindR (setErrorHandlers NoFunction (setAbortBehavior True 3 (startup s0))) (\<lambda>s1.
       case globalCallStackInitialize (es_mpi_running s1) (sr_multiple r) N_threads monitor_state0 of
         None \<Rightarrow> Inr None
       | Some g \<Rightarrow>
           bindR (TestStack_tests os rank r s1) (\<lambda>tested.
             case tested of
               None \<Rightarrow> Inr None
             | Some (results, calls, cache, s3) \<Rightarrow>
                 let s4 = clearErrorHandlers s3;
                     s5 = s4\<lparr>es_signals := clearSignals (es_signals s4)\<rparr>
                 in Inr (Some \<lparr>re_results = results, re_errors = shutdown s5, re_monitor = globalCallStackFinalize g,
                      re_symbols = clearSymbols cache,
                      re_calls = [InitThread] @ globalCallStackInitialize_calls (es_mpi_running s1) (sr_multiple r) N_threads
                        @ calls @ [Allreduce] @ print_calls procs @ (if gm_comm g then [CommFree] else [])
                        @ [Barrier, FinalizeMPI]\<rparr>)))"

section \<open>All processes\<close>

fun TestStack_ranks ::
    "OS \<Rightarrow> nat \<Rightarrow> nat \<Rightarrow> error_state \<Rightarrow> nat \<Rightarrow> 'tid stack_run list \<Rightarrow> rank_end list option result" where
  "TestStack_ranks os procs N_threads s0 rank [] = Inr (Some [])"
| "TestStack_ranks os procs N_threads s0 rank (r # runs) =
     bindR (TestStack_rank os procs N_threads rank r s0) (\<lambda>ended.
       case ended of
         None \<Rightarrow> Inr None
       | Some e \<Rightarrow> bindR (TestStack_ranks os procs N_threads s0 (Suc rank) runs) (\<lambda>es. Inr (map_option ((#) e) es)))"

text \<open>
  The exit code, the lines that are printed behind the tests, and how the ranks end. \<open>None\<close> is a program that does not come to its end:
  one of the ranks ends early and keeps the others waiting, or the ranks wait in different collective operations.
\<close>

definition TestStack_main ::
    "OS \<Rightarrow> 'tid stack_run list \<Rightarrow> error_state \<Rightarrow> (32 word \<times> cstring list \<times> rank_end list) option result" where
  "TestStack_main os runs s0 =
     bindR (TestStack_ranks os (length runs) (sr_registered (hd runs)) s0 0 runs) (\<lambda>ended.
       case ended of
         None \<Rightarrow> Inr None
       | Some ends \<Rightarrow>
           if \<not> in_step (map re_calls ends) then Inr None
           else let uts = map re_results ends; N_errors = N_failed_ranks uts
                in Inr (Some (N_errors, print_ranks uts @ (if N_errors = 0 then [[], ''All tests passed''] else []), ends)))"

section \<open>What the tests find\<close>

text \<open>
  What has to be there for a rank to come to its end: the name of the executable, the names of the types, printable trees and
  files, reports and output without NUL.
\<close>

definition completes :: "nat \<Rightarrow> 'tid stack_run \<Rightarrow> bool" where
  "completes rank r \<longleftrightarrow>
     sr_argv r \<noteq> [] \<and> rfind ''TestStack'' (hd (sr_argv r)) \<noteq> None
     \<and> (case sr_type_ids r of (i, f, d, c) \<Rightarrow> \<forall>id \<in> {i, f, d, c}. sr_demangle r id \<noteq> None)
     \<and> (\<forall>cmd out code echild. sr_popen r cmd = Some (out, code, echild) \<longrightarrow> NUL \<notin> set out)
     \<and> (rank = 0 \<longrightarrow> returns (print_cleaned (sr_full r)) \<and> returns (print_cleaned (sr_global r))
          \<and> (\<forall>name buf. sr_files r name = Some buf \<longrightarrow> returns (testStackFile (Some buf) name unit_test_new))
          \<and> (\<forall>err s. ae_stack err = su_trace (sr_surroundings r) \<longrightarrow> returns (report (sr_surroundings r) err s)))"

text \<open>Whether one of the files that rank 0 reads cannot be opened.\<close>

definition file_missing :: "'tid stack_run \<Rightarrow> bool" where
  "file_missing r =
     (case root_path (hd (sr_argv r)) of
        Inl _ \<Rightarrow> False
      | Inr rootPath \<Rightarrow> list_ex (\<lambda>name. sr_files r name = None) (stack_files r rootPath))"

text \<open>The output of \<open>TestTerminate\<close> with an argument.\<close>

definition shell_output :: "popen \<Rightarrow> cstring \<Rightarrow> cstring \<Rightarrow> cstring" where
  "shell_output popen rootPath arg =
     (case popen (cstr (rootPath @ ''TestTerminate '' @ arg @ '' 2>&1'')) of None \<Rightarrow> [] | Some (out, code, echild) \<Rightarrow> out)"

definition ends_reported :: "popen \<Rightarrow> cstring \<Rightarrow> bool" where
  "ends_reported popen rootPath \<longleftrightarrow>
     contains (shell_output popen rootPath ''signal'') ''Unhandled signal (6) caught''
     \<and> contains (shell_output popen rootPath ''abort'') ''Program abort called in file''
     \<and> contains (shell_output popen rootPath ''throw'') ''Unhandled exception caught''
     \<and> contains (shell_output popen rootPath ''segfault'') ''Unhandled signal (11) caught''"

text \<open>
  What a rank has to find for its tests to pass. Nothing is asked of \<open>activeThreads\<close>, of the trees of all threads and processes
  or of the symbols.
\<close>

definition finds_right :: "OS \<Rightarrow> nat \<Rightarrow> 'tid stack_run \<Rightarrow> bool" where
  "finds_right os rank r \<longleftrightarrow>
     exec_verdict 8 1000 (sr_exec r)
     \<and> (case sr_type_ids r of (i, f, d, c) \<Rightarrow>
          getTypeName (sr_demangle r) i = Inr ''int'' \<and> getTypeName (sr_demangle r) f = Inr ''float''
          \<and> getTypeName (sr_demangle r) d = Inr ''double'' \<and> getTypeName (sr_demangle r) c = Inr ''std::complex<double>'')
     \<and> list_ex (names_function ''get_call_stack'') (sr_call_stack r)
     \<and> sr_thread_stack r \<noteq> [] \<and> (os \<noteq> Windows \<longrightarrow> list_ex (names_function ''sleep_ms'') (sr_thread_stack r) \<and> sr_long_enough r)
     \<and> contains (sr_executable r) ''TestStack''
     \<and> 10000000 < sr_bytes r \<and> sr_bytes r < 100000000000000
     \<and> (rank = 0 \<longrightarrow> \<not> file_missing r
          \<and> (os \<noteq> Windows \<longrightarrow> (\<forall>rootPath. root_path (hd (sr_argv r)) = Inr rootPath \<longrightarrow> ends_reported (sr_popen r) rootPath)))"

section \<open>The failures of each test\<close>

lemma adds_passes: "adds k ut good (passes msg ut') \<longleftrightarrow> adds k ut good ut'"
  by (simp add: adds_def passes_def)

lemma adds_message: "adds 1 ut (pass \<or> expect) (addMessage ut pass msg expect)"
  by (simp add: adds_def addMessage_def)

lemma adds_cong: "adds k ut good ut' \<Longrightarrow> k \<le> k' \<Longrightarrow> good = good' \<Longrightarrow> adds k' ut good' ut'"
  by (auto simp: adds_def)

lemma adds_exec: "adds 1 ut (exec_verdict 8 1000 w) (test_exec w ut)"
  using adds_message [of ut "exec_verdict 8 1000 w" False] by (simp add: test_exec_def)

lemma adds_active: "adds 0 ut True (testActiveThreads rank active self t1 t2 ut)"
  using testActiveThreads_never_fails by (simp add: adds_def)

lemma adds_type_name:
  assumes "\<forall>id \<in> {i, f, d, c}. demangle id \<noteq> None"
  shows "\<exists>ut'. testTypeName demangle (i, f, d, c) ut = Inr ut'
    \<and> adds 1 ut (getTypeName demangle i = Inr ''int'' \<and> getTypeName demangle f = Inr ''float''
          \<and> getTypeName demangle d = Inr ''double'' \<and> getTypeName demangle c = Inr ''std::complex<double>'') ut'"
proof -
  have "\<exists>name. getTypeName demangle id = Inr name" if "id \<in> {i, f, d, c}" for id
  proof -
    from assms that have "demangle id \<noteq> None" by (rule bspec)
    then obtain tmp where "demangle id = Some tmp" unfolding not_None_eq ..
    from getTypeName_returns(1) [of demangle id, OF this] show ?thesis ..
  qed
  from this [of i] this [of f] this [of d] this [of c]
  obtain ni nf nd nc where n: "getTypeName demangle i = Inr ni" "getTypeName demangle f = Inr nf"
    "getTypeName demangle d = Inr nd" "getTypeName demangle c = Inr nc" by auto
  let ?good = "ni = ''int'' \<and> nf = ''float'' \<and> nd = ''double'' \<and> nc = ''std::complex<double>''"
  have "testTypeName demangle (i, f, d, c) ut = Inr (addMessage ut ?good ''getTypeName'' False)"
    by (simp add: testTypeName_def n)
  with adds_message [of ut ?good False] n show ?thesis by auto
qed

lemma adds_current: "adds 1 ut (list_ex (names_function ''get_call_stack'') stack) (fst (testCurrentStack stack ut))"
proof (cases "stack = []")
  case True
  then show ?thesis by (simp add: testCurrentStack_def adds_def failure_def)
next
  case False
  have "adds 1 ut good (addMessage (passes msg1 ut) good msg2 False)" for good msg1 msg2
    by (simp add: adds_def addMessage_def passes_def failure_def)
  with False show ?thesis by (simp add: testCurrentStack_def Let_def)
qed

lemma decoded_current: "snd (testCurrentStack stack ut) = list_ex (names_function ''get_call_stack'') stack"
  by (cases "stack = []") (simp_all add: testCurrentStack_def Let_def)

lemma adds_thread:
  "adds 1 ut (stack \<noteq> [] \<and> (list_ex (names_function ''sleep_ms'') stack \<and> enough \<or> \<not> decoded \<or> os = Windows))
    (testThreadStack os stack enough decoded ut)"
  by (auto simp: testThreadStack_def Let_def adds_def passes_def failure_def expected_def)

lemma adds_files:
  assumes "\<forall>name buf. contents name = Some buf \<longrightarrow> returns (testStackFile (Some buf) name unit_test_new)"
  shows "\<exists>ut' out. testStackFiles contents names ut = Inr (ut', out)
    \<and> adds (length names) ut (list_all (\<lambda>name. contents name \<noteq> None) names) ut'"
proof (induction names arbitrary: ut)
  case Nil
  then show ?case using adds_refl by simp
next
  case (Cons name names)
  obtain ut1 out1 where 1: "testStackFile (contents name) name ut = Inr (ut1, out1)" "adds 1 ut (contents name \<noteq> None) ut1"
  proof (cases "contents name")
    case None
    then show thesis using that [of "failure (''Unable to open file '' @ name) ut" "[]"]
      by (simp add: testStackFile_def adds_def failure_def)
  next
    case (Some buf)
    with assms obtain x where "testStackFile (Some buf) name unit_test_new = Inr x" unfolding returns_iff by blast
    then have "\<exists>out. testStackFile (Some buf) name ut = Inr (ut, out)"
      by (auto simp: testStackFile_def bindR_Inr_iff)
    then obtain out where "testStackFile (contents name) name ut = Inr (ut, out)" using Some by auto
    with Some show thesis using that [of ut out] by (simp add: adds_def)
  qed
  from Cons.IH [of ut1] obtain ut2 out2 where 2: "testStackFiles contents names ut1 = Inr (ut2, out2)"
    "adds (length names) ut1 (list_all (\<lambda>name. contents name \<noteq> None) names) ut2" by blast
  from adds_trans [OF 1(2) 2(2)] 1(1) 2(1) show ?case by simp
qed

lemma exec_returns:
  assumes "\<forall>out code echild. popen (cstr cmd) = Some (out, code, echild) \<longrightarrow> NUL \<notin> set out"
  shows "\<exists>code d'. exec popen cmd d = Inr ((code, case popen (cstr cmd) of None \<Rightarrow> [] | Some (out, code, echild) \<Rightarrow> out), d')"
proof (cases "popen (cstr cmd)")
  case None
  with exec_result [of popen cmd d] show ?thesis by simp
next
  case (Some x)
  then obtain out code echild where "popen (cstr cmd) = Some (out, code, echild)" by (cases x) auto
  with assms exec_result [of popen cmd d] show ?thesis by simp
qed

lemma adds_terminate:
  assumes "\<forall>cmd out code echild. popen cmd = Some (out, code, echild) \<longrightarrow> NUL \<notin> set out"
  shows "\<exists>ut' d'. testTerminate os rank popen rootPath d ut = Inr (ut', d')
    \<and> adds 4 ut (rank = 0 \<and> os \<noteq> Windows \<longrightarrow> ends_reported popen rootPath) ut'"
proof (cases "rank = 0 \<and> os \<noteq> Windows")
  case False
  then show ?thesis by (auto simp: testTerminate_def adds_def expected_def)
next
  case True
  have out: "\<exists>d'. TestTerminate_output popen rootPath arg e = Inr (shell_output popen rootPath arg, d')" for arg e
  proof -
    let ?cmd = "rootPath @ ''TestTerminate '' @ arg @ '' 2>&1''"
    obtain code d' where "exec popen ?cmd e = Inr ((code, shell_output popen rootPath arg), d')"
      unfolding shell_output_def using exec_returns [of popen ?cmd e] assms by blast
    then have "TestTerminate_output popen rootPath arg e = Inr (shell_output popen rootPath arg, d')"
      unfolding TestTerminate_output_def by simp
    then show ?thesis by blast
  qed
  from out [of "''signal''" d] obtain d1 where 1: "TestTerminate_output popen rootPath ''signal'' d = Inr (shell_output popen rootPath ''signal'', d1)" ..
  from out [of "''abort''" d1] obtain d2 where 2: "TestTerminate_output popen rootPath ''abort'' d1 = Inr (shell_output popen rootPath ''abort'', d2)" ..
  from out [of "''throw''" d2] obtain d3 where 3: "TestTerminate_output popen rootPath ''throw'' d2 = Inr (shell_output popen rootPath ''throw'', d3)" ..
  from out [of "''segfault''" d3] obtain d4 where 4: "TestTerminate_output popen rootPath ''segfault'' d3 = Inr (shell_output popen rootPath ''segfault'', d4)" ..
  note m = adds_trans [OF adds_trans [OF adds_trans [OF adds_message adds_message] adds_message] adds_message]
  show ?thesis
    using True unfolding testTerminate_def by (auto simp: 1 2 3 4 Let_def ends_reported_def intro: adds_cong [OF m])
qed

lemma test_throw_returns:
  assumes "rank = 0 \<longrightarrow> (\<forall>err s. ae_stack err = su_trace m \<longrightarrow> returns (report m err s))"
  shows "\<exists>out cache s'. test_throw rank m source clock s = Inr (out, cache, s')"
proof (cases "rank = 0")
  case True
  with assms have "returns (report m (abort_with (su_bytes m) (su_trace m) ''Test'' name line s) s)" for name line
    by (simp add: abort_with_def)
  then show ?thesis by (cases source; cases clock) (fastforce simp: test_throw_def returns_iff bindR_Inr_iff)
qed (simp add: test_throw_def)

text \<open>Whether the report of an error for all processes asks other threads of this one.\<close>

definition report_asks :: "'tid surroundings \<Rightarrow> bool" where
  "report_asks m \<longleftrightarrow> su_trace m \<noteq> [] \<and> (\<exists>tid \<in> set (su_threads m). tid \<noteq> su_self m)"

lemma test_throw_signals:
  assumes "test_throw rank m source clock s = Inr (out, cache, s')" "es_stackType s = Global"
  shows "\<exists>d. s' = with_disp d s
    \<and> sigchld_only (if rank = 0 \<and> report_asks m then (sg_disp (es_signals s))(get_thread_callstack_signal := CallstackHandler)
        else sg_disp (es_signals s)) d"
proof (cases "rank = 0")
  case False
  with assms(1) show ?thesis by (intro exI [of _ "sg_disp (es_signals s)"]) (simp add: test_throw_def with_disp_def)
next
  case True
  obtain name line t1 t2 t3 where sc: "source = (name, line)" "clock = (t1, t2, t3)" by (cases source; cases clock) auto
  let ?err = "abort_with (su_bytes m) (su_trace m) ''Test'' name line s"
  from assms(1) True obtain msg where "report m ?err s = Inr (msg, cache, s')"
    by (auto simp: test_throw_def sc bindR_Inr_iff)
  from what_report_leaves [OF this [unfolded report_def]] obtain d where
    d: "s' = with_disp d s" "sigchld_only (if asks_threads ?err (su_threads m) (su_self m)
      then (sg_disp (es_signals s))(get_thread_callstack_signal := CallstackHandler) else sg_disp (es_signals s)) d"
    unfolding with_disp_def by blast
  have "asks_threads ?err (su_threads m) (su_self m) = report_asks m"
    using assms(2) by (simp add: asks_threads_def report_asks_def abort_with_def getDefaultStackType_def)
  with d True show ?thesis by auto
qed

section \<open>One rank\<close>

lemma cleanup_returns: "\<exists>t'. cleanupStackTrace t = Inr t'"
proof -
  have "\<forall>c \<in> set (ms_children t). ms_all (\<lambda>_ s. s \<in> UNIV) c" by (intro ballI ms_all_frame_set) simp
  from cleansD [OF clean_tree_cleans le_refl this, folded cleanupStackTrace_def] show ?thesis by blast
qed

lemma global_stack_returns:
  assumes "rank = 0 \<longrightarrow> returns (print_cleaned t)"
  shows "\<exists>out. testGlobalStack rank False t = Inr out" "\<exists>out. testGlobalStack rank True t = Inr out"
proof -
  show "\<exists>out. testGlobalStack rank False t = Inr out"
  proof (cases "rank = 0")
    case True
    with assms show ?thesis by (auto simp: testGlobalStack_def print_cleaned_def returns_iff)
  next
    case False
    with cleanup_returns [of ms_empty_tree] show ?thesis by (auto simp: testGlobalStack_def)
  qed
  show "\<exists>out. testGlobalStack rank True t = Inr out"
    using cleanup_returns [of t] by (auto simp: testGlobalStack_def)
qed

text \<open>What the tests in front of the one of the signals do to the signals.\<close>

definition first_signals :: "'tid stack_run \<Rightarrow> (int \<Rightarrow> disposition) \<Rightarrow> (int \<Rightarrow> disposition) \<Rightarrow> bool" where
  "first_signals r d0 d \<longleftrightarrow>
     (\<forall>sig. sig \<noteq> SIGCHLD \<and> sig \<noteq> get_thread_callstack_signal \<longrightarrow> d sig = d0 sig)
     \<and> d get_thread_callstack_signal \<in> {CallstackHandler, d0 get_thread_callstack_signal}
     \<and> d SIGCHLD \<in> {SIG_IGN, ew_sigchld (sr_exec r)}"

lemma not_sigchld: "get_thread_callstack_signal \<noteq> SIGCHLD"
  by (simp add: callstack_signal(1) SIGCHLD_def)

lemma first_signals_start: "first_signals r d0 (d0(SIGCHLD := ew_sigchld (sr_exec r)))"
  using not_sigchld by (simp add: first_signals_def)

lemma first_signals_taken: "first_signals r d0 d \<Longrightarrow> first_signals r d0 (stacks_taken r threads d)"
  using not_sigchld
  by (simp add: first_signals_def stacks_taken_def Let_def install_callstack_handler_eq os_signal_def SIGCHLD_catchable)

lemma adds_first:
  assumes "completes rank r"
  shows "\<exists>ut d. TestStack_first os rank r s = Inr (ut, replicate 7 Barrier, with_disp d s)
    \<and> first_signals r (sg_disp (es_signals s)) d
    \<and> adds 5 unit_test_new
        (exec_verdict 8 1000 (sr_exec r)
         \<and> (case sr_type_ids r of (i, f, d, c) \<Rightarrow>
              getTypeName (sr_demangle r) i = Inr ''int'' \<and> getTypeName (sr_demangle r) f = Inr ''float''
              \<and> getTypeName (sr_demangle r) d = Inr ''double'' \<and> getTypeName (sr_demangle r) c = Inr ''std::complex<double>'')
         \<and> list_ex (names_function ''get_call_stack'') (sr_call_stack r)
         \<and> sr_thread_stack r \<noteq> [] \<and> (os \<noteq> Windows \<longrightarrow> list_ex (names_function ''sleep_ms'') (sr_thread_stack r) \<and> sr_long_enough r)
         \<and> contains (sr_executable r) ''TestStack'') ut"
proof -
  obtain i f dd c where ids: "sr_type_ids r = (i, f, dd, c)" by (cases "sr_type_ids r")
  obtain active self t1 t2 where thr: "sr_threads r = (active, self, t1, t2)" by (cases "sr_threads r")
  define ut1 where "ut1 = test_exec (sr_exec r) unit_test_new"
  have "\<forall>id \<in> {i, f, dd, c}. sr_demangle r id \<noteq> None" using assms by (simp add: completes_def ids)
  from adds_type_name [OF this, of ut1] obtain ut2 where 2: "testTypeName (sr_demangle r) (i, f, dd, c) ut1 = Inr ut2"
    "adds 1 ut1 (getTypeName (sr_demangle r) i = Inr ''int'' \<and> getTypeName (sr_demangle r) f = Inr ''float''
          \<and> getTypeName (sr_demangle r) dd = Inr ''double'' \<and> getTypeName (sr_demangle r) c = Inr ''std::complex<double>'') ut2"
    by blast
  define ut3 where "ut3 = testActiveThreads rank active self t1 t2 ut2"
  define ut4 where "ut4 = fst (testCurrentStack (sr_call_stack r) ut3)"
  define ut5 where "ut5 = testThreadStack os (sr_thread_stack r) (sr_long_enough r)
    (list_ex (names_function ''get_call_stack'') (sr_call_stack r)) ut4"
  define ut6 where "ut6 = (if sr_symbols r \<noteq> 0 then passes ''Read symbols from executable'' ut5 else ut5)"
  define ut7 where "ut7 = addMessage ut6 (contains (sr_executable r) ''TestStack'') ''getExecutable'' False"
  obtain thread full_ids global_ids all_ids where asked: "sr_asked r = (thread, full_ids, global_ids, all_ids)"
    by (cases "sr_asked r")
  define d where "d = stacks_taken r all_ids ((if rank = 0 then stacks_taken r global_ids else id)
    (stacks_taken r full_ids (stacks_taken r [thread] (stacks_taken r []
      ((sg_disp (es_signals s))(SIGCHLD := ew_sigchld (sr_exec r)))))))"
  have d: "first_signals r (sg_disp (es_signals s)) d"
    unfolding d_def by (auto intro!: first_signals_taken first_signals_start)
  have full: "\<exists>out. (if rank = 0 then print_cleaned (sr_full r) else bindR (cleanupStackTrace (sr_full r)) (\<lambda>t. Inr [])) = Inr out"
    using assms cleanup_returns [of "sr_full r"] by (auto simp: completes_def returns_iff)
  have glob: "\<exists>out. testGlobalStack rank False (sr_global r) = Inr out" "\<exists>out. testGlobalStack rank True (sr_global_all r) = Inr out"
    using assms global_stack_returns(1) [of rank "sr_global r"] global_stack_returns(2) [of 1 "sr_global_all r"]
    by (simp_all add: completes_def testGlobalStack_def)
  have run: "TestStack_first os rank r s = Inr (ut7, replicate 7 Barrier, with_disp d s)"
    unfolding TestStack_first_def Let_def ids thr asked ut1_def [symmetric] prod.case 2(1)
    using full glob
    by (auto simp: case_prod_unfold decoded_current ut3_def ut4_def ut5_def ut6_def ut7_def d_def numeral_eq_Suc)
  have "adds 1 unit_test_new (exec_verdict 8 1000 (sr_exec r)) ut1" unfolding ut1_def by (rule adds_exec)
  note a = adds_trans [OF adds_trans [OF this 2(2)] adds_active [of ut2 rank active self t1 t2, folded ut3_def]]
  note b = adds_trans [OF adds_trans [OF a adds_current [of ut3 "sr_call_stack r", folded ut4_def]]
      adds_thread [of ut4 "sr_thread_stack r" "sr_long_enough r" "list_ex (names_function ''get_call_stack'') (sr_call_stack r)" os,
        folded ut5_def]]
  have c: "adds 1 ut5 (contains (sr_executable r) ''TestStack'') ut7"
    unfolding ut7_def ut6_def by (simp add: adds_def addMessage_def passes_def failure_def)
  show ?thesis
    by (intro exI conjI, rule run, rule d, rule adds_cong [OF adds_trans [OF b c]], simp, auto simp: ids)
qed

lemma adds_memory: "adds 1 ut (10000000 < bytes \<and> bytes < 100000000000000) (testSystemMemory bytes ut)"
  using adds_message [of ut "10000000 < bytes \<and> bytes < 100000000000000" False] by (simp add: testSystemMemory_def)

text \<open>The collective operations behind the test of the signals.\<close>

definition last_calls :: "OS \<Rightarrow> nat \<Rightarrow> 'tid stack_run \<Rightarrow> cstring \<Rightarrow> collective list" where
  "last_calls os rank r rootPath =
     (if rank = 0 then testStackFiles_calls (sr_files r) (stack_files r rootPath) else []) @ [Barrier] @ [Barrier, Barrier]
       @ (if os = Windows then [] else [Barrier])"

lemma adds_last:
  assumes "completes rank r" "es_stackType s = Global"
  shows "\<exists>ut' cache d. TestStack_last os rank r rootPath ut s
      = Inr (ut', last_calls os rank r rootPath, cache, with_disp d s)
    \<and> sigchld_only (if rank = 0 \<and> report_asks (sr_surroundings r)
        then (sg_disp (es_signals s))(get_thread_callstack_signal := CallstackHandler) else sg_disp (es_signals s)) d
    \<and> adds (6 + length (sr_argv r)) ut
        ((rank = 0 \<longrightarrow> list_all (\<lambda>name. sr_files r name \<noteq> None) (stack_files r rootPath))
         \<and> 10000000 < sr_bytes r \<and> sr_bytes r < 100000000000000
         \<and> (rank = 0 \<and> os \<noteq> Windows \<longrightarrow> ends_reported (sr_popen r) rootPath)) ut'"
proof -
  let ?names = "stack_files r rootPath"
  define ut1 where "ut1 = passes ''Caught exception'' ut"
  obtain ut2 out where 2: "(if rank = 0 then testStackFiles (sr_files r) ?names ut1 else Inr (ut1, [])) = Inr (ut2, out)"
    "adds (length ?names) ut1 (rank = 0 \<longrightarrow> list_all (\<lambda>name. sr_files r name \<noteq> None) ?names) ut2"
  proof (cases "rank = 0")
    case True
    with assms(1) have "\<forall>name buf. sr_files r name = Some buf \<longrightarrow> returns (testStackFile (Some buf) name unit_test_new)"
      by (simp add: completes_def)
    from adds_files [OF this, of ?names ut1] True that show thesis by auto
  next
    case False
    with that [of ut1 "[]"] show thesis by (simp add: adds_def)
  qed
  obtain out3 cache s3 where 3: "test_throw rank (sr_surroundings r) (sr_source r) (sr_clock r) s = Inr (out3, cache, s3)"
    using test_throw_returns [of rank "sr_surroundings r" "sr_source r" "sr_clock r" s] assms(1) by (auto simp: completes_def)
  let ?asked = "if rank = 0 \<and> report_asks (sr_surroundings r)
        then (sg_disp (es_signals s))(get_thread_callstack_signal := CallstackHandler) else sg_disp (es_signals s)"
  from test_throw_signals [OF 3 assms(2)] obtain d3 where d3: "s3 = with_disp d3 s" "sigchld_only ?asked d3" by blast
  define ut4 where "ut4 = testSystemMemory (sr_bytes r) ut2"
  have "\<forall>cmd out code echild. sr_popen r cmd = Some (out, code, echild) \<longrightarrow> NUL \<notin> set out"
    using assms(1) by (simp add: completes_def)
  from adds_terminate [OF this, of os rank rootPath "sg_disp (es_signals s3)" ut4] obtain ut5 d where
    5: "testTerminate os rank (sr_popen r) rootPath (sg_disp (es_signals s3)) ut4 = Inr (ut5, d)"
    "adds 4 ut4 (rank = 0 \<and> os \<noteq> Windows \<longrightarrow> ends_reported (sr_popen r) rootPath) ut5" by blast
  have "sigchld_only (sg_disp (es_signals s3)) d"
    using testTerminate_disposition [OF 5(1)] by (simp add: sigchld_only_def)
  with d3 have d: "sigchld_only ?asked d" by (auto intro: sigchld_only_trans simp: with_disp_def)
  have run: "TestStack_last os rank r rootPath ut s = Inr (ut5, last_calls os rank r rootPath, cache, with_disp d s)"
    unfolding TestStack_last_def Let_def ut1_def [symmetric] 2(1) last_calls_def
    using 3 5(1) d3(1) by (simp add: ut4_def with_disp_def)
  have len: "length ?names = Suc (length (tl (sr_argv r)))" by (simp add: stack_files_def)
  have "adds (length ?names) ut (rank = 0 \<longrightarrow> list_all (\<lambda>name. sr_files r name \<noteq> None) ?names) ut2"
    using 2(2) by (simp add: adds_def ut1_def passes_def)
  note all = adds_trans [OF adds_trans [OF this adds_memory [of ut2 "sr_bytes r", folded ut4_def]] 5(2)]
  show ?thesis
    by (intro exI conjI, rule run, rule d, rule adds_cong [OF all], simp add: len, auto)
qed

text \<open>What a rank has after its tests; \<open>s\<close> is its state in front of them.\<close>

definition tests_signals :: "nat \<Rightarrow> 'tid stack_run \<Rightarrow> signal_state \<Rightarrow> signal_state \<Rightarrow> bool" where
  "tests_signals rank r before after \<longleftrightarrow>
     (\<exists>d g. first_signals r (sg_disp before) d
        \<and> (if rank = 0
           then (\<forall>sig. sg_disp g sig = (if catchable sig then SIG_DFL else d sig)) \<and> (\<forall>sig. catchable sig \<longrightarrow> \<not> sg_set g ! nat sig)
           else g = before\<lparr>sg_disp := d\<rparr>)
        \<and> length (sg_set g) = 256 \<and> sg_set after = sg_set g
        \<and> sigchld_only (if rank = 0 \<and> report_asks (sr_surroundings r)
             then (sg_disp g)(get_thread_callstack_signal := CallstackHandler) else sg_disp g) (sg_disp after))"

lemma testSignal_clears:
  assumes "length (sg_set s) = 256"
  shows "\<exists>ut' s' gs' out. testSignal rank strsignal valgrind s (replicate 1024 0) ut = Inr (Some (ut', s', gs', out)) \<and> adds 0 ut True ut'
    \<and> length (sg_set s') = 256
    \<and> (if rank = 0 then (\<forall>sig. sg_disp s' sig = (if catchable sig then SIG_DFL else sg_disp s sig))
           \<and> (\<forall>sig. catchable sig \<longrightarrow> \<not> sg_set s' ! nat sig) else s' = s)"
proof (cases "rank = 0")
  case True
  from signals_delivered [OF assms, of "replicate 1024 0" strsignal valgrind ut] obtain s' gs' out where
    run: "testSignal 0 strsignal valgrind s (replicate 1024 0) ut = Inr (Some (passes ''Signals set/caught'' ut, s', gs', out))"
    "\<forall>sig. sg_disp s' sig = (if catchable sig then SIG_DFL else sg_disp s sig)" by auto
  then obtain s1 where s1: "setSignals allSignalsToCatch (UserHandler 0) s = Inr s1"
    by (auto simp: testSignal_def bindR_Inr_iff)
  moreover from this run(1) obtain y where "raise_all allSignalsToCatch (sg_disp s1) (replicate 1024 0) = Inr (Some y)"
    by (auto simp: testSignal_def bindR_Inr_iff split: option.splits)
  ultimately have "clearSignals_of allSignalsToCatch s1 = Inr s'"
    using run(1) by (cases "check_signals allSignalsToCatch y valgrind True ut")
      (auto simp: testSignal_def bindR_Inr_iff Let_def split: if_splits)
  then have table: "sg_set s' = set_after allSignalsToCatch False (sg_set s1)" by (auto simp: clearSignals_of_eq split: if_splits)
  have len: "length (sg_set s1) = 256" using s1 assms by (auto simp: setSignals_eq split: if_splits)
  have "\<not> sg_set s' ! nat sig" if c: "catchable sig" for sig
  proof -
    have "0 \<le> sig" "nat sig < 256" using catchable_range [OF c] by auto
    with len c show ?thesis by (simp add: table set_allSignals)
  qed
  moreover have "adds 0 ut True (passes ''Signals set/caught'' ut)" by (simp add: adds_def passes_def)
  ultimately show ?thesis using True run table len by auto
qed (use assms in \<open>simp add: testSignal_def adds_def\<close>)

definition tests_calls :: "OS \<Rightarrow> nat \<Rightarrow> 'tid stack_run \<Rightarrow> collective list" where
  "tests_calls os rank r =
     replicate 7 Barrier @ [Barrier, Barrier]
       @ (case root_path (hd (sr_argv r)) of Inl _ \<Rightarrow> [] | Inr rootPath \<Rightarrow> last_calls os rank r rootPath)"

lemma tests_found:
  assumes "completes rank r" "length (sg_set (es_signals s)) = 256" "es_stackType s = Global"
  shows "\<exists>ut cache g. TestStack_tests os rank r s = Inr (Some (ut, tests_calls os rank r, cache, s\<lparr>es_signals := g\<rparr>))
    \<and> tests_signals rank r (es_signals s) g
    \<and> adds (11 + length (sr_argv r)) unit_test_new (finds_right os rank r) ut"
proof -
  obtain rootPath where rp: "sr_argv r \<noteq> []" "root_path (hd (sr_argv r)) = Inr rootPath"
    using assms(1) by (auto simp: completes_def root_path_def)
  obtain ut1 d1 where 1: "TestStack_first os rank r s = Inr (ut1, replicate 7 Barrier, with_disp d1 s)"
    "first_signals r (sg_disp (es_signals s)) d1"
    "adds 5 unit_test_new
        (exec_verdict 8 1000 (sr_exec r)
         \<and> (case sr_type_ids r of (i, f, d, c) \<Rightarrow>
              getTypeName (sr_demangle r) i = Inr ''int'' \<and> getTypeName (sr_demangle r) f = Inr ''float''
              \<and> getTypeName (sr_demangle r) d = Inr ''double'' \<and> getTypeName (sr_demangle r) c = Inr ''std::complex<double>'')
         \<and> list_ex (names_function ''get_call_stack'') (sr_call_stack r)
         \<and> sr_thread_stack r \<noteq> [] \<and> (os \<noteq> Windows \<longrightarrow> list_ex (names_function ''sleep_ms'') (sr_thread_stack r) \<and> sr_long_enough r)
         \<and> contains (sr_executable r) ''TestStack'') ut1"
    using adds_first [OF assms(1), of os] by blast
  have "length (sg_set (es_signals (with_disp d1 s))) = 256" using assms(2) by (simp add: with_disp_def)
  from testSignal_clears [OF this, of rank "sr_strsignal r" "sr_valgrind r" ut1] obtain ut2 g gs out where
    2: "testSignal rank (sr_strsignal r) (sr_valgrind r) (es_signals (with_disp d1 s)) (replicate 1024 0) ut1
      = Inr (Some (ut2, g, gs, out))" "adds 0 ut1 True ut2" "length (sg_set g) = 256"
      "if rank = 0 then (\<forall>sig. sg_disp g sig = (if catchable sig then SIG_DFL else sg_disp (es_signals (with_disp d1 s)) sig))
           \<and> (\<forall>sig. catchable sig \<longrightarrow> \<not> sg_set g ! nat sig) else g = es_signals (with_disp d1 s)"
    by blast
  let ?s2 = "(with_disp d1 s)\<lparr>es_signals := g\<rparr>"
  have s2: "es_stackType ?s2 = Global" "es_signals ?s2 = g" using assms(3) by (simp_all add: with_disp_def)
  from adds_last [OF assms(1) s2(1), of os rootPath ut2, unfolded s2(2)] obtain ut3 cache d3 where 3:
    "TestStack_last os rank r rootPath ut2 ?s2 = Inr (ut3, last_calls os rank r rootPath, cache, with_disp d3 ?s2)"
    "sigchld_only (if rank = 0 \<and> report_asks (sr_surroundings r)
        then (sg_disp g)(get_thread_callstack_signal := CallstackHandler) else sg_disp g) d3"
    "adds (6 + length (sr_argv r)) ut2
        ((rank = 0 \<longrightarrow> list_all (\<lambda>name. sr_files r name \<noteq> None) (stack_files r rootPath))
         \<and> 10000000 < sr_bytes r \<and> sr_bytes r < 100000000000000
         \<and> (rank = 0 \<and> os \<noteq> Windows \<longrightarrow> ends_reported (sr_popen r) rootPath)) ut3"
    by blast
  let ?g3 = "g\<lparr>sg_disp := d3\<rparr>"
  have state: "with_disp d3 ?s2 = s\<lparr>es_signals := ?g3\<rparr>" by (simp add: with_disp_def)
  have run: "TestStack_tests os rank r s = Inr (Some (ut3, tests_calls os rank r, cache, s\<lparr>es_signals := ?g3\<rparr>))"
    unfolding TestStack_tests_def rp(2) tests_calls_def state [symmetric] using rp(1) by (simp add: 1(1) 2(1) 3(1))
  have sig: "tests_signals rank r (es_signals s) ?g3"
    unfolding tests_signals_def
    by (intro exI [of _ d1] exI [of _ g]) (use 1(2) 2(3,4) 3(2) in \<open>auto simp: with_disp_def\<close>)
  have missing: "file_missing r \<longleftrightarrow> \<not> list_all (\<lambda>name. sr_files r name \<noteq> None) (stack_files r rootPath)"
    by (simp add: file_missing_def rp(2) list_ex_iff list_all_iff)
  note all = adds_trans [OF adds_trans [OF 1(3) 2(2)] 3(3)]
  show ?thesis
  proof (intro exI conjI, rule run, rule sig, rule adds_cong [OF all])
    show "5 + 0 + (6 + length (sr_argv r)) \<le> 11 + length (sr_argv r)" by simp
  qed (unfold finds_right_def missing rp(2), auto)
qed

lemma monitor_starts: "\<exists>g. globalCallStackInitialize running multiple n monitor_state0 = Some g
  \<and> gm_comm g = (running \<and> multiple \<and> n \<noteq> 1)"
  by (simp add: globalCallStackInitialize_def monitor_state0_def Let_def)

text \<open>All collective operations of a rank.\<close>

definition rank_calls :: "OS \<Rightarrow> nat \<Rightarrow> nat \<Rightarrow> nat \<Rightarrow> 'tid stack_run \<Rightarrow> collective list" where
  "rank_calls os procs N_threads rank r =
     [InitThread] @ globalCallStackInitialize_calls True (sr_multiple r) N_threads
       @ tests_calls os rank r @ [Allreduce] @ print_calls procs
       @ (if sr_multiple r \<and> N_threads \<noteq> 1 then [CommFree] else []) @ [Barrier, FinalizeMPI]"

text \<open>
  What a rank leaves behind when it comes to its end. Its signals have their default actions, but for two: on rank 0 the
  handler of the stack requests is still installed when the report of \<open>test_throw\<close> has asked other threads, and \<open>SIGCHLD\<close>
  may be ignored. The handler of \<open>std::terminate\<close> stays installed. The monitor thread and its communicator are gone, MPI has its own
  error handlers again and is shut down, and no symbols are kept.
\<close>

definition left_behind :: "nat \<Rightarrow> 'tid stack_run \<Rightarrow> rank_end \<Rightarrow> bool" where
  "left_behind rank r e \<longleftrightarrow>
     (\<forall>sig. sig \<noteq> SIGCHLD \<longrightarrow> sg_disp (es_signals (re_errors e)) sig =
        (if rank = 0 \<and> report_asks (sr_surroundings r) \<and> sig = get_thread_callstack_signal then CallstackHandler else SIG_DFL))
     \<and> sg_disp (es_signals (re_errors e)) SIGCHLD \<in> {SIG_DFL, SIG_IGN}
     \<and> es_terminate (re_errors e) = TermFunc
     \<and> \<not> gm_thread (re_monitor e) \<and> \<not> gm_comm (re_monitor e)
     \<and> es_mpi_handler (re_errors e) MPI_COMM_WORLD = MPI_ERRORS_ARE_FATAL
     \<and> es_mpi_handler (re_errors e) MPI_COMM_SELF = MPI_ERRORS_ARE_FATAL
     \<and> \<not> es_mpi_running (re_errors e) \<and> \<not> sc_loaded (re_symbols e)"

lemma signals_at_end:
  assumes "tests_signals rank r before after" "handlers_known before" "sg_disp before = disp_after signals TerminateHandler (\<lambda>_. SIG_DFL)"
    "get_thread_callstack_signal \<in> set signals" "ew_sigchld (sr_exec r) \<in> {SIG_DFL, SIG_IGN}"
  shows "(\<forall>sig. sig \<noteq> SIGCHLD \<longrightarrow> sg_disp (clearSignals after) sig =
        (if rank = 0 \<and> report_asks (sr_surroundings r) \<and> sig = get_thread_callstack_signal then CallstackHandler else SIG_DFL))
     \<and> sg_disp (clearSignals after) SIGCHLD \<in> {SIG_DFL, SIG_IGN}"
proof -
  from assms(1) obtain d g where d: "first_signals r (sg_disp before) d"
    and g: "if rank = 0
           then (\<forall>sig. sg_disp g sig = (if catchable sig then SIG_DFL else d sig)) \<and> (\<forall>sig. catchable sig \<longrightarrow> \<not> sg_set g ! nat sig)
           else g = before\<lparr>sg_disp := d\<rparr>"
    and after: "length (sg_set g) = 256" "sg_set after = sg_set g"
      "sigchld_only (if rank = 0 \<and> report_asks (sr_surroundings r)
             then (sg_disp g)(get_thread_callstack_signal := CallstackHandler) else sg_disp g) (sg_disp after)"
    unfolding tests_signals_def by blast
  have clear: "sg_disp (clearSignals after) sig = (if catchable sig \<and> sg_set g ! nat sig then SIG_DFL else sg_disp after sig)" for sig
    using after(1,2) catchable_range [of sig] by (auto simp: clearSignals_spec)
  have d0: "d sig = (if sig \<in> set signals \<and> catchable sig then TerminateHandler else SIG_DFL)"
    if "sig \<noteq> SIGCHLD" "sig \<noteq> get_thread_callstack_signal" for sig
    using d that assms(3) by (simp add: first_signals_def disp_after_def)
  have after_sig: "sg_disp after sig = (if rank = 0 \<and> report_asks (sr_surroundings r) \<and> sig = get_thread_callstack_signal
      then CallstackHandler else sg_disp g sig)" if "sig \<noteq> SIGCHLD" for sig
    using after(3) that by (auto simp: sigchld_only_def)
  have chld: "sg_disp after SIGCHLD \<in> {SIG_IGN, sg_disp g SIGCHLD}"
    using after(3) not_sigchld by (cases "rank = 0 \<and> report_asks (sr_surroundings r)") (auto simp: sigchld_only_def)
  have d_chld: "d SIGCHLD \<in> {SIG_IGN, SIG_DFL}" using d assms(5) by (auto simp: first_signals_def)
  show ?thesis
  proof (cases "rank = 0")
    case True
    with g have g: "\<And>sig. sg_disp g sig = (if catchable sig then SIG_DFL else d sig)" "\<And>sig. catchable sig \<Longrightarrow> \<not> sg_set g ! nat sig"
      by simp_all
    have "d sig = SIG_DFL" if "\<not> catchable sig" "sig \<noteq> SIGCHLD" for sig
      using d0 [of sig] that callstack_signal(2) by auto
    then show ?thesis using True after_sig chld callstack_signal(2) d_chld by (auto simp: clear g SIGCHLD_catchable)
  next
    case False
    with g have g: "g = before\<lparr>sg_disp := d\<rparr>" by simp
    have table: "sg_set before ! nat sig" if "sig \<in> set signals" "catchable sig" for sig
      using assms(2,3) that by (auto simp: handlers_known_def disp_after_def)
    have "sg_disp (clearSignals after) sig = SIG_DFL" if "sig \<noteq> SIGCHLD" for sig
    proof (cases "sig = get_thread_callstack_signal")
      case True
      with table [OF assms(4) callstack_signal(2)] show ?thesis by (simp add: clear g callstack_signal(2))
    next
      case other: False
      with that table [of sig] False show ?thesis by (auto simp: clear after_sig g d0)
    qed
    moreover have "sg_disp (clearSignals after) SIGCHLD \<in> {SIG_DFL, SIG_IGN}"
      using chld d_chld by (auto simp: clear g)
    ultimately show ?thesis using False by simp
  qed
qed

lemma rank_found:
  assumes "completes rank r" "ew_sigchld (sr_exec r) \<in> {SIG_DFL, SIG_IGN}"
  shows "\<exists>e. TestStack_rank os procs N_threads rank r (error_state0 (\<lambda>_. SIG_DFL) False) = Inr (Some e)
    \<and> adds (11 + length (sr_argv r)) unit_test_new (finds_right os rank r) (re_results e)
    \<and> re_calls e = rank_calls os procs N_threads rank r \<and> left_behind rank r e"
proof -
  have start: "startup (error_state0 (\<lambda>_. SIG_DFL) False) = error_state0 (\<lambda>_. SIG_DFL) True"
    by (simp add: startup_def MPI_Initialized_def error_state0_def)
  from setErrorHandlers_initial [of True 3 True] obtain s1 where
    s1: "setErrorHandlers NoFunction (setAbortBehavior True 3 (error_state0 (\<lambda>_. SIG_DFL) True)) = Inr s1"
      "error_reachable (\<lambda>_. SIG_DFL) True s1" "es_terminate s1 = TermFunc" "es_stackType s1 = printStackType_of_int 3"
      "sg_disp (es_signals s1) = disp_after defaultSignalsToCatch TerminateHandler (\<lambda>_. SIG_DFL)" by blast
  have known: "handlers_known (es_signals s1)"
    using error_reachable_inv [OF s1(2)] by (simp add: error_inv_def)
  then have len: "length (sg_set (es_signals s1)) = 256" by (simp add: handlers_known_def)
  have mpi: "es_mpi_running s1"
    using s1(1) by (auto simp: setErrorHandlers_def setErrorHandler_def bindR_Inr_iff Let_def setAbortBehavior_def
        setDefaultStackType_def error_state0_def setMPIErrorHandler_def split: if_splits)
  have "es_stackType s1 = Global" by (simp add: s1(4) printStackType_of_int_def)
  from tests_found [OF assms(1) len this, of os] obtain ut cache g where
    2: "TestStack_tests os rank r s1 = Inr (Some (ut, tests_calls os rank r, cache, s1\<lparr>es_signals := g\<rparr>))"
    "tests_signals rank r (es_signals s1) g"
    "adds (11 + length (sr_argv r)) unit_test_new (finds_right os rank r) ut" by blast
  obtain m where m: "globalCallStackInitialize True (sr_multiple r) N_threads monitor_state0 = Some m"
    "gm_comm m = (sr_multiple r \<and> N_threads \<noteq> 1)" using monitor_starts [of True "sr_multiple r" N_threads] by auto
  let ?s4 = "clearErrorHandlers (s1\<lparr>es_signals := g\<rparr>)"
  let ?e = "\<lparr>re_results = ut, re_errors = shutdown (?s4\<lparr>es_signals := clearSignals (es_signals ?s4)\<rparr>),
    re_monitor = globalCallStackFinalize m, re_symbols = clearSymbols cache, re_calls = rank_calls os procs N_threads rank r\<rparr>"
  have run: "TestStack_rank os procs N_threads rank r (error_state0 (\<lambda>_. SIG_DFL) False) = Inr (Some ?e)"
    unfolding TestStack_rank_def start by (simp add: s1(1) mpi m 2(1) Let_def rank_calls_def)
  have "get_thread_callstack_signal \<in> set defaultSignalsToCatch"
    by (simp add: callstack_signal(1) defaultSignalsToCatch_def erase_value_def set_allSignals catchable_def signal_numbers)
  from signals_at_end [OF 2(2) known s1(5) this assms(2)] have "left_behind rank r ?e"
    unfolding left_behind_def
    by (simp add: shutdown_def MPI_Initialized_def clearErrorHandlers_keeps_signals globalCallStackFinalize_def Let_def s1(3) mpi
        clearErrorHandlers_def clearMPIErrorHandler_def clearSymbols_def)
  with run 2(3) show ?thesis by (intro exI [of _ ?e]) simp
qed

section \<open>The program\<close>

lemma ranks_found:
  assumes "\<forall>i < length runs. completes (rank + i) (runs ! i) \<and> ew_sigchld (sr_exec (runs ! i)) \<in> {SIG_DFL, SIG_IGN}"
  shows "\<exists>ends. TestStack_ranks os procs N_threads (error_state0 (\<lambda>_. SIG_DFL) False) rank runs = Inr (Some ends)
    \<and> length ends = length runs
    \<and> (\<forall>i < length runs. adds (11 + length (sr_argv (runs ! i))) unit_test_new (finds_right os (rank + i) (runs ! i)) (re_results (ends ! i))
         \<and> re_calls (ends ! i) = rank_calls os procs N_threads (rank + i) (runs ! i) \<and> left_behind (rank + i) (runs ! i) (ends ! i))"
  using assms
proof (induction runs arbitrary: rank)
  case (Cons r runs)
  let ?s0 = "error_state0 (\<lambda>_. SIG_DFL) False"
  let ?Q = "\<lambda>rank r e. adds (11 + length (sr_argv r)) unit_test_new (finds_right os rank r) (re_results e)
         \<and> re_calls e = rank_calls os procs N_threads rank r \<and> left_behind rank r e"
  have r: "completes rank r" "ew_sigchld (sr_exec r) \<in> {SIG_DFL, SIG_IGN}" using Cons.prems [rule_format, of 0] by simp_all
  from rank_found [OF r, of os procs N_threads] obtain e where
    e: "TestStack_rank os procs N_threads rank r ?s0 = Inr (Some e)" "?Q rank r e" by blast
  have "\<forall>i < length runs. completes (Suc rank + i) (runs ! i) \<and> ew_sigchld (sr_exec (runs ! i)) \<in> {SIG_DFL, SIG_IGN}"
    using Cons.prems by (auto dest: spec [of _ "Suc _"])
  from Cons.IH [OF this] obtain ends where ends: "TestStack_ranks os procs N_threads ?s0 (Suc rank) runs = Inr (Some ends)"
    "length ends = length runs" "\<forall>i < length runs. ?Q (Suc rank + i) (runs ! i) (ends ! i)" by blast
  have "?Q (rank + i) ((r # runs) ! i) ((e # ends) ! i)" if "i < length (r # runs)" for i
    using that e(2) ends(3) by (cases i) auto
  with e(1) ends(1,2) show ?case by (intro exI [of _ "e # ends"]) simp
qed simp

text \<open>Whether a rank is out of step with rank 0: its MPI supports other threads, or rank 0 cannot open a file.\<close>

lemma missing_calls: "testStackFiles_calls contents names = [] \<longleftrightarrow> \<not> list_ex (\<lambda>name. contents name = None) names"
  by (induction names) simp_all

lemma rank_calls_same:
  assumes "completes 0 r0" "completes (Suc i) r" "N_threads = N"
  shows "rank_calls os procs N (Suc i) r = rank_calls os procs N 0 r0 \<longleftrightarrow> sr_multiple r = sr_multiple r0 \<and> \<not> file_missing r0"
proof -
  obtain rootPath where rp0: "root_path (hd (sr_argv r0)) = Inr rootPath"
    using assms(1) by (auto simp: completes_def root_path_def)
  obtain rootPath' where rp: "root_path (hd (sr_argv r)) = Inr rootPath'"
    using assms(2) by (auto simp: completes_def root_path_def)
  have missing: "file_missing r0 \<longleftrightarrow> testStackFiles_calls (sr_files r0) (stack_files r0 rootPath) \<noteq> []"
    by (simp add: file_missing_def rp0 missing_calls)
  show ?thesis
  proof (cases "sr_multiple r = sr_multiple r0")
    case True
    then show ?thesis unfolding missing by (simp add: rank_calls_def tests_calls_def rp rp0 last_calls_def)
  next
    case False
    then show ?thesis
      by (auto simp: rank_calls_def tests_calls_def globalCallStackInitialize_calls_def numeral_eq_Suc)
  qed
qed

text \<open>
  Property C23: the verdict of \<open>TestStack\<close>, for ranks that each come to their end. The collective operations of the ranks match
  exactly when the same threads are supported on all of them and rank 0 can open its files: otherwise the program does not come to its
  end, because \<open>globalCallStackInitialize\<close> broadcasts on some ranks only, or because rank 0 calls one more \<open>barrier\<close> than the
  others for every file that it cannot open. When they match, the exit code is 0 exactly when every rank
  finds what it has to find, and then the last line says so. Every rank ends without the terminate handler on any signal, without monitor, MPI error
  handlers and symbols; but the handler of \<open>std::terminate\<close> stays, and the handler of the stack requests stays on rank 0 when the report
  of \<open>test_throw\<close> has asked other threads.
\<close>

theorem TestStack_verdict:
  assumes "runs \<noteq> []"
    "\<forall>i < length runs. completes i (runs ! i) \<and> ew_sigchld (sr_exec (runs ! i)) \<in> {SIG_DFL, SIG_IGN}"
    "sum_list (map (\<lambda>r. 11 + length (sr_argv r)) runs) < 4294967296"
  shows "if \<exists>r \<in> set (tl runs). sr_multiple r \<noteq> sr_multiple (hd runs) \<or> file_missing (hd runs)
    then TestStack_main os runs (error_state0 (\<lambda>_. SIG_DFL) False) = Inr None
    else \<exists>code out ends. TestStack_main os runs (error_state0 (\<lambda>_. SIG_DFL) False) = Inr (Some (code, out, ends))
      \<and> (code = 0 \<longleftrightarrow> (\<forall>i < length runs. finds_right os i (runs ! i)))
      \<and> (code = 0 \<longrightarrow> last out = ''All tests passed'')
      \<and> length ends = length runs \<and> (\<forall>i < length runs. left_behind i (runs ! i) (ends ! i))"
proof -
  let ?k = "\<lambda>r. 11 + length (sr_argv r)"
  let ?N = "sr_registered (hd runs)"
  have "\<forall>i < length runs. completes (0 + i) (runs ! i) \<and> ew_sigchld (sr_exec (runs ! i)) \<in> {SIG_DFL, SIG_IGN}"
    using assms(2) by simp
  from ranks_found [OF this, of os "length runs" ?N] obtain ends where
    ends: "TestStack_ranks os (length runs) ?N (error_state0 (\<lambda>_. SIG_DFL) False) 0 runs = Inr (Some ends)" "length ends = length runs"
    "\<forall>i < length runs. adds (?k (runs ! i)) unit_test_new (finds_right os i (runs ! i)) (re_results (ends ! i))
       \<and> re_calls (ends ! i) = rank_calls os (length runs) ?N i (runs ! i) \<and> left_behind i (runs ! i) (ends ! i)"
    by auto
  let ?uts = "map re_results ends"
  have each: "length (ut_failure (re_results (ends ! i))) \<le> ?k (runs ! i)"
    "ut_failure (re_results (ends ! i)) = [] \<longleftrightarrow> finds_right os i (runs ! i)" if "i < length runs" for i
    using ends(3) that by (auto simp: adds_def unit_test_new_def)
  have "sum_list (map (\<lambda>ut. length (ut_failure ut)) ?uts) \<le> sum_list (map ?k runs)"
    using each(1) ends(2) by (auto simp: sum_list_sum_nth simp del: sum.distrib intro!: sum_mono)
  with assms(3) have "N_failed_ranks ?uts = 0 \<longleftrightarrow> (\<forall>ut \<in> set ?uts. ut_failure ut = [])"
    by (intro N_failed_ranks_zero) simp
  also have "\<dots> \<longleftrightarrow> (\<forall>i < length runs. finds_right os i (runs ! i))"
    using each(2) ends(2) by (auto simp: all_set_conv_all_nth)
  finally have code: "N_failed_ranks ?uts = 0 \<longleftrightarrow> (\<forall>i < length runs. finds_right os i (runs ! i))" .
  obtain r0 rs where runs: "runs = r0 # rs" using assms(1) by (cases runs) auto
  with ends(2) obtain e0 es where es: "ends = e0 # es" by (cases ends) auto
  have calls: "re_calls (es ! i) = re_calls e0 \<longleftrightarrow> sr_multiple (rs ! i) = sr_multiple r0 \<and> \<not> file_missing r0" if "i < length rs" for i
    using ends(3) [rule_format, of 0] ends(3) [rule_format, of "Suc i"] assms(2) [rule_format, of 0] assms(2) [rule_format, of "Suc i"]
      that rank_calls_same [of r0 i "rs ! i" _ ?N os "length runs"]
    by (simp add: runs es)
  have "in_step (map re_calls ends) \<longleftrightarrow> (\<forall>i < length rs. re_calls (es ! i) = re_calls e0)"
    using ends(2) by (simp add: es in_step_same runs all_set_conv_all_nth)
  also have "\<dots> \<longleftrightarrow> (\<forall>r \<in> set rs. sr_multiple r = sr_multiple r0 \<and> \<not> file_missing r0)"
    unfolding all_set_conv_all_nth using calls by simp
  finally have step: "in_step (map re_calls ends) \<longleftrightarrow> \<not> (\<exists>r \<in> set (tl runs). sr_multiple r \<noteq> sr_multiple (hd runs) \<or> file_missing (hd runs))"
    by (auto simp: runs)
  show ?thesis
  proof (cases "in_step (map re_calls ends)")
    case True
    with step have s: "\<not> (\<exists>r \<in> set (tl runs). sr_multiple r \<noteq> sr_multiple (hd runs) \<or> file_missing (hd runs))" by simp
    show ?thesis unfolding if_not_P [OF s] TestStack_main_def ends(1) using ends(2,3) code True by (simp add: Let_def)
  next
    case False
    with step have s: "\<exists>r \<in> set (tl runs). sr_multiple r \<noteq> sr_multiple (hd runs) \<or> file_missing (hd runs)" by blast
    show ?thesis unfolding if_P [OF s] TestStack_main_def ends(1) using False by simp
  qed
qed

text \<open>Two ranks on which all is well, and the same with a file that is missing.\<close>

definition good_stack_run :: "(cstring \<Rightarrow> cstring option) \<Rightarrow> nat stack_run" where
  "good_stack_run contents =
     \<lparr>sr_argv = [''./TestStack''],
      sr_exec = \<lparr>ew_sigchld = SIG_DFL, ew_pass = True, ew_count = 8000, ew_threads = []\<rparr>,
      sr_demangle = Some, sr_type_ids = (''int'', ''float'', ''double'', ''std::complex<double>''),
      sr_threads = ([1, 2, 3], 1, 2, 3),
      sr_call_stack = [stack_info_clear\<lparr>si_function := ''get_call_stack()''\<rparr>],
      sr_thread_stack = [stack_info_clear\<lparr>si_function := ''sleep_ms(int)''\<rparr>], sr_long_enough = True,
      sr_full = ms_empty_tree, sr_global = ms_empty_tree, sr_global_all = ms_empty_tree, sr_symbols = 7,
      sr_executable = ''./TestStack'', sr_strsignal = (\<lambda>_. Some ''name''), sr_valgrind = False,
      sr_files = contents, sr_bytes = 16000000000,
      sr_popen = (\<lambda>_. Some (''Unhandled signal (6) caught, Program abort called in file, Unhandled exception caught, ''
        @ ''Unhandled signal (11) caught'', 134, False)),
      sr_multiple = True, sr_registered = 3, sr_asked = (1, [0, 1], [0, 1], [0, 1]), sr_commands = True,
      sr_surroundings = \<lparr>su_platform = bare_platform, su_backtrace = (\<lambda>tid buffer. (0, buffer)), su_threads = [], su_self = 0,
        su_remote = ms_empty_tree, su_symbols = \<lparr>sc_loaded = False, sc_data = []\<rparr>, su_bytes = 0, su_trace = []\<rparr>,
      sr_source = (''TestStack.cpp'', 472), sr_clock = (0, 50000, 900000)\<rparr>"

lemma empty_tree_printed: "returns (print_cleaned ms_empty_tree)"
  by (simp add: print_cleaned_def ms_empty_tree_def cleanupStackTrace_def ms_print_def stack_info_clear_def)

lemma empty_file_read: "returns (testStackFile (Some []) name unit_test_new)"
  by (simp add: testStackFile_def generateFromString_def generateFromLines_def split_lines.simps cstr_def parse_entry_def
      cleanupStackTrace_def ms_print_def stack_info_clear_def)

lemma good_names:
  "getTypeName Some ''int'' = Inr ''int''" "getTypeName Some ''float'' = Inr ''float''"
  "getTypeName Some ''double'' = Inr ''double''" "getTypeName Some ''std::complex<double>'' = Inr ''std::complex<double>''"
  by (simp_all add: getTypeName_returns subst_all_none)

lemma good_root: "rfind ''TestStack'' ''./TestStack'' = Some 2" 
  by simp

lemma good_report: "ae_stack err = [] \<Longrightarrow> returns (report (sr_surroundings (good_stack_run contents)) err s)"
  by (simp add: report_def what_report_def what_def what_stack_def)

lemma good_completes:
  assumes "\<forall>name buf. contents name = Some buf \<longrightarrow> buf = []"
  shows "completes rank (good_stack_run contents)"
proof -
  have "returns (testStackFile (Some buf) name unit_test_new)" if "contents name = Some buf" for name buf
    using assms that empty_file_read by blast
  then show ?thesis
    using good_report empty_tree_printed good_root by (simp add: completes_def good_stack_run_def)
qed

lemma good_terminate: "ends_reported (sr_popen (good_stack_run contents)) rootPath"
  by (simp add: ends_reported_def shell_output_def good_stack_run_def contains_def)

lemma good_finds:
  assumes "contents ''./ExampleStack.txt'' = Some []"
  shows "finds_right Linux rank (good_stack_run contents)"
proof -
  have "root_path (hd (sr_argv (good_stack_run contents))) = Inr ''./''" by (simp add: good_stack_run_def root_path_def)
  then have "\<not> file_missing (good_stack_run contents)"
    using assms by (simp add: file_missing_def stack_files_def) (simp add: good_stack_run_def)
  moreover have "list_ex (names_function ''get_call_stack'') (sr_call_stack (good_stack_run contents))"
    "list_ex (names_function ''sleep_ms'') (sr_thread_stack (good_stack_run contents))"
    by (simp_all add: good_stack_run_def names_function_def cstr_def)
  moreover have "contains (sr_executable (good_stack_run contents)) ''TestStack''" by (simp add: good_stack_run_def contains_def)
  ultimately show ?thesis
    using good_terminate good_names unfolding finds_right_def by (simp add: good_stack_run_def exec_verdict_def)
qed

theorem TestStack_verdict_witness:
  "(\<exists>out ends. TestStack_main Linux [good_stack_run (\<lambda>_. Some []), good_stack_run (\<lambda>_. None)] (error_state0 (\<lambda>_. SIG_DFL) False)
      = Inr (Some (0, out, ends)) \<and> last out = ''All tests passed'' \<and> length ends = 2)
   \<and> TestStack_main Linux [good_stack_run (\<lambda>_. None), good_stack_run (\<lambda>_. None)] (error_state0 (\<lambda>_. SIG_DFL) False) = Inr None"
proof -
  let ?runs = "\<lambda>c. [good_stack_run c, good_stack_run (\<lambda>_. None)]"
  have ok: "?runs c \<noteq> []" "\<forall>i < length (?runs c). completes i (?runs c ! i) \<and> ew_sigchld (sr_exec (?runs c ! i)) \<in> {SIG_DFL, SIG_IGN}"
    "sum_list (map (\<lambda>r. 11 + length (sr_argv r)) (?runs c)) < 4294967296"
    if "\<forall>name buf. c name = Some buf \<longrightarrow> buf = []" for c
    using good_completes [of c] good_completes [of "\<lambda>_. None"] that
    by (auto simp: less_Suc_eq numeral_2_eq_2 good_stack_run_def nth_Cons')
  have none: "\<forall>name buf. c name = Some buf \<longrightarrow> buf = []" if "c \<in> {\<lambda>_. Some [], \<lambda>_. None}" for c :: "cstring \<Rightarrow> cstring option"
    using that by auto
  have multiple: "sr_multiple (good_stack_run c)" for c by (simp add: good_stack_run_def)
  have verdict: "if file_missing (good_stack_run c) then TestStack_main Linux (?runs c) (error_state0 (\<lambda>_. SIG_DFL) False) = Inr None
      else \<exists>code out ends. TestStack_main Linux (?runs c) (error_state0 (\<lambda>_. SIG_DFL) False) = Inr (Some (code, out, ends))
        \<and> (code = 0 \<longleftrightarrow> (\<forall>i < length (?runs c). finds_right Linux i (?runs c ! i)))
        \<and> (code = 0 \<longrightarrow> last out = ''All tests passed'') \<and> length ends = length (?runs c)"
    if c: "c \<in> {\<lambda>_. Some [], \<lambda>_. None}" for c
    using TestStack_verdict [OF ok(1) ok(2) ok(3), OF none none none, OF c c c, of Linux] by (auto simp: multiple split: if_splits)
  have rp: "root_path (hd (sr_argv (good_stack_run c))) = Inr ''./''" for c by (simp add: good_stack_run_def root_path_def)
  have files: "sr_files (good_stack_run c) = c" for c by (simp add: good_stack_run_def)
  have missing: "file_missing (good_stack_run (\<lambda>_. None))" "\<not> file_missing (good_stack_run (\<lambda>_. Some []))"
    by (auto simp: file_missing_def stack_files_def rp files list_ex_iff)
  have right: "finds_right Linux 0 (good_stack_run (\<lambda>_. Some []))" "finds_right Linux 1 (good_stack_run (\<lambda>_. None))"
    using good_finds [of "\<lambda>_. Some []" 0] good_finds [of "\<lambda>_. Some []" 1] by (simp_all add: finds_right_def good_stack_run_def)
  have "\<forall>i < length (?runs (\<lambda>_. Some [])). finds_right Linux i (?runs (\<lambda>_. Some []) ! i)"
    using right by (auto simp: less_Suc_eq nth_Cons')
  with verdict [of "\<lambda>_. Some []"] verdict [of "\<lambda>_. None"] missing show ?thesis by auto
qed

end
