(* ===== verification/Signal_Sharing.thy ===== *)
theory Signal_Sharing
  imports Backtrace Threads Signals
begin

text \<open>
  \<open>activeThreads\<close> (\<open>StackTraceThreads.cpp\<close>) and \<open>backtrace_thread\<close> (\<open>StackTrace.cpp\<close>) use the same signal. Each installs its
  own handler for it under a mutex \<open>StackTrace_mutex\<close>, which is a static variable of its file: the two calls do
  not exclude each other. The machine interleaves a caller of each with the delivery of the signals; its parameter \<open>common\<close> is
  true when the two files share one mutex.
\<close>

section \<open>The state\<close>

text \<open>
  Where \<open>activeThreads\<close> is: the disposition it has saved, the thread it asks, and the threads it has still to ask. A thread is
  named by its handle, which is what it answers.
\<close>

datatype active_phase =
    Idle
  | Holding "64 word list"
  | Asking disposition "64 word list"
  | Prepared disposition "64 word" "64 word list"
  | AwaitingId disposition "64 word" "64 word list"
  | GotId disposition "64 word" "64 word list"
  | Restored

text \<open>
  \<open>sh_hs\<close> is the machine of \<open>backtrace_thread\<close>, whose list of pending signals both callers share. \<open>sh_handle\<close> and
  \<open>sh_finished\<close> are the globals \<open>thread_handle\<close> and \<open>thread_id_finished\<close>; \<open>sh_threads\<close> records whom \<open>activeThreads\<close> has asked and the
  handle it has found. A signal that is delivered while its action is the default, or while the library treats it as an error, ends the
  process.
\<close>

record sharing =
  sh_disp :: disposition
  sh_hs :: handshake
  sh_phase :: active_phase
  sh_handle :: "64 word"
  sh_finished :: bool
  sh_threads :: "(64 word \<times> 64 word) list"
  sh_timeouts :: nat
  sh_alive :: bool

definition sharing_init :: "disposition \<Rightarrow> sharing" where
  "sharing_init d =
     \<lparr>sh_disp = d, sh_hs = hs_init, sh_phase = Idle, sh_handle = 0, sh_finished = False, sh_threads = [],
      sh_timeouts = 0, sh_alive = True\<rparr>"

section \<open>The steps\<close>

text \<open>The steps of \<open>activeThreads\<close>, those of \<open>backtrace_thread\<close> and of its handler, and the delivery of a signal.\<close>

datatype sharing_action =
    Begin "64 word list"
  | Install
  | Prepare
  | Ask
  | IdArrived
  | IdTimeOut
  | TakeId
  | Restore
  | Finish
  | Caller hs_action
  | Signalled "64 word"

text \<open>The caller is \<open>thread0\<close>; \<open>thread_handle\<close> is set to it before a thread is asked.\<close>

fun active_step :: "64 word \<Rightarrow> sharing_action \<Rightarrow> sharing \<Rightarrow> sharing option" where
  "active_step thread0 Install s =
     (case sh_phase s of
        Holding tid \<Rightarrow> Some (s\<lparr>sh_phase := Asking (sh_disp s) tid, sh_disp := ActiveThreadsHandler\<rparr>)
      | _ \<Rightarrow> None)"
| "active_step thread0 Prepare s =
     (case sh_phase s of
        Asking old (t # tid) \<Rightarrow> Some (s\<lparr>sh_phase := Prepared old t tid, sh_finished := False, sh_handle := thread0\<rparr>)
      | _ \<Rightarrow> None)"
| "active_step thread0 Ask s =
     (case sh_phase s of
        Prepared old t tid \<Rightarrow>
          Some (s\<lparr>sh_phase := AwaitingId old t tid, sh_hs := (sh_hs s)\<lparr>hs_pending := hs_pending (sh_hs s) @ [t]\<rparr>\<rparr>)
      | _ \<Rightarrow> None)"
| "active_step thread0 IdArrived s =
     (case sh_phase s of
        AwaitingId old t tid \<Rightarrow> if sh_finished s then Some (s\<lparr>sh_phase := GotId old t tid\<rparr>) else None
      | _ \<Rightarrow> None)"
| "active_step thread0 IdTimeOut s =
     (case sh_phase s of
        AwaitingId old t tid \<Rightarrow>
          if \<not> sh_finished s then Some (s\<lparr>sh_phase := GotId old t tid, sh_timeouts := Suc (sh_timeouts s)\<rparr>) else None
      | _ \<Rightarrow> None)"
| "active_step thread0 TakeId s =
     (case sh_phase s of
        GotId old t tid \<Rightarrow>
          Some (s\<lparr>sh_phase := Asking old tid,
                 sh_threads := (if sh_handle s \<noteq> thread0 then sh_threads s @ [(t, sh_handle s)] else sh_threads s)\<rparr>)
      | _ \<Rightarrow> None)"
| "active_step thread0 Restore s =
     (case sh_phase s of Asking old [] \<Rightarrow> Some (s\<lparr>sh_phase := Restored, sh_disp := old\<rparr>) | _ \<Rightarrow> None)"
| "active_step thread0 Finish s = (if sh_phase s = Restored then Some (s\<lparr>sh_phase := Idle\<rparr>) else None)"
| "active_step thread0 _ s = None"

text \<open>What the handler does that is installed when a signal is delivered to thread \<open>t\<close>.\<close>

definition deliver_signal :: "64 word \<Rightarrow> sharing \<Rightarrow> sharing option" where
  "deliver_signal t s =
     (if t \<in> set (hs_pending (sh_hs s))
      then let taken = s\<lparr>sh_hs := (sh_hs s)\<lparr>hs_pending := remove1 t (hs_pending (sh_hs s))\<rparr>\<rparr>
           in case sh_disp s of
                CallstackHandler \<Rightarrow> map_option (\<lambda>hs. s\<lparr>sh_hs := hs\<rparr>) (hs_step (\<lambda>_. []) (Deliver t) (sh_hs s))
              | ActiveThreadsHandler \<Rightarrow> Some (taken\<lparr>sh_handle := t, sh_finished := True\<rparr>)
              | SIG_DFL \<Rightarrow> Some (taken\<lparr>sh_alive := False\<rparr>)
              | TerminateHandler \<Rightarrow> Some (taken\<lparr>sh_alive := False\<rparr>)
              | StackInfoHandler \<Rightarrow> Some (taken\<lparr>sh_alive := False\<rparr>)
              | _ \<Rightarrow> Some taken
      else None)"

text \<open>
  A step of \<open>backtrace_thread\<close> is one of its machine; arming it installs its handler, and the delivery of a signal is
  not one of them. With a common mutex a caller waits for the other one.
\<close>

definition caller_step :: "bool \<Rightarrow> (64 word \<Rightarrow> 64 word list) \<Rightarrow> hs_action \<Rightarrow> sharing \<Rightarrow> sharing option" where
  "caller_step common stack_of a s =
     (case a of
        Acquire tid \<Rightarrow>
          if common \<and> sh_phase s \<noteq> Idle then None
          else map_option (\<lambda>hs. s\<lparr>sh_hs := hs\<rparr>) (hs_step stack_of a (sh_hs s))
      | Arm \<Rightarrow> map_option (\<lambda>hs. s\<lparr>sh_hs := hs, sh_disp := CallstackHandler\<rparr>) (hs_step stack_of a (sh_hs s))
      | Deliver tid \<Rightarrow> None
      | _ \<Rightarrow> map_option (\<lambda>hs. s\<lparr>sh_hs := hs\<rparr>) (hs_step stack_of a (sh_hs s)))"

definition sharing_step :: "bool \<Rightarrow> (64 word \<Rightarrow> 64 word list) \<Rightarrow> 64 word \<Rightarrow> sharing_action \<Rightarrow> sharing \<Rightarrow> sharing option" where
  "sharing_step common stack_of thread0 a s =
     (if \<not> sh_alive s then None
      else case a of
             Begin tid \<Rightarrow>
               if sh_phase s = Idle \<and> \<not> (common \<and> hs_phase (sh_hs s) \<noteq> Unlocked) \<and> thread0 \<notin> set tid
               then Some (s\<lparr>sh_phase := Holding tid\<rparr>) else None
           | Caller b \<Rightarrow> caller_step common stack_of b s
           | Signalled t \<Rightarrow> deliver_signal t s
           | _ \<Rightarrow> active_step thread0 a s)"

fun sharing_run ::
    "bool \<Rightarrow> (64 word \<Rightarrow> 64 word list) \<Rightarrow> 64 word \<Rightarrow> sharing_action list \<Rightarrow> sharing \<Rightarrow> sharing option" where
  "sharing_run common stack_of thread0 [] s = Some s"
| "sharing_run common stack_of thread0 (a # as) s =
     Option.bind (sharing_step common stack_of thread0 a s) (sharing_run common stack_of thread0 as)"

text \<open>How often a caller has given up waiting.\<close>

definition gave_up :: "sharing \<Rightarrow> nat" where
  "gave_up s = sh_timeouts s + hs_timeouts (sh_hs s)"

section \<open>One caller alone\<close>

text \<open>
  The steps of \<open>activeThreads\<close> for the threads with the ids \<open>ks\<close>: those that respond do so in time, the others never. The
  handles it collects are those of \<open>ask_threads\<close>, the model of the same loop in \<open>Threads\<close>.
\<close>

definition ask_one :: "(int \<Rightarrow> bool) \<Rightarrow> (int \<Rightarrow> 64 word) \<Rightarrow> int \<Rightarrow> sharing_action list" where
  "ask_one responds handle k =
     (if responds k then [Prepare, Ask, Signalled (handle k), IdArrived, TakeId] else [Prepare, Ask, IdTimeOut, TakeId])"

lemma sharing_run_append:
  "sharing_run common f thread0 (as @ bs) s
    = Option.bind (sharing_run common f thread0 as s) (sharing_run common f thread0 bs)"
proof (induction "as" arbitrary: s)
  case (Cons a as)
  then show ?case by (cases "sharing_step common f thread0 a s") simp_all
qed simp

lemma ask_rounds:
  assumes "sh_phase s = Asking old (map handle ks)" "sh_alive s" "sh_disp s = ActiveThreadsHandler"
    "\<forall>k \<in> set ks. handle k \<noteq> thread0"
  shows "\<exists>s'. sharing_run common f thread0 (concat (map (ask_one responds handle) ks)) s = Some s'
    \<and> sh_phase s' = Asking old [] \<and> sh_alive s' \<and> sh_disp s' = ActiveThreadsHandler
    \<and> map snd (sh_threads s') = map snd (sh_threads s)
        @ ask_threads (\<lambda>k. if responds k then Some (handle k) else None) thread0 ks"
  using assms
proof (induction ks arbitrary: s)
  case (Cons k ks)
  let ?rest = "sharing_run common f thread0 (concat (map (ask_one responds handle) ks))"
  have "\<exists>s1. sharing_run common f thread0 (ask_one responds handle k) s = Some s1
    \<and> sh_phase s1 = Asking old (map handle ks) \<and> sh_alive s1 \<and> sh_disp s1 = ActiveThreadsHandler
    \<and> map snd (sh_threads s1) = map snd (sh_threads s) @ (if responds k then [handle k] else [])"
    using Cons.prems by (simp add: ask_one_def sharing_step_def deliver_signal_def Let_def)
  then obtain s1 where s1: "sharing_run common f thread0 (ask_one responds handle k) s = Some s1"
    "sh_phase s1 = Asking old (map handle ks)" "sh_alive s1" "sh_disp s1 = ActiveThreadsHandler"
    "map snd (sh_threads s1) = map snd (sh_threads s) @ (if responds k then [handle k] else [])" by blast
  from Cons.IH [OF s1(2-4)] Cons.prems(4) obtain s2 where s2: "?rest s1 = Some s2" "sh_phase s2 = Asking old []"
    "sh_alive s2" "sh_disp s2 = ActiveThreadsHandler"
    "map snd (sh_threads s2) = map snd (sh_threads s1)
        @ ask_threads (\<lambda>k. if responds k then Some (handle k) else None) thread0 ks" by auto
  moreover have "sharing_run common f thread0 (concat (map (ask_one responds handle) (k # ks))) s = Some s2"
    using s1(1) s2(1) by (simp add: sharing_run_append)
  ultimately show ?case using s1(5) Cons.prems(4) by (auto simp: Let_def)
qed simp

lemma activeThreads_alone:
  assumes "\<forall>k \<in> set ks. handle k \<noteq> thread0"
  shows "\<exists>s. sharing_run common f thread0
        ([Begin (map handle ks), Install] @ concat (map (ask_one responds handle) ks) @ [Restore, Finish]) (sharing_init d) = Some s
    \<and> map snd (sh_threads s) = ask_threads (\<lambda>k. if responds k then Some (handle k) else None) thread0 ks
    \<and> sh_disp s = d \<and> sh_phase s = Idle"
proof -
  obtain s0 where s0: "sharing_run common f thread0 [Begin (map handle ks), Install] (sharing_init d) = Some s0"
    "sh_phase s0 = Asking d (map handle ks)" "sh_alive s0" "sh_disp s0 = ActiveThreadsHandler" "sh_threads s0 = []"
  proof -
    have "thread0 \<notin> set (map handle ks)" using assms by force
    then show thesis using that by (simp add: sharing_step_def sharing_init_def hs_init_def)
  qed
  from ask_rounds [OF s0(2-4) assms, of common f responds] obtain s1 where
    "sharing_run common f thread0 (concat (map (ask_one responds handle) ks)) s0 = Some s1"
    "sh_phase s1 = Asking d []" "sh_alive s1"
    "map snd (sh_threads s1) = ask_threads (\<lambda>k. if responds k then Some (handle k) else None) thread0 ks"
    using s0(5) by auto
  with s0(1) show ?thesis by (simp add: sharing_run_append sharing_step_def del: append.simps)
qed

section \<open>With one mutex\<close>

text \<open>
  While \<open>activeThreads\<close> is at work the other machine rests and no signal but its own is on the way; while it is idle,
  the signals on the way are those of the other caller, whose handler is installed.
\<close>

definition busy_inv :: "64 word \<Rightarrow> sharing \<Rightarrow> bool" where
  "busy_inv thread0 s \<longleftrightarrow>
     (case sh_phase s of
        Idle \<Rightarrow> True
      | Holding tid \<Rightarrow> hs_pending (sh_hs s) = [] \<and> thread0 \<notin> set tid
      | Asking old tid \<Rightarrow> hs_pending (sh_hs s) = [] \<and> sh_disp s = ActiveThreadsHandler \<and> thread0 \<notin> set tid
      | Prepared old t tid \<Rightarrow> hs_pending (sh_hs s) = [] \<and> sh_disp s = ActiveThreadsHandler \<and> \<not> sh_finished s
          \<and> thread0 \<notin> set (t # tid)
      | AwaitingId old t tid \<Rightarrow> sh_disp s = ActiveThreadsHandler \<and> thread0 \<notin> set (t # tid)
          \<and> (if sh_finished s then hs_pending (sh_hs s) = [] \<and> sh_handle s = t else hs_pending (sh_hs s) = [t])
      | GotId old t tid \<Rightarrow> hs_pending (sh_hs s) = [] \<and> sh_disp s = ActiveThreadsHandler \<and> sh_handle s = t
          \<and> thread0 \<notin> set (t # tid)
      | Restored \<Rightarrow> hs_pending (sh_hs s) = [])"

definition saved :: "active_phase \<Rightarrow> disposition \<Rightarrow> disposition" where
  "saved p d = (case p of Asking old _ \<Rightarrow> old | Prepared old _ _ \<Rightarrow> old | AwaitingId old _ _ \<Rightarrow> old | GotId old _ _ \<Rightarrow> old | _ \<Rightarrow> d)"

definition sharing_inv :: "(64 word \<Rightarrow> 64 word list) \<Rightarrow> 64 word \<Rightarrow> disposition \<Rightarrow> sharing \<Rightarrow> bool" where
  "sharing_inv stack_of thread0 d s \<longleftrightarrow>
     sh_alive s \<and> saved (sh_phase s) (sh_disp s) \<in> {d, CallstackHandler}
     \<and> (\<forall>(t, h) \<in> set (sh_threads s). h = t)
     \<and> (if sh_phase s = Idle then hs_inv stack_of (sh_hs s) \<and> (hs_pending (sh_hs s) \<noteq> [] \<or> (\<exists>t. hs_phase (sh_hs s) = Armed t) \<longrightarrow> sh_disp s = CallstackHandler)
        else hs_phase (sh_hs s) = Unlocked \<and> hs_inv stack_of ((sh_hs s)\<lparr>hs_pending := []\<rparr>) \<and> busy_inv thread0 s)"

lemma sharing_inv_active:
  assumes "sharing_inv stack_of thread0 d s" "active_step thread0 a s = Some s'" "gave_up s' = gave_up s"
  shows "sharing_inv stack_of thread0 d s'"
proof -
  have hs: "hs_inv stack_of hs \<Longrightarrow> hs_phase hs = Unlocked \<Longrightarrow> hs_pending hs = []" for hs
    by (simp add: hs_inv_def)
  have same: "hs_pending hs = [] \<Longrightarrow> hs\<lparr>hs_pending := []\<rparr> = hs" for hs :: handshake by simp
  show ?thesis
    using assms same hs
    by (cases a; cases "sh_phase s")
      (auto simp: sharing_inv_def busy_inv_def saved_def gave_up_def split: if_splits list.splits)
qed

lemma hs_step_deliver: "hs_step f (Deliver t) s = hs_step g (Deliver t) s"
  by simp

lemma sharing_inv_deliver:
  assumes "sharing_inv stack_of thread0 d s" "deliver_signal t s = Some s'"
  shows "sharing_inv stack_of thread0 d s'"
proof (cases "sh_phase s = Idle")
  case True
  from assms(2) have "t \<in> set (hs_pending (sh_hs s))" by (simp add: deliver_signal_def split: if_splits)
  then have p: "hs_pending (sh_hs s) \<noteq> []" by auto
  with assms(1) True have i: "hs_inv stack_of (sh_hs s)" "sh_disp s = CallstackHandler" by (auto simp: sharing_inv_def)
  with assms(2) obtain hs where hs: "hs_step stack_of (Deliver t) (sh_hs s) = Some hs" "s' = s\<lparr>sh_hs := hs\<rparr>"
    unfolding deliver_signal_def by (auto split: if_splits)
  then have "hs_timeouts hs = hs_timeouts (sh_hs s)" by (auto split: if_splits)
  from hs_inv_step [OF i(1) hs(1) this] assms(1) True i(2) hs(2) show ?thesis by (simp add: sharing_inv_def saved_def)
next
  case False
  with assms(1) have b: "busy_inv thread0 s" by (simp add: sharing_inv_def)
  from assms(2) have t: "t \<in> set (hs_pending (sh_hs s))" by (simp add: deliver_signal_def split: if_splits)
  with b False obtain old tid where ph: "sh_phase s = AwaitingId old t tid" "sh_disp s = ActiveThreadsHandler"
    "\<not> sh_finished s" "hs_pending (sh_hs s) = [t]" "thread0 \<notin> set (t # tid)"
    by (cases "sh_phase s") (auto simp: busy_inv_def split: if_splits)
  with assms(2) have "s' = s\<lparr>sh_hs := (sh_hs s)\<lparr>hs_pending := []\<rparr>, sh_handle := t, sh_finished := True\<rparr>"
    by (simp add: deliver_signal_def Let_def)
  with assms(1) ph show ?thesis by (simp add: sharing_inv_def busy_inv_def saved_def)
qed

lemma sharing_inv_caller:
  assumes "sharing_inv stack_of thread0 d s" "caller_step True stack_of a s = Some s'" "gave_up s' = gave_up s"
  shows "sharing_inv stack_of thread0 d s'"
proof (cases "sh_phase s = Idle")
  case True
  with assms(1) have i: "hs_inv stack_of (sh_hs s)"
    "hs_pending (sh_hs s) \<noteq> [] \<or> (\<exists>t. hs_phase (sh_hs s) = Armed t) \<longrightarrow> sh_disp s = CallstackHandler"
    by (simp_all add: sharing_inv_def)
  from assms(2) True obtain hs where hs: "hs_step stack_of a (sh_hs s) = Some hs" "a \<noteq> Deliver t" for t
    by (cases a) (auto simp: caller_step_def simp del: hs_step.simps split: option.splits)
  have s': "s' = s\<lparr>sh_hs := hs, sh_disp := (if a = Arm then CallstackHandler else sh_disp s)\<rparr>"
    using assms(2) hs True by (cases a) (auto simp: caller_step_def simp del: hs_step.simps)
  then have "hs_timeouts hs = hs_timeouts (sh_hs s)" using assms(3) by (simp add: gave_up_def)
  from hs_inv_step [OF i(1) hs(1) this] have "hs_inv stack_of hs" .
  moreover have "hs_pending hs \<noteq> [] \<or> (\<exists>t. hs_phase hs = Armed t) \<longrightarrow> a = Arm \<or> sh_disp s = CallstackHandler"
    using i(2) hs by (cases a; cases "hs_phase (sh_hs s)") (auto split: if_splits)
  ultimately show ?thesis using assms(1) True s' by (auto simp: sharing_inv_def saved_def)
next
  case False
  with assms(1) have i: "hs_phase (sh_hs s) = Unlocked" "hs_running (sh_hs s) = []"
    by (auto simp: sharing_inv_def hs_inv_def)
  with assms(2) False show ?thesis by (cases a) (simp_all add: caller_step_def)
qed

lemma sharing_inv_step:
  assumes "sharing_inv stack_of thread0 d s" "sharing_step True stack_of thread0 a s = Some s'" "gave_up s' = gave_up s"
  shows "sharing_inv stack_of thread0 d s'"
proof (cases a)
  case (Begin tid)
  with assms(1,2) show ?thesis
    by (auto simp: sharing_step_def sharing_inv_def busy_inv_def saved_def hs_inv_def split: if_splits)
next
  case (Caller b)
  with assms(2) have "caller_step True stack_of b s = Some s'" by (simp add: sharing_step_def split: if_splits)
  from sharing_inv_caller [OF assms(1) this assms(3)] show ?thesis .
next
  case (Signalled t)
  with assms(2) have "deliver_signal t s = Some s'" by (simp add: sharing_step_def split: if_splits)
  from sharing_inv_deliver [OF assms(1) this] show ?thesis .
qed (rule sharing_inv_active [OF assms(1), of a, OF _ assms(3)], use assms(2) in \<open>simp add: sharing_step_def split: if_splits\<close>)+


inductive sharing_reachable :: "bool \<Rightarrow> (64 word \<Rightarrow> 64 word list) \<Rightarrow> 64 word \<Rightarrow> disposition \<Rightarrow> sharing \<Rightarrow> bool"
  for common stack_of thread0 d where
  sharing_start: "sharing_reachable common stack_of thread0 d (sharing_init d)"
| sharing_next: "sharing_reachable common stack_of thread0 d s \<Longrightarrow> sharing_step common stack_of thread0 a s = Some s'
    \<Longrightarrow> sharing_reachable common stack_of thread0 d s'"

lemma sharing_run_reachable:
  "sharing_reachable common stack_of thread0 d s \<Longrightarrow> sharing_run common stack_of thread0 as s = Some s'
    \<Longrightarrow> sharing_reachable common stack_of thread0 d s'"
  by (induction "as" arbitrary: s) (auto simp: bind_eq_Some_conv intro: sharing_next)

lemma gave_up_mono:
  assumes "sharing_step common stack_of thread0 a s = Some s'"
  shows "gave_up s \<le> gave_up s'"
proof -
  have act: "active_step thread0 a s = Some s' \<Longrightarrow> gave_up s \<le> gave_up s'"
    by (cases a) (auto simp: gave_up_def split: active_phase.splits list.splits if_splits)
  have del: "deliver_signal t s = Some s' \<Longrightarrow> gave_up s \<le> gave_up s'" for t
    by (auto simp: deliver_signal_def gave_up_def Let_def split: if_splits disposition.splits)
  have call: "caller_step common stack_of b s = Some s' \<Longrightarrow> gave_up s \<le> gave_up s'" for b
    by (cases b) (auto simp: caller_step_def gave_up_def simp del: hs_step.simps split: if_splits dest!: hs_timeouts_mono)
  show ?thesis
  proof (cases a)
    case (Begin tid)
    with assms show ?thesis by (auto simp: sharing_step_def gave_up_def split: if_splits)
  next
    case (Caller b)
    with assms call show ?thesis by (simp add: sharing_step_def split: if_splits)
  next
    case (Signalled t)
    with assms del show ?thesis by (simp add: sharing_step_def split: if_splits)
  qed (rule act, use assms in \<open>simp add: sharing_step_def split: if_splits\<close>)+
qed

lemma sharing_reachable_inv:
  "sharing_reachable True stack_of thread0 d s \<Longrightarrow> gave_up s = 0 \<Longrightarrow> sharing_inv stack_of thread0 d s"
proof (induction rule: sharing_reachable.induct)
  case sharing_start
  then show ?case by (simp add: sharing_inv_def sharing_init_def saved_def hs_inv_def hs_init_def)
next
  case (sharing_next s a s')
  with gave_up_mono [OF sharing_next(2)] sharing_inv_step [of stack_of thread0 d s a s'] show ?case by simp
qed

text \<open>
  Property C22: the signal that two functions share. If they had one mutex, then as long as nobody gives up waiting every
  interleaving would be right: each thread that \<open>activeThreads\<close> asks answers with its own handle, each caller of \<open>backtrace_thread\<close> gets
  the stack of its thread, the process lives, and \<open>activeThreads\<close> leaves no handler of its own behind. With the two
  mutexes of the code there is an interleaving without any timeout that ends the process: \<open>activeThreads\<close> puts the old action back while
  the other caller's signal is on its way. And even with one mutex a single timeout of \<open>activeThreads\<close> is enough: the thread
  that answers too late finds the old action.
\<close>

theorem shared_signal:
  assumes "t \<noteq> thread0" "d \<in> {SIG_DFL, TerminateHandler}"
  shows "(\<forall>s. sharing_reachable True stack_of thread0 d s \<and> gave_up s = 0 \<longrightarrow>
        sh_alive s \<and> (\<forall>(t, h) \<in> set (sh_threads s). h = t) \<and> (\<forall>(t, trace) \<in> set (hs_results (sh_hs s)). trace = stack_of t)
        \<and> (sh_phase s = Idle \<longrightarrow> sh_disp s \<in> {d, CallstackHandler}))
    \<and> (\<exists>s. sharing_reachable False stack_of thread0 d s \<and> gave_up s = 0 \<and> \<not> sh_alive s)
    \<and> (\<exists>s. sharing_reachable True stack_of thread0 d s \<and> gave_up s = 1 \<and> \<not> sh_alive s)"
proof (intro conjI allI impI)
  fix s assume "sharing_reachable True stack_of thread0 d s \<and> gave_up s = 0"
  then have inv: "sharing_inv stack_of thread0 d s" using sharing_reachable_inv by blast
  then show "sh_alive s" "\<forall>(t, h) \<in> set (sh_threads s). h = t" by (simp_all add: sharing_inv_def)
  show "\<forall>(t, trace) \<in> set (hs_results (sh_hs s)). trace = stack_of t"
    using inv by (cases "sh_phase s = Idle") (auto simp: sharing_inv_def hs_inv_def)
  show "sh_disp s \<in> {d, CallstackHandler}" if "sh_phase s = Idle"
    using inv that by (simp add: sharing_inv_def saved_def)
next
  let ?as = "[Begin [t], Install, Prepare, Ask, Signalled t, IdArrived, TakeId,
    Caller (Acquire t), Caller Arm, Caller Send, Restore, Signalled t]"
  have "\<exists>s. sharing_run False stack_of thread0 ?as (sharing_init d) = Some s \<and> gave_up s = 0 \<and> \<not> sh_alive s"
    using assms by (auto simp: sharing_step_def sharing_init_def hs_init_def deliver_signal_def caller_step_def gave_up_def)
  then show "\<exists>s. sharing_reachable False stack_of thread0 d s \<and> gave_up s = 0 \<and> \<not> sh_alive s"
    using sharing_run_reachable [OF sharing_start] by blast
next
  let ?as = "[Begin [t], Install, Prepare, Ask, IdTimeOut, TakeId, Restore, Signalled t]"
  have "\<exists>s. sharing_run True stack_of thread0 ?as (sharing_init d) = Some s \<and> gave_up s = 1 \<and> \<not> sh_alive s"
    using assms by (auto simp: sharing_step_def sharing_init_def hs_init_def deliver_signal_def gave_up_def)
  then show "\<exists>s. sharing_reachable True stack_of thread0 d s \<and> gave_up s = 1 \<and> \<not> sh_alive s"
    using sharing_run_reachable [OF sharing_start] by blast
qed

theorem shared_signal_witness:
  "\<exists>s. sharing_reachable False (\<lambda>t. [t]) 1 SIG_DFL s \<and> gave_up s = 0 \<and> \<not> sh_alive s"
  using shared_signal [of 2 1 SIG_DFL "\<lambda>t. [t]"] by simp

end
