(* ===== verification/Sampling.thy ===== *)
theory Sampling
  imports Backtrace Resolve
begin

text \<open>
  The sampling of all threads: the tree of \<open>getAllCallStacks\<close> built from what \<open>backtrace_thread\<close> returns in the handshakes with the
  signal handlers, so that the tree is related to the stacks that the threads really have.
\<close>

section \<open>The backtracer of the handshakes\<close>

text \<open>
  What \<open>backtrace_thread\<close> stores for the caller \<open>self\<close> in the buffer, and the number of entries it returns: its own stack
  is taken directly, that of another thread from the answer of its handshake. \<open>hs_results\<close> holds the answers, the latest one
  last.
\<close>

definition last_answer :: "handshake \<Rightarrow> 64 word \<Rightarrow> 64 word list" where
  "last_answer s tid = (case map_of (rev (hs_results s)) tid of None \<Rightarrow> [] | Some trace \<Rightarrow> trace)"

definition handshake_backtracer :: "(64 word \<Rightarrow> 64 word list) \<Rightarrow> 64 word \<Rightarrow> handshake \<Rightarrow> 64 word backtracer" where
  "handshake_backtracer stack_of self s tid buffer =
     (let trace = (if tid = self then stack_of self else last_answer s tid)
      in (length trace, trace @ drop (length trace) buffer))"

text \<open>A caller that asks the threads in turn, all of which answer in time.\<close>

definition sampling_actions :: "64 word list \<Rightarrow> hs_action list" where
  "sampling_actions threads =
     concat (map (\<lambda>t. [Acquire t, Arm, Send] @ handler_actions t @ [Answered, ReadCount, CopyTrace, Release]) threads)"

section \<open>The tree of the real stacks\<close>

lemma last_answer_in: "tid \<in> fst ` set (hs_results s) \<Longrightarrow> (tid, last_answer s tid) \<in> set (hs_results s)"
proof -
  assume "tid \<in> fst ` set (hs_results s)"
  then obtain trace where "map_of (rev (hs_results s)) tid = Some trace"
    by (metis image_set map_of_eq_None_iff not_None_eq rev_map set_map set_rev)
  with map_of_SomeD [OF this] show ?thesis by (simp add: last_answer_def)
qed

lemma backtrace_handshake:
  "backtrace (handshake_backtracer stack_of self s) tid = (if tid = self then stack_of self else last_answer s tid)"
  by (simp add: backtrace_def handshake_backtracer_def Let_def resize_vec_def)

lemma backtrace_sampled:
  assumes "hs_reachable stack_of s" "hs_timeouts s = 0" "tid = self \<or> tid \<in> fst ` set (hs_results s)"
  shows "backtrace (handshake_backtracer stack_of self s) tid = stack_of tid"
proof (cases "tid = self")
  case False
  with assms(3) last_answer_in have "(tid, last_answer s tid) \<in> set (hs_results s)" by blast
  then have "last_answer s tid = stack_of tid" using hs_reachable_inv [OF assms(1,2)] by (auto simp: hs_inv_def)
  with False show ?thesis by (simp add: backtrace_handshake)
qed (simp add: backtrace_handshake)

text \<open>Asking the threads in turn is one of the interleavings.\<close>

lemma hs_run_append: "hs_run f (as @ bs) s = Option.bind (hs_run f as s) (hs_run f bs)"
  by (induction "as" arbitrary: s) (auto split: option.splits)

lemma sampling_runs:
  assumes "hs_phase s = Unlocked" "hs_pending s = []" "hs_running s = []" "length (hs_trace s) = 1000"
    "\<forall>t \<in> set threads. length (stack_of t) \<le> 1000"
  shows "\<exists>s'. hs_run stack_of (sampling_actions threads) s = Some s' \<and> hs_timeouts s' = hs_timeouts s
    \<and> hs_results s' = hs_results s @ map (\<lambda>t. (t, stack_of t)) threads"
  using assms
proof (induction threads arbitrary: s)
  case (Cons t threads)
  let ?one = "[Acquire t, Arm, Send] @ handler_actions t @ [Answered, ReadCount, CopyTrace, Release]"
  let ?s = "s\<lparr>hs_phase := Unlocked, hs_count := -1, hs_trace := stack_of t @ drop (length (stack_of t)) (hs_trace s),
    hs_results := hs_results s @ [(t, stack_of t)]\<rparr>"
  have one: "hs_run stack_of ?one s = Some ?s" using Cons.prems(1-3) by (cases s) (simp add: handler_actions_def)
  have "length (hs_trace ?s) = 1000" using Cons.prems(4,5) by simp
  with Cons.IH [of ?s] Cons.prems obtain s' where "hs_run stack_of (sampling_actions threads) ?s = Some s'"
    "hs_timeouts s' = hs_timeouts s" "hs_results s' = hs_results s @ (t, stack_of t) # map (\<lambda>t. (t, stack_of t)) threads" by auto
  moreover have "sampling_actions (t # threads) = ?one @ sampling_actions threads" by (simp add: sampling_actions_def)
  with one have "hs_run stack_of (sampling_actions (t # threads)) s = hs_run stack_of (sampling_actions threads) ?s"
    by (simp only: hs_run_append bind.simps)
  ultimately show ?case by simp
qed (simp add: sampling_actions_def)

lemma tree_of_answers:
  assumes s: "hs_reachable stack_of s" "hs_timeouts s = 0" and asked: "\<forall>tid \<in> set threads. tid = self \<or> tid \<in> fst ` set (hs_results s)"
    and run: "getAllCallStacks pf (handshake_backtracer stack_of self s) threads (cache, d) = Inr (t, cache', d')"
  shows "\<exists>F. (\<forall>a \<in> set (concat (map stack_of threads)). si_address (F a) = a) \<and> ms_N t = int (length threads)
      \<and> (\<forall>p. transp_on (F ` set (concat (map stack_of threads))) stack_eq
            \<and> set p \<subseteq> F ` set (concat (map stack_of threads)) \<and> p \<noteq> [] \<longrightarrow>
          ms_count p (ms_children t) = int (length (filter (\<lambda>tid. path_of p (rev (map F (stack_of tid)))) threads)))"
proof -
  let ?trace = "map stack_of threads"
  have "map (backtrace (handshake_backtracer stack_of self s)) threads = ?trace"
    using backtrace_sampled [OF s] asked by simp
  with run have "generateMultiStack pf ?trace (cache, d) = Inr (t, cache', d')"
    by (simp add: getAllCallStacks_def generateMultiStack_threads_def)
  from generateMultiStack_tree [OF this] obtain F where F: "\<forall>a \<in> set (concat ?trace). si_address (F a) = a"
    "ms_N t = int (length ?trace)"
    and A: "\<forall>A. transp_on A stack_eq \<and> F ` set (concat ?trace) \<subseteq> A \<longrightarrow> forest_ok A (ms_children t)
        \<and> (\<forall>p. set p \<subseteq> A \<and> p \<noteq> [] \<longrightarrow>
            ms_count p (ms_children t) = int (length (filter (\<lambda>q. path_of p (rev (map F q))) ?trace)))" by blast
  then show ?thesis
    using A [rule_format, of "F ` set (concat ?trace)"] by (intro exI [of _ F]) (simp add: filter_map comp_def)
qed

lemma wrong_answers:
  assumes "t1 \<noteq> t2" "self \<notin> {t1, t2}"
  shows "\<exists>s. hs_reachable stack_of s \<and> hs_timeouts s = 1 \<and> map fst (hs_results s) = [t1, t2]
      \<and> map (backtrace (handshake_backtracer stack_of self s)) [t1, t2] = [[], stack_of t1]"
proof -
  from backtrace_late_handler obtain s where s: "hs_reachable stack_of s" "hs_timeouts s = 1"
    "hs_results s = [(t1, []), (t2, stack_of t1)]" by blast
  moreover have "last_answer s t1 = []" "last_answer s t2 = stack_of t1" using s(3) assms(1) by (simp_all add: last_answer_def)
  ultimately show ?thesis using assms(2) by (intro exI [of _ s]) (auto simp: backtrace_handshake)
qed

text \<open>
  Property C10: from the signals to the tree. Whatever happens in between, when no caller has given up waiting, the tree that
  \<open>getAllCallStacks\<close> makes from the answers counts the stacks that the threads really have: the number at every path is the number
  of threads whose outermost frames are that path. A single timeout is enough to break it: there is an interleaving in which a
  thread is shown without frames and the next one with the frames of that thread.
\<close>

theorem sampled_tree:
  "(\<forall>s self threads cache d t cache' d'. hs_reachable stack_of s \<and> hs_timeouts s = 0
      \<and> (\<forall>tid \<in> set threads. tid = self \<or> tid \<in> fst ` set (hs_results s))
      \<and> getAllCallStacks pf (handshake_backtracer stack_of self s) threads (cache, d) = Inr (t, cache', d') \<longrightarrow>
      (\<exists>F. (\<forall>a \<in> set (concat (map stack_of threads)). si_address (F a) = a) \<and> ms_N t = int (length threads)
        \<and> (\<forall>p. transp_on (F ` set (concat (map stack_of threads))) stack_eq
              \<and> set p \<subseteq> F ` set (concat (map stack_of threads)) \<and> p \<noteq> [] \<longrightarrow>
            ms_count p (ms_children t) = int (length (filter (\<lambda>tid. path_of p (rev (map F (stack_of tid)))) threads)))))
   \<and> (\<forall>t1 t2 self. t1 \<noteq> t2 \<and> self \<notin> {t1, t2} \<longrightarrow>
      (\<exists>s. hs_reachable stack_of s \<and> hs_timeouts s = 1 \<and> map fst (hs_results s) = [t1, t2]
        \<and> map (backtrace (handshake_backtracer stack_of self s)) [t1, t2] = [[], stack_of t1]))"
  by (intro conjI allI impI; (elim conjE)?; rule tree_of_answers wrong_answers; simp)

text \<open>Three threads, two of which are asked through the signal.\<close>

theorem sampled_tree_witness:
  "\<exists>s t st. hs_reachable (\<lambda>tid. [tid]) s \<and> getAllCallStacks bare_platform (handshake_backtracer (\<lambda>tid. [tid]) 16 s) [16, 32, 16]
      (\<lparr>sc_loaded = True, sc_data = []\<rparr>, \<lambda>_. SIG_IGN) = Inr (t, st) \<and> ms_N t = 3"
proof -
  let ?st = "(\<lparr>sc_loaded = True, sc_data = []\<rparr>, \<lambda>_. SIG_IGN) :: resolver_state"
  obtain s where s: "hs_run (\<lambda>tid. [tid]) (sampling_actions [32]) hs_init = Some s" "hs_timeouts s = 0" "hs_results s = [(32, [32])]"
    using sampling_runs [of hs_init "[32]" "\<lambda>tid. [tid]"] by (auto simp: hs_init_def)
  from hs_run_reachable [OF hs_start s(1)] have reach: "hs_reachable (\<lambda>tid. [tid]) s" .
  have "map (backtrace (handshake_backtracer (\<lambda>tid. [tid]) 16 s)) [16, 32, 16] = [[16], [32], [16]]"
    using s(3) by (simp add: backtrace_handshake last_answer_def)
  moreover have "collect_addresses [[16], [32], [16]] = [16, 32]" by (simp add: collect_addresses_def)
  ultimately obtain t st where r: "getAllCallStacks bare_platform (handshake_backtracer (\<lambda>tid. [tid]) 16 s) [16, 32, 16] ?st = Inr (t, st)"
    unfolding getAllCallStacks_def generateMultiStack_threads_def generateMultiStack_def generateStacks_def
      getStackInfo_many_def Let_def by (simp add: bare_getStackInfo2)
  obtain c d' where st: "st = (c, d')" by (cases st)
  have asked: "\<forall>tid \<in> set [16, 32, 16]. tid = 16 \<or> tid \<in> fst ` set (hs_results s)" using s(3) by simp
  note tree = sampled_tree [of "\<lambda>tid. [tid]" bare_platform, THEN conjunct1, THEN spec [of _ s], THEN spec [of _ 16],
      THEN spec [of _ "[16, 32, 16]"], THEN spec, THEN spec, THEN spec, THEN spec, THEN spec, THEN mp]
  from tree [OF conjI [OF reach conjI [OF s(2) conjI [OF asked r [unfolded st]]]]] have "ms_N t = 3" by auto
  with reach r show ?thesis by blast
qed

end
