(* ===== verification/Spec2Isabelle.thy ===== *)
theory Spec2Isabelle
  imports Multi_Stack Static_Vector Parser Function_Names Cleanup_Vectors Threads Backtrace Abort Global_Stacks
    Environment Monitor Windows MacOS Resources Program_End Exec_Parallel Test_Utilities Test_Run Signal_Sharing Sampling
begin

text \<open>
  A verification of StackTrace, a C++ library that shows the call stacks of the threads and the MPI
  processes of a program. Paths below are relative to \<open>src/\<close>. The model is the Linux build with GCC's
  ABI, with MPI, and without the optional timer library; the branches for macOS and Windows are modelled
  beside it, in theories of their own.

  \<^bold>\<open>How a call stack is made.\<close> The threads of the process register themselves in a vector of fixed
  capacity (\<open>StackTraceThreads.cpp\<close>, \<open>StaticVector.h\<close>). To get the stack of another thread the library
  installs a handler for a signal, sends it, and waits until the handler has written the return
  addresses to a global buffer. The addresses become frames (\<open>stack_info\<close>) through \<open>dladdr\<close>, the
  demangler, the symbols of \<open>nm\<close> and the tool \<open>addr2line\<close>; the names of functions are shortened. The
  frames of many stacks are merged in a tree that counts them (\<open>multi_stack_info\<close>), the tree is packed to
  travel between processes, merged again, cleaned of the frames of the library itself and printed;
  a printed tree can be read back. On an error the library builds such a report from inside a signal
  handler, the terminate handler or the handler of MPI, and ends the program.

  \<^bold>\<open>The theories\<close>, in the order they build on each other:

  \<^item> \<open>Prelude\<close>: faults (\<open>fault\<close>) and results (\<open>bindR\<close>), C strings as lists of characters, \<open>size_t\<close>
    arithmetic, substring search, lists updated in place, the collection \<open>wf_frame\<close>.
  \<^item> \<open>CStrings\<close>: \<open>replace\<close>, \<open>strrep\<close>, the hashes, \<open>subtractAddress\<close>, \<open>stripPath\<close> and the bounded copies
    of \<open>StackTrace.cpp\<close>. \<open>strrep\<close> is shown to be the exhaustive leftmost rewriting of its string, inside its
    buffer.
  \<^item> \<open>Static_Vector\<close>: \<open>StaticVector.h\<close>. The locales \<open>bounded_store\<close> and \<open>swap_removal\<close> are the contract of
    its clients, interpreted on the operations of the class.
  \<^item> \<open>Number_Text\<close>, \<open>Byte_Codec\<close>: the conversions of the C library (\<open>strtol\<close>, \<open>atoi\<close>, \<open>stoi\<close>, \<open>printf\<close>)
    and the byte image of integers; the locale \<open>codec\<close> is the contract of a serialisation.
  \<^item> \<open>Stack_Info\<close>: one frame, its comparison, printing and serialisation; the locale \<open>frame_comparison\<close>.
  \<^item> \<open>Multi_Stack\<close>: the tree. Adding stacks and merging trees are shown to count: \<open>ms_count\<close> at a path is
    the number of stacks that begin with it (locale \<open>frame_grouping\<close>); packing is a round trip; the bounds of the
    printer.
  \<^item> \<open>Parser\<close>: \<open>parseLine\<close> and \<open>generateFromString\<close>; reading a printed tree gives the tree.
  \<^item> \<open>Function_Names\<close>: \<open>cleanupFunctionName\<close> with its tables; it is safe but for one input.
  \<^item> \<open>Cleanup\<close>: \<open>keep\<close> and \<open>cleanupStackTrace\<close> on values; they end, keep the counts and leave no contributing frame.
    \<open>Cleanup_Traces\<close>: the traces of wanted frames are the same before and after. \<open>Cleanup_Vectors\<close>: the same function in
    memory, where the assignment of a child over its own parent can read what it has overwritten; when it does not, the values are those of
    \<open>Cleanup\<close>, and trees are described on which it never does.
  \<^item> \<open>Signals\<close>, \<open>Exec\<close>: the table of installed signal handlers; running a command and capturing its output.
  \<^item> \<open>Symbols\<close>: the symbol table from \<open>nm\<close>, its cache and its search.
  \<^item> \<open>Resolve\<close>: from addresses to frames (\<open>getStackInfo2\<close>, \<open>getFileAndLine\<close>, \<open>getFileAndLineObject\<close>) and to
    the tree of all threads (\<open>generateStacks\<close>, \<open>generateMultiStack\<close>, \<open>getAllCallStacks\<close>). The grouping loops look
    up every frame once; the answers of \<open>addr2line\<close> reach their frames; frames stay well-formed.
  \<^item> \<open>Resolver_Signals\<close>: what the resolution and the requests for the stacks of other threads leave of the signals.
  \<^item> \<open>Threads\<close>: the output of \<open>ps\<close> with its header line, the active threads, the registry and its life with the threads.
  \<^item> \<open>Backtrace\<close>: the handshake of \<open>backtrace_thread\<close> with its signal handler, as interleaved steps.
  \<^item> \<open>Signal_Sharing\<close>: the loop of \<open>activeThreads\<close> beside \<open>backtrace_thread\<close>, interleaved on the signal that both
    use: right with one mutex and without timeouts, fatal with the two mutexes of the code.
  \<^item> \<open>Sampling\<close>: the handshakes composed with the tree of all threads: without timeouts it counts the stacks the threads
    really have.
  \<^item> \<open>Abort\<close>: \<open>abort_error\<close>, \<open>rethrow\<close>, the installation and removal of handlers, and \<open>terminate\<close>, whose report changes the
    signals after the handlers were removed.
  \<^item> \<open>Global_Stacks\<close>: the states of the monitor thread, over any history of starts and finalisations, and the collection of the trees
    of all MPI processes.
  \<^item> \<open>Monitor\<close>: the loop of the monitor thread, which drops a request when no thread is registered, and the composition of all processes: what the requesting
    process returns counts, at every path, the stacks of all processes that begin with it.
  \<^item> \<open>Environment\<close>, \<open>Resources\<close>: the string utilities of \<open>Utilities.cpp\<close>; memory, time and operating system.
  \<^item> \<open>MacOS\<close>, \<open>Windows\<close>: the branches for these systems: \<open>atos\<close> and the images, the modules, the walk of the stack, the
    resolution of a frame, the lists of threads.
  \<^item> \<open>Program_End\<close>: signals that are raised and exceptions that nobody catches, composed with the handlers of
    \<open>Abort\<close>, and \<open>TestTerminate.cpp\<close>, whose four failing runs are shown to end with their reports.
  \<^item> \<open>Exec_Parallel\<close>: commands run by several threads, as interleaved steps: what holds under every schedule and
    which schedules break the rest.
  \<^item> \<open>MPI_Collectives\<close>: the collective operations of the test driver and when those of all processes match.
  \<^item> \<open>Test_Utilities\<close>, \<open>Test_Stack\<close>, \<open>Test_Run\<close>: the test drivers, on the models of what they test: that the
    tests of signals and of the ends of a program pass, and when the programs, over all ranks of MPI, return 0.

  \<^bold>\<open>Conventions.\<close> A \<open>std::array<char, N>\<close> is a list of length \<open>N\<close>, a pointer to a C string is a list with or
  without its terminator, of which \<open>cstr\<close> is the part before the first NUL; a null pointer is \<open>None\<close>.
  Addresses and hashes are words of their width. \<open>size_t\<close> values that can wrap are \<open>nat\<close> with the wrap
  written out (\<open>uadd64\<close>); the numbers of stacks are unbounded integers, as the trees of real programs
  stay far below the limit of \<open>int\<close>, except where they are packed, where \<open>ms_valid\<close> asks for the range. A read or write
  outside of a buffer, a null dereference, an exception, an endless loop are faults, so that a theorem
  that a result exists shows that none of them happens. State is passed explicitly; the state
  machines (\<open>thread_step\<close>, \<open>hs_step\<close>, \<open>sharing_step\<close>, \<open>error_step\<close>) have invariants over their reachable states.

  \<^bold>\<open>Bounds and fuel.\<close> Loops are total functions with a measure, except three that may run for ever
  (\<open>strrep\<close>, \<open>halve\<close>, \<open>replace_text\<close>), which are partial functions: their theorems say when they return.
  \<open>ms_unpack\<close> gets the length of its input as fuel, which is enough since every level reads 520 bytes;
  \<open>cleanupStackTrace\<close> gets the depth of the tree. \<open>receive_replies\<close> runs over the list of what the probes find, and
  a list that is too short is a loop that goes on; the same holds for the rounds of \<open>runGlobalMonitorThread\<close> and for the readings
  of the clock in \<open>sleep_loop\<close>. \<open>walk_stack\<close> ends at 1024 frames. A schedule of \<open>exec_run\<close> is a list of threads, and the
  theorems on it speak of schedules that finish all threads.

  \<^bold>\<open>Parameters.\<close> What is not part of the repository is an argument: the output of \<open>ps\<close>, \<open>nm\<close> and \<open>addr2line\<close>
  (\<open>popen\<close>), \<open>dladdr\<close> and the demangler (\<open>platform\<close>), what \<open>::backtrace\<close> finds, \<open>strsignal\<close>, \<open>readlink\<close>, the
  events of MPI, the padding bytes of a structure, the calls of Windows (\<open>win_api\<close>, \<open>symbol_api\<close>, \<open>stack_walker\<close>), the images of
  \<open>dyld\<close>, what \<open>sysconf\<close> and \<open>mallinfo\<close> report, and what the test drivers measure. The theorems that need more of them than their type say
  so in their hypotheses.

  \<^bold>\<open>Not modelled.\<close> The macros of \<open>StackTraceMacros.h\<close>, which are pragmas, and most of what the test drivers only print. The
  rounding of floating point numbers is a parameter of \<open>time\<close>. The data race on
  \<open>global_thread_backtrace_count\<close>, a plain integer polled by another thread, is modelled as if its accesses were atomic; those
  of \<open>test_exec\<close> are split in reads and writes. The callers of \<open>cleanupStackTrace\<close> use it on values, which is what it does unless the fault of
  \<open>Cleanup_Vectors\<close> occurs. Messages of MPI arrive complete; the time they take is part of the events. Objects with the same hash of 64 bits are
  one object, as in the code. A row of the output of a command that fills its 512 characters is read as if it ended there.
\<close>

end
